(* ===== verification/Prelude.thy ===== *)
theory Prelude
  imports Main "HOL-Library.AList" "HOL-Library.Word" "HOL-Library.Multiset" "HOL-Library.Sublist"
begin

text \<open>
  Shared vocabulary of the development: the faults a C++ operation can end in, results as a
  sum of a fault and a value with their bind, association lists as the model of
  \<open>paracel::dict_type\<close> (an \<open>std::unordered_map\<close>), checked indexing, and the simp collections
  the component theories extend.

  A dictionary is an association list with distinct keys. The list order stands for the
  iteration order of the hash table, which the C++ standard leaves open: statements about
  iteration are made for every list, or up to order (sets, multisets, lookups).
\<close>

section \<open>Collections\<close>

named_theorems res_simps \<open>inversion of results and their binds\<close>

section \<open>Faults and results\<close>

text \<open>
  How an operation of the C++ code can fail to return: \<open>std::out_of_range\<close> from \<open>at\<close>, a
  read outside a container or of an uninitialised variable (undefined behaviour), an empty
  \<open>std::function\<close> called, \<open>boost::bad_any_cast\<close>, a failing \<open>assert\<close>, \<open>abort()\<close>,
  an exception thrown by msgpack, a zmq send in the wrong state of a REP socket, another
  \<open>std::runtime_error\<close>, an integer division by zero, and a wait that does not end.
\<close>

datatype fault =
    OutOfRange | UndefinedRead | BadFunctionCall | BadAnyCast | AssertFailed | Aborted
  | DecodeError | SocketState | RuntimeError | DivByZero | NoProgress | InvalidArgument

type_synonym 'a res = "fault + 'a"

definition rbind :: "'a res \<Rightarrow> ('a \<Rightarrow> 'b res) \<Rightarrow> 'b res" where
  "rbind r f = (case r of Inl e \<Rightarrow> Inl e | Inr x \<Rightarrow> f x)"

lemma rbind_Inl [simp]: "rbind (Inl e) f = Inl e"
  by (simp add: rbind_def)

lemma rbind_Inr [simp]: "rbind (Inr x) f = f x"
  by (simp add: rbind_def)

lemma rbind_eq_Inr [res_simps]: "rbind r f = Inr y \<longleftrightarrow> (\<exists>x. r = Inr x \<and> f x = Inr y)"
  by (cases r) auto

lemma rbind_eq_Inl [res_simps]:
  "rbind r f = Inl e \<longleftrightarrow> r = Inl e \<or> (\<exists>x. r = Inr x \<and> f x = Inl e)"
  by (cases r) auto

lemma rbind_assoc: "rbind (rbind r f) g = rbind r (\<lambda>x. rbind (f x) g)"
  by (cases r) auto

lemma rbind_if_Inl: "rbind (if b then Inl e else r) f = (if b then Inl e else rbind r f)"
  by simp

lemma rbind_cong [fundef_cong]:
  "r = r' \<Longrightarrow> (\<And>x. r' = Inr x \<Longrightarrow> f x = g x) \<Longrightarrow> rbind r f = rbind r' g"
  by (cases r') auto

definition of_opt :: "fault \<Rightarrow> 'a option \<Rightarrow> 'a res" where
  "of_opt e r = (case r of None \<Rightarrow> Inl e | Some x \<Rightarrow> Inr x)"

lemma of_opt_simps [simp]:
  "of_opt e None = Inl e" "of_opt e (Some x) = Inr x"
  by (simp_all add: of_opt_def)

lemma of_opt_eq_Inr [res_simps]: "of_opt e r = Inr x \<longleftrightarrow> r = Some x"
  by (cases r) auto

text \<open>\<open>rmapM f xs\<close> runs \<open>f\<close> over a list, left to right, and stops at the first fault.\<close>

fun rmapM :: "('a \<Rightarrow> 'b res) \<Rightarrow> 'a list \<Rightarrow> 'b list res" where
  "rmapM f [] = Inr []"
| "rmapM f (x # xs) = rbind (f x) (\<lambda>y. rbind (rmapM f xs) (\<lambda>ys. Inr (y # ys)))"

lemma rmapM_Inr_map: "(\<And>x. x \<in> set xs \<Longrightarrow> f x = Inr (g x)) \<Longrightarrow> rmapM f xs = Inr (map g xs)"
  by (induction xs) auto

lemma rbind_Inr_id [simp]: "rbind r Inr = r"
  by (cases r) auto

lemma rmapM_append: "rmapM f (xs @ ys) = rbind (rmapM f xs) (\<lambda>us. rbind (rmapM f ys) (\<lambda>vs. Inr (us @ vs)))"
  by (induction xs) (simp_all add: rbind_assoc)

lemma rmapM_cong: "(\<And>x. x \<in> set xs \<Longrightarrow> f x = g x) \<Longrightarrow> rmapM f xs = rmapM g xs"
  by (induction xs) auto

lemma rmapM_length: "rmapM f xs = Inr ys \<Longrightarrow> length ys = length xs"
  by (induction xs arbitrary: ys) (auto simp: res_simps)

text \<open>\<open>rfold f xs s\<close> threads a state through a loop body that may fail.\<close>

fun rfold :: "('a \<Rightarrow> 's \<Rightarrow> 's res) \<Rightarrow> 'a list \<Rightarrow> 's \<Rightarrow> 's res" where
  "rfold f [] s = Inr s"
| "rfold f (x # xs) s = rbind (f x s) (rfold f xs)"

lemma rfold_append: "rfold f (xs @ ys) s = rbind (rfold f xs s) (rfold f ys)"
proof (induction xs arbitrary: s)
  case Nil
  show ?case by simp
next
  case (Cons x xs)
  show ?case by (cases "f x s") (simp_all add: Cons)
qed

text \<open>Indexing: \<open>v[i]\<close> outside the vector is undefined behaviour, \<open>v.at(i)\<close> throws.\<close>

definition nth_res :: "'a list \<Rightarrow> nat \<Rightarrow> 'a res" where
  "nth_res xs i = (if i < length xs then Inr (xs ! i) else Inl UndefinedRead)"

lemma nth_res_simps [simp]:
  "nth_res (x # xs) 0 = Inr x" "nth_res [] i = Inl UndefinedRead"
  "nth_res (x # xs) (Suc i) = nth_res xs i"
  by (auto simp: nth_res_def)

lemma nth_res_num [simp]:
  "nth_res (x # xs) 1 = nth_res xs 0"
  "nth_res (x # xs) (numeral n) = nth_res xs (pred_numeral n)"
  by (simp_all add: numeral_eq_Suc)

lemma nth_res_Inr: "nth_res xs i = Inr x \<longleftrightarrow> i < length xs \<and> x = xs ! i"
  by (auto simp: nth_res_def)

lemma upt_split: "a \<le> b \<Longrightarrow> b \<le> c \<Longrightarrow> [a..<c] = [a..<b] @ [b..<c]"
  by (metis upt_add_eq_append le_add_diff_inverse)

lemma concat_map_Nil: "(\<And>x. x \<in> set xs \<Longrightarrow> f x = []) \<Longrightarrow> concat (map f xs) = []"
  by (induction xs) auto

text \<open>\<open>std::vector::resize\<close> and \<open>std::string::resize\<close>.\<close>

definition resize_list :: "nat \<Rightarrow> 'a \<Rightarrow> 'a list \<Rightarrow> 'a list" where
  "resize_list n d xs = take n xs @ replicate (n - length xs) d"

lemma length_resize_list [simp]: "length (resize_list n d xs) = n"
  by (simp add: resize_list_def)

lemma nth_resize_list: "i < n \<Longrightarrow> resize_list n d xs ! i = (if i < length xs then xs ! i else d)"
  by (auto simp: resize_list_def nth_append)

section \<open>Dictionaries\<close>

type_synonym ('k, 'v) dict = "('k \<times> 'v) list"

definition wf_dict :: "('k, 'v) dict \<Rightarrow> bool" where
  "wf_dict d \<longleftrightarrow> distinct (map fst d)"

text \<open>\<open>d[k] = v\<close>, \<open>d.erase(k)\<close>, \<open>d.count(k)\<close>, \<open>d.find(k)\<close>.\<close>

definition dict_set :: "'k \<Rightarrow> 'v \<Rightarrow> ('k, 'v) dict \<Rightarrow> ('k, 'v) dict" where
  "dict_set k v d = AList.update k v d"

definition dict_del :: "'k \<Rightarrow> ('k, 'v) dict \<Rightarrow> ('k, 'v) dict" where
  "dict_del k d = AList.delete k d"

definition dict_get :: "('k, 'v) dict \<Rightarrow> 'k \<Rightarrow> 'v option" where
  "dict_get d k = map_of d k"

definition dict_has :: "('k, 'v) dict \<Rightarrow> 'k \<Rightarrow> bool" where
  "dict_has d k \<longleftrightarrow> dict_get d k \<noteq> None"

lemma dict_get_Nil [simp]: "dict_get [] k = None"
  by (simp add: dict_get_def)

lemma dict_get_Cons [simp]:
  "dict_get ((k', v) # d) k = (if k = k' then Some v else dict_get d k)"
  by (simp add: dict_get_def)

lemma dict_get_set [simp]:
  "dict_get (dict_set k v d) k' = (if k' = k then Some v else dict_get d k')"
  by (simp add: dict_get_def dict_set_def update_conv')

lemma dict_get_del [simp]:
  "dict_get (dict_del k d) k' = (if k' = k then None else dict_get d k')"
  by (simp add: dict_get_def dict_del_def delete_conv')

lemma wf_dict_Nil [simp]: "wf_dict []"
  by (simp add: wf_dict_def)

lemma wf_dict_set [simp, intro]: "wf_dict d \<Longrightarrow> wf_dict (dict_set k v d)"
  by (simp add: wf_dict_def dict_set_def distinct_update)

lemma wf_dict_del [simp, intro]: "wf_dict d \<Longrightarrow> wf_dict (dict_del k d)"
  by (simp add: wf_dict_def dict_del_def distinct_delete)

lemma dict_has_iff: "dict_has d k \<longleftrightarrow> k \<in> fst ` set d"
  by (simp add: dict_has_def dict_get_def map_of_eq_None_iff)

lemma dict_get_in_set: "dict_get d k = Some v \<Longrightarrow> (k, v) \<in> set d"
  by (simp add: dict_get_def map_of_SomeD)

lemma dict_get_iff: "wf_dict d \<Longrightarrow> dict_get d k = Some v \<longleftrightarrow> (k, v) \<in> set d"
  by (simp add: wf_dict_def dict_get_def)

lemma dict_keys_set: "fst ` set (dict_set k v d) = insert k (fst ` set d)"
  by (simp add: dict_set_def dom_update)

lemma dict_keys_del: "fst ` set (dict_del k d) = fst ` set d - {k}"
  by (simp add: dict_del_def delete_keys flip: set_map)

lemma dict_set_new: "dict_get d k = None \<Longrightarrow> dict_set k v d = d @ [(k, v)]"
  by (induction d) (auto simp: dict_set_def split: if_splits)

lemma dict_get_append:
  "dict_get (d @ d') k = (case dict_get d k of None \<Rightarrow> dict_get d' k | Some v \<Rightarrow> Some v)"
  by (auto simp: dict_get_def map_add_def split: option.splits)

lemma length_dict_set:
  "length (dict_set k v d) = (if dict_has d k then length d else Suc (length d))"
  by (induction d) (auto simp: dict_set_def dict_has_def)

lemma length_dict_del: "wf_dict d \<Longrightarrow> dict_has d k \<Longrightarrow> length (dict_del k d) = length d - 1"
proof (induction d)
  case Nil
  then show ?case by (simp add: dict_has_def)
next
  case (Cons p d)
  obtain k' v where p: "p = (k', v)" by (cases p)
  have gone: "k' \<notin> fst ` set d" using Cons.prems(1) p by (simp add: wf_dict_def)
  show ?case
  proof (cases "k' = k")
    case True
    then have "dict_del k d = d"
      using gone by (auto simp: dict_del_def AList.delete_eq filter_id_conv image_iff)
    then show ?thesis using True p by (simp add: dict_del_def)
  next
    case False
    then have "dict_has d k" using Cons.prems(2) p by (simp add: dict_has_def)
    moreover have "wf_dict d" using Cons.prems(1) by (simp add: wf_dict_def)
    moreover from \<open>dict_has d k\<close> have "d \<noteq> []" by (auto simp: dict_has_def)
    ultimately show ?thesis using Cons.IH False p by (simp add: dict_del_def)
  qed
qed

text \<open>Assigning every pair of a list, in order: the loops \<open>for(auto & kv : xs) d[kv.first] = kv.second\<close>.\<close>

fun dict_set_all :: "('k \<times> 'v) list \<Rightarrow> ('k, 'v) dict \<Rightarrow> ('k, 'v) dict" where
  "dict_set_all [] d = d"
| "dict_set_all ((k, v) # kvs) d = dict_set_all kvs (dict_set k v d)"

lemma wf_dict_set_all [simp, intro]: "wf_dict d \<Longrightarrow> wf_dict (dict_set_all kvs d)"
  by (induction kvs d rule: dict_set_all.induct) auto

lemma dict_get_set_all:
  "dict_get (dict_set_all kvs d) k =
     (case map_of (rev kvs) k of Some v \<Rightarrow> Some v | None \<Rightarrow> dict_get d k)"
  by (induction kvs d rule: dict_set_all.induct) (auto simp: map_add_def split: option.splits)

lemma dict_get_set_all_wf:
  "wf_dict kvs \<Longrightarrow> dict_get (dict_set_all kvs d) k =
     (case dict_get kvs k of Some v \<Rightarrow> Some v | None \<Rightarrow> dict_get d k)"
proof (induction kvs d rule: dict_set_all.induct)
  case (1 d)
  then show ?case by simp
next
  case (2 k' v kvs d)
  have "dict_get kvs k' = None" "wf_dict kvs"
    using "2.prems" by (auto simp: wf_dict_def dict_get_def map_of_eq_None_iff)
  then show ?case using "2.IH" by (auto split: option.splits)
qed

lemma dict_keys_set_all: "fst ` set (dict_set_all kvs d) = fst ` set kvs \<union> fst ` set d"
  by (induction kvs d rule: dict_set_all.induct) (auto simp: dict_keys_set)

lemma dict_set_all_append: "dict_set_all (xs @ ys) d = dict_set_all ys (dict_set_all xs d)"
  by (induction xs d rule: dict_set_all.induct) auto

lemma dict_set_all_fresh:
  "wf_dict kvs \<Longrightarrow> fst ` set kvs \<inter> fst ` set d = {} \<Longrightarrow> dict_set_all kvs d = d @ kvs"
proof (induction kvs d rule: dict_set_all.induct)
  case (1 d)
  then show ?case by simp
next
  case (2 k v kvs d)
  have "dict_get d k = None"
    using "2.prems"(2) by (auto simp: dict_get_def map_of_eq_None_iff)
  then have "dict_set k v d = d @ [(k, v)]" by (rule dict_set_new)
  moreover have "dict_set_all kvs (dict_set k v d) = dict_set k v d @ kvs"
    using "2.IH" "2.prems" by (auto simp: wf_dict_def dict_keys_set)
  ultimately show ?case by simp
qed

text \<open>Copying a dictionary entry by entry into an empty one gives the dictionary.\<close>

lemma dict_set_all_copy: "wf_dict kvs \<Longrightarrow> dict_set_all kvs [] = kvs"
  by (simp add: dict_set_all_fresh)

lemma map_of_rev_wf: "wf_dict kvs \<Longrightarrow> map_of (rev kvs) k = dict_get kvs k"
  using dict_get_set_all [of kvs "[]" k] by (simp add: dict_set_all_copy split: option.splits)

section \<open>Machine words\<close>

type_synonym u64 = "64 word"

lemma unat_mod_less: "n \<noteq> 0 \<Longrightarrow> unat (w :: u64) mod n < n"
  by simp

end
