(* ===== verification/StrUtil.thy ===== *)
theory StrUtil
  imports Prelude
begin

text \<open>
  \<open>include/utils/ext_utility.hpp\<close>: the string helpers every other part of the system uses.
  \<open>str_split\<close> (both overloads) scans for the next separator and keeps the non-empty pieces;
  \<open>str_split_by_word\<close> delegates to \<open>boost::algorithm::split_regex\<close>, which is not under
  \<open>src/\<close> and is the parameter \<open>rx\<close>; the pattern is always one of the literal words of
  \<open>paracel_types.hpp\<close>, so all the code relies on is \<open>literal_split\<close>: a pattern without
  metacharacters cuts at each leftmost occurrence. \<open>word_split\<close> is that documented behaviour.

  The lemmas: the tokens of \<open>str_split\<close> are the maximal separator-free runs, in order;
  joining and splitting are inverse exactly on tokens that do not create an earlier match
  (\<open>clean\<close>); \<open>startswith\<close> and \<open>endswith\<close> are the prefix and suffix tests.
\<close>

section \<open>str_split\<close>

text \<open>
  The loop of both overloads, on the suffix of \<open>str\<close> that starts at \<open>st\<close>: \<open>find\<close> looks for
  the first separator (\<open>p\<close> is \<open>(=) sep\<close> for the \<open>char\<close> overload and membership in \<open>seps\<close>
  for \<open>find_first_of\<close>), the piece before it is kept when it is not empty, and \<open>npos\<close> ends
  the loop.
\<close>

function str_split_loop :: "(char \<Rightarrow> bool) \<Rightarrow> string \<Rightarrow> string list" where
  "str_split_loop p str =
     (let s = takeWhile (\<lambda>c. \<not> p c) str; rest = dropWhile (\<lambda>c. \<not> p c) str;
          push = (if s \<noteq> [] then [s] else [])
      in case rest of [] \<Rightarrow> push | c # str' \<Rightarrow> push @ str_split_loop p str')"
  by pat_completeness auto
termination
proof (relation "measure (\<lambda>(p, str). length str)", goal_cases)
  case (2 p str s rest push c str')
  then have "length (c # str') \<le> length str"
    by (metis length_dropWhile_le)
  then show ?case by simp
qed simp

declare str_split_loop.simps [simp del]

definition str_split :: "string \<Rightarrow> char \<Rightarrow> string list" where
  "str_split str sep = str_split_loop (\<lambda>c. c = sep) str"

definition str_split_any :: "string \<Rightarrow> string \<Rightarrow> string list" where
  "str_split_any str seps = str_split_loop (\<lambda>c. c \<in> set seps) str"

lemma str_split_loop_end:
  "\<forall>c \<in> set str. \<not> p c \<Longrightarrow> str_split_loop p str = (if str = [] then [] else [str])"
  by (simp add: str_split_loop.simps [of p str] Let_def takeWhile_eq_all_conv [THEN iffD2]
      dropWhile_eq_Nil_conv [THEN iffD2])

lemma str_split_loop_step:
  "\<forall>c \<in> set tok. \<not> p c \<Longrightarrow> p c \<Longrightarrow>
     str_split_loop p (tok @ c # rest) = (if tok = [] then [] else [tok]) @ str_split_loop p rest"
  by (simp add: str_split_loop.simps [of p "tok @ c # rest"] Let_def)

lemma str_split_loop_Nil [simp]: "str_split_loop p [] = []"
  by (simp add: str_split_loop_end)

lemma str_split_loop_sep [simp]: "p c \<Longrightarrow> str_split_loop p (c # str) = str_split_loop p str"
  using str_split_loop_step [of "[]" p c str] by simp

text \<open>Induction along the loop: the last piece, or a piece, a separator and the rest.\<close>

lemma str_split_loop_induct [case_names last step]:
  assumes last: "\<And>str. \<forall>c \<in> set str. \<not> p c \<Longrightarrow> P str"
    and step: "\<And>tok c rest. \<forall>c \<in> set tok. \<not> p c \<Longrightarrow> p c \<Longrightarrow> P rest \<Longrightarrow> P (tok @ c # rest)"
  shows "P str"
proof (induction str rule: length_induct)
  case (1 str)
  show ?case
  proof (cases "\<exists>c \<in> set str. p c")
    case True
    then obtain tok c rest where "str = tok @ c # rest" "p c" "\<forall>x \<in> set tok. \<not> p x"
      using split_list_first_prop by metis
    then show ?thesis using 1 by (auto intro: step)
  qed (auto intro: last)
qed

text \<open>Every piece is non-empty and free of separators.\<close>

lemma str_split_loop_tokens:
  "tok \<in> set (str_split_loop p str) \<Longrightarrow> tok \<noteq> [] \<and> (\<forall>c \<in> set tok. \<not> p c)"
  by (induction str rule: str_split_loop_induct [where p = p])
    (auto simp: str_split_loop_end str_split_loop_step split: if_splits)

text \<open>No character outside the separators is lost, and their order is kept.\<close>

lemma concat_str_split_loop: "concat (str_split_loop p str) = filter (\<lambda>c. \<not> p c) str"
  by (induction str rule: str_split_loop_induct [where p = p])
    (auto simp: str_split_loop_end str_split_loop_step filter_id_conv [THEN iffD2])

lemma str_split_loop_token:
  assumes "\<forall>c \<in> set tok. \<not> p c" "tok \<noteq> []"
  shows "p c \<Longrightarrow> str_split_loop p (tok @ c # rest) = tok # str_split_loop p rest"
    and "str_split_loop p tok = [tok]"
  using assms by (simp_all add: str_split_loop_step str_split_loop_end)

section \<open>Decimal numbers\<close>

text \<open>
  \<open>std::to_string\<close> and \<open>operator<<\<close> of an unsigned integer, and \<open>std::stoull\<close> on a string of
  digits: leading white space and a sign aside, it converts the longest run of digits and
  throws \<open>std::invalid_argument\<close> when there is none.
\<close>

function to_string :: "nat \<Rightarrow> string" where
  "to_string n = (if n < 10 then [char_of (48 + n)]
     else to_string (n div 10) @ [char_of (48 + n mod 10)])"
  by pat_completeness auto
termination
  by (relation "measure id") auto

declare to_string.simps [simp del]

definition is_digit :: "char \<Rightarrow> bool" where
  "is_digit c \<longleftrightarrow> 48 \<le> (of_char c :: nat) \<and> (of_char c :: nat) \<le> 57"

definition digit_val :: "char \<Rightarrow> nat" where
  "digit_val c = of_char c - 48"

definition digits_val :: "string \<Rightarrow> nat" where
  "digits_val s = foldl (\<lambda>a c. 10 * a + digit_val c) 0 s"

lemma digit_char: "n < 10 \<Longrightarrow> is_digit (char_of (48 + n)) \<and> digit_val (char_of (48 + n)) = n"
  by (simp add: is_digit_def digit_val_def)

lemma to_string_digits: "\<forall>c \<in> set (to_string n). is_digit c"
proof (induction n rule: to_string.induct)
  case (1 n)
  then show ?case
    using digit_char [of n] digit_char [of "n mod 10"]
    by (simp add: to_string.simps [of n])
qed

lemma to_string_nonempty [simp]: "to_string n \<noteq> []"
  by (simp add: to_string.simps [of n])

lemma digits_val_to_string: "digits_val (to_string n) = n"
proof (induction n rule: to_string.induct)
  case (1 n)
  then show ?case
    using digit_char [of n] digit_char [of "n mod 10"]
    by (simp add: to_string.simps [of n] digits_val_def)
qed

lemma to_string_inject: "to_string m = to_string n \<longleftrightarrow> m = n"
  by (metis digits_val_to_string)

section \<open>str_join, startswith, endswith, todir\<close>

text \<open>
  \<open>str_join\<close> runs its loop to \<open>strlst.size() - 1\<close>, an unsigned subtraction, and reads
  \<open>strlst.back()\<close>: on the empty list the bound wraps and the first read is out of range.
\<close>

fun join_words :: "string \<Rightarrow> string list \<Rightarrow> string" where
  "join_words seps [] = []"
| "join_words seps [s] = s"
| "join_words seps (s # ss) = s @ seps @ join_words seps ss"

definition str_join :: "string list \<Rightarrow> string \<Rightarrow> string res" where
  "str_join strlst seps =
     (if strlst = [] then Inl UndefinedRead else Inr (join_words seps strlst))"

lemma join_words_Cons: "ss \<noteq> [] \<Longrightarrow> join_words seps (s # ss) = s @ seps @ join_words seps ss"
  by (cases ss) auto

text \<open>\<open>std::string::find\<close> and \<open>rfind\<close>: the first and the last position of a match.\<close>

definition str_find :: "string \<Rightarrow> string \<Rightarrow> nat option" where
  "str_find str key = List.find (\<lambda>i. prefix key (drop i str)) [0..<Suc (length str)]"

definition str_rfind :: "string \<Rightarrow> string \<Rightarrow> nat option" where
  "str_rfind str key = List.find (\<lambda>i. prefix key (drop i str)) (rev [0..<Suc (length str)])"

definition startswith :: "string \<Rightarrow> string \<Rightarrow> bool" where
  "startswith str key \<longleftrightarrow> str_find str key = Some 0"

definition endswith :: "string \<Rightarrow> string \<Rightarrow> bool" where
  "endswith str key \<longleftrightarrow>
     (if length str < length key then False
      else str_rfind str key = Some (length str - length key))"

definition todir :: "string \<Rightarrow> string" where
  "todir f = (if endswith f ''/'' then f else f @ ''/'')"

lemma startswith_prefix: "startswith str key \<longleftrightarrow> prefix key str"
proof -
  have "[0..<Suc (length str)] = 0 # [1..<Suc (length str)]"
    by (rule upt_conv_Cons [THEN trans]) simp_all
  then show ?thesis
    by (auto simp: startswith_def str_find_def find_Some_iff simp del: upt_Suc split: if_splits)
qed

lemma find_rev_upt_Some:
  "List.find P (rev [0..<n]) = Some i \<longleftrightarrow> i < n \<and> P i \<and> (\<forall>j. i < j \<and> j < n \<longrightarrow> \<not> P j)"
proof (induction n)
  case 0
  then show ?case by simp
next
  case (Suc n)
  then show ?case by (auto simp: less_Suc_eq)
qed

lemma prefix_same_length: "prefix xs ys \<Longrightarrow> length ys = length xs \<Longrightarrow> xs = ys"
  by (auto simp: prefix_def)

lemma endswith_suffix: "endswith str key \<longleftrightarrow> suffix key str"
proof
  assume "endswith str key"
  then have "length key \<le> length str" and "prefix key (drop (length str - length key) str)"
    by (auto simp: endswith_def str_rfind_def find_rev_upt_Some simp del: upt_Suc split: if_splits)
  then have "key = drop (length str - length key) str"
    by (intro prefix_same_length) simp_all
  then show "suffix key str" by (metis suffix_drop)
next
  assume "suffix key str"
  then obtain us where str: "str = us @ key" by (auto simp: suffix_def)
  have "\<not> prefix key (drop j str)" if "length us < j" "j < Suc (length str)" for j
    using that str by (auto dest!: prefix_length_le)
  then show "endswith str key"
    by (auto simp: endswith_def str_rfind_def find_rev_upt_Some str simp del: upt_Suc)
qed

lemma todir_ends: "suffix ''/'' (todir f)"
  by (simp add: todir_def endswith_suffix)

lemma todir_idem: "todir (todir f) = todir f"
  by (simp add: todir_def endswith_suffix)

section \<open>str_split_by_word\<close>

text \<open>
  Cutting at each leftmost occurrence of a literal word, what \<open>split_regex\<close> documents for a
  pattern with no metacharacters.
\<close>

function word_split :: "string \<Rightarrow> string \<Rightarrow> string list" where
  "word_split sep [] = [[]]"
| "word_split sep (c # cs) =
     (if sep \<noteq> [] \<and> prefix sep (c # cs) then [] # word_split sep (drop (length sep) (c # cs))
      else (case word_split sep cs of [] \<Rightarrow> [[c]] | t # ts \<Rightarrow> (c # t) # ts))"
  by pat_completeness auto
termination
  by (relation "measure (\<lambda>(sep, s). length s)") auto

definition literal_split :: "(string \<Rightarrow> string \<Rightarrow> string list) \<Rightarrow> string \<Rightarrow> bool" where
  "literal_split rx sep \<longleftrightarrow> (\<forall>s. rx s sep = word_split sep s)"

text \<open>\<open>result.back()\<close> is read unconditionally; a final empty piece is dropped.\<close>

definition str_split_by_word ::
  "(string \<Rightarrow> string \<Rightarrow> string list) \<Rightarrow> string \<Rightarrow> string \<Rightarrow> string list res" where
  "str_split_by_word rx str seps =
     (let result = rx str seps
      in if result = [] then Inl UndefinedRead
         else if last result = [] then Inr (butlast result) else Inr result)"

lemma word_split_nonempty [simp]: "word_split sep s \<noteq> []"
  by (cases "(sep, s)" rule: word_split.cases) (auto split: list.splits)

text \<open>
  \<open>clean sep tok\<close>: followed by \<open>sep\<close>, the token does not contain an earlier match, not even
  one that overlaps the separator behind it.
\<close>

definition clean :: "string \<Rightarrow> string \<Rightarrow> bool" where
  "clean sep tok \<longleftrightarrow> (\<forall>i < length tok. \<not> prefix sep (drop i tok @ sep))"

lemma clean_Nil [simp]: "clean sep []"
  by (simp add: clean_def)

lemma clean_Cons: "clean sep (c # tok) \<longleftrightarrow> \<not> prefix sep (c # tok @ sep) \<and> clean sep tok"
  by (auto simp: clean_def less_Suc_eq_0_disj)

lemma prefix_append_long: "length xs \<le> length ys \<Longrightarrow> prefix xs (ys @ zs) \<longleftrightarrow> prefix xs ys"
  by (auto simp: prefix_def append_eq_append_conv2)

lemma word_split_clean:
  "sep \<noteq> [] \<Longrightarrow> clean sep tok \<Longrightarrow> word_split sep (tok @ sep @ rest) = tok # word_split sep rest"
proof (induction tok)
  case Nil
  then obtain c cs where "sep = c # cs" by (cases sep) auto
  then show ?case by simp
next
  case (Cons c tok)
  have "prefix sep ((c # tok @ sep) @ rest) \<longleftrightarrow> prefix sep (c # tok @ sep)"
    by (rule prefix_append_long) simp
  then have "\<not> prefix sep (c # tok @ sep @ rest)"
    using Cons.prems(2) by (simp add: clean_Cons)
  then show ?case using Cons by (simp add: clean_Cons)
qed

lemma word_split_last: "sep \<noteq> [] \<Longrightarrow> clean sep tok \<Longrightarrow> word_split sep tok = [tok]"
proof (induction tok)
  case Nil
  then show ?case by simp
next
  case (Cons c tok)
  have "\<not> prefix sep (c # tok)"
    using Cons.prems(2) prefix_prefix [of sep "c # tok" sep] by (auto simp: clean_Cons)
  then show ?case using Cons by (simp add: clean_Cons)
qed

lemma word_split_join:
  "sep \<noteq> [] \<Longrightarrow> toks \<noteq> [] \<Longrightarrow> \<forall>t \<in> set toks. clean sep t \<Longrightarrow>
     word_split sep (join_words sep toks) = toks"
proof (induction sep toks rule: join_words.induct)
  case (2 seps s)
  then show ?case by (simp add: word_split_last)
next
  case (3 seps s v va)
  then show ?case by (simp add: word_split_clean)
qed simp

lemma str_split_by_word_join:
  assumes "literal_split rx sep" "sep \<noteq> []" "toks \<noteq> []" "\<forall>t \<in> set toks. clean sep t"
  shows "str_split_by_word rx (join_words sep toks) sep =
    Inr (if last toks = [] then butlast toks else toks)"
  using assms by (simp add: str_split_by_word_def literal_split_def word_split_join)

lemma str_split_by_word_ok:
  "literal_split rx sep \<Longrightarrow> \<exists>ws. str_split_by_word rx s sep = Inr ws"
  by (simp add: str_split_by_word_def literal_split_def Let_def)

end
