(* ===== verification/Graph.thy ===== *)
theory Graph
  imports StrUtil
begin

text \<open>
  \<open>include/graph.hpp\<close> and \<open>bag_type\<close> of \<open>include/paracel_types.hpp\<close>: the graph containers.
  \<open>undirected_graph\<close>, \<open>digraph\<close> and \<open>bigraph\<close> keep a dictionary of dictionaries of weights,
  the digraph a second one for the reversed edges; \<open>bigraph_continuous\<close> keeps a list of bags
  indexed by vertex. Weights are of any type (\<open>double\<close> in the code); counters are \<open>size_t\<close>,
  here naturals.

  \<open>ug_inv\<close> and \<open>dg_inv\<close> are the invariants: a symmetric adjacency, and a reverse adjacency
  that mirrors the adjacency, with every target a vertex.
\<close>

section \<open>Adjacency dictionaries\<close>

type_synonym ('t, 'w) adjacency = "('t, ('t, 'w) dict) dict"

text \<open>\<open>adj[v]\<close> creates an empty dictionary for a missing vertex; \<open>adj[v][w] = wgt\<close>.\<close>

definition adj_at :: "('t, 'w) adjacency \<Rightarrow> 't \<Rightarrow> ('t, 'w) dict" where
  "adj_at a v = (case dict_get a v of Some d \<Rightarrow> d | None \<Rightarrow> [])"

definition adj_touch :: "'t \<Rightarrow> ('t, 'w) adjacency \<Rightarrow> ('t, 'w) adjacency" where
  "adj_touch v a = (if dict_has a v then a else dict_set v [] a)"

definition adj_put :: "'t \<Rightarrow> 't \<Rightarrow> 'w \<Rightarrow> ('t, 'w) adjacency \<Rightarrow> ('t, 'w) adjacency" where
  "adj_put v w wgt a = dict_set v (dict_set w wgt (adj_at a v)) a"

definition wgt_of :: "('t, 'w) adjacency \<Rightarrow> 't \<Rightarrow> 't \<Rightarrow> 'w option" where
  "wgt_of a v w = dict_get (adj_at a v) w"

text \<open>The double loop of \<open>traverse\<close> and the loop over one vertex.\<close>

definition adj_traverse :: "('t \<Rightarrow> 't \<Rightarrow> 'w \<Rightarrow> 's \<Rightarrow> 's) \<Rightarrow> ('t, 'w) adjacency \<Rightarrow> 's \<Rightarrow> 's" where
  "adj_traverse func a s = fold (\<lambda>(v, d) s. fold (\<lambda>(w, x) s. func v w x s) d s) a s"

definition traverse_vertex :: "('t \<Rightarrow> 't \<Rightarrow> 'w \<Rightarrow> 's \<Rightarrow> 's) \<Rightarrow> ('t, 'w) adjacency \<Rightarrow> 't \<Rightarrow> 's \<Rightarrow> 's" where
  "traverse_vertex func a v s = fold (\<lambda>(w, x) s. func v w x s) (adj_at a v) s"

text \<open>\<open>dump2triples\<close>, \<open>vertex_bag\<close>, the counts of entries.\<close>

definition adj_triples :: "('t, 'w) adjacency \<Rightarrow> ('t \<times> 't \<times> 'w) list" where
  "adj_triples a = adj_traverse (\<lambda>v w x ts. ts @ [(v, w, x)]) a []"

definition adj_count :: "('t \<Rightarrow> 't \<Rightarrow> bool) \<Rightarrow> ('t, 'w) adjacency \<Rightarrow> nat" where
  "adj_count q a = adj_traverse (\<lambda>v w x n. if q v w then n + 1 else n) a 0"

lemma wgt_of_put [simp]:
  "wgt_of (adj_put v w x a) v' w' = (if v' = v \<and> w' = w then Some x else wgt_of a v' w')"
  by (auto simp: wgt_of_def adj_put_def adj_at_def split: option.splits)

lemma wgt_of_touch [simp]: "wgt_of (adj_touch v a) = wgt_of a"
  by (auto simp: wgt_of_def adj_touch_def adj_at_def dict_has_def fun_eq_iff split: option.splits)

lemma adj_has_put [simp]: "dict_has (adj_put v w x a) u \<longleftrightarrow> u = v \<or> dict_has a u"
  by (auto simp: adj_put_def dict_has_def)

lemma adj_has_touch [simp]: "dict_has (adj_touch v a) u \<longleftrightarrow> u = v \<or> dict_has a u"
  by (auto simp: adj_touch_def dict_has_def)

definition wf_adj :: "('t, 'w) adjacency \<Rightarrow> bool" where
  "wf_adj a \<longleftrightarrow> wf_dict a \<and> (\<forall>v d. dict_get a v = Some d \<longrightarrow> wf_dict d)"

lemma wf_adj_Nil [simp]: "wf_adj []"
  by (simp add: wf_adj_def)

lemma wf_adj_at: "wf_adj a \<Longrightarrow> wf_dict (adj_at a v)"
  by (auto simp: wf_adj_def adj_at_def split: option.splits)

lemma wf_adj_put [simp, intro]: "wf_adj a \<Longrightarrow> wf_adj (adj_put v w x a)"
  using wf_adj_at [of a v] by (auto simp: wf_adj_def adj_put_def)

lemma wf_adj_touch [simp, intro]: "wf_adj a \<Longrightarrow> wf_adj (adj_touch v a)"
  by (auto simp: wf_adj_def adj_touch_def)

text \<open>The traversals as folds over the flat list of edges.\<close>

lemma adj_traverse_triples:
  "adj_traverse func a s =
     fold (\<lambda>(v, w, x). func v w x) (concat (map (\<lambda>(v, d). map (\<lambda>(w, x). (v, w, x)) d) a)) s"
proof -
  have inner: "fold (\<lambda>(w, x). func v w x) d s = fold (\<lambda>(v, w, x). func v w x) (map (\<lambda>(w, x). (v, w, x)) d) s"
    for v d s by (induction d arbitrary: s) auto
  show ?thesis by (induction a arbitrary: s) (auto simp: adj_traverse_def inner)
qed

lemma adj_triples_concat: "adj_triples a = concat (map (\<lambda>(v, d). map (\<lambda>(w, x). (v, w, x)) d) a)"
proof -
  have "fold (\<lambda>(v, w, x) ts. ts @ [(v, w, x)]) xs ys = ys @ xs" for xs ys :: "('a \<times> 'a \<times> 'b) list"
    by (induction xs arbitrary: ys) auto
  then show ?thesis by (simp add: adj_triples_def adj_traverse_triples)
qed

lemma adj_traverse_fold: "adj_traverse func a s = fold (\<lambda>(v, w, x). func v w x) (adj_triples a) s"
  by (simp only: adj_traverse_triples adj_triples_concat)

lemma adj_count_filter: "adj_count q a = length (filter (\<lambda>(v, w, x). q v w) (adj_triples a))"
proof -
  have "fold (\<lambda>(v, w, x) n. if q v w then n + 1 else n) ts n =
      n + length (filter (\<lambda>(v, w, x). q v w) ts)" for ts :: "('a \<times> 'a \<times> 'b) list" and n
    by (induction ts arbitrary: n) auto
  then show ?thesis by (simp add: adj_count_def adj_traverse_fold)
qed

lemma adj_triples_set:
  assumes "wf_adj a"
  shows "(v, w, x) \<in> set (adj_triples a) \<longleftrightarrow> wgt_of a v w = Some x"
proof -
  have "(v, w, x) \<in> set (adj_triples a) \<longleftrightarrow> (\<exists>d. dict_get a v = Some d \<and> (w, x) \<in> set d)"
    using assms by (auto simp: adj_triples_concat wf_adj_def dict_get_iff)
  also have "\<dots> \<longleftrightarrow> wgt_of a v w = Some x"
    using assms
    by (auto simp: wgt_of_def adj_at_def wf_adj_def dict_get_iff [symmetric] split: option.splits)
  finally show ?thesis .
qed

lemma adj_triples_distinct: "wf_adj a \<Longrightarrow> distinct (map (\<lambda>(v, w, x). (v, w)) (adj_triples a))"
proof (induction a)
  case (Cons p a)
  obtain v d where p: "p = (v, d)" by (cases p)
  have wf: "wf_adj a" "wf_dict d" "v \<notin> fst ` set a"
  proof -
    have w: "wf_dict (p # a)" "\<And>u e. dict_get (p # a) u = Some e \<Longrightarrow> wf_dict e"
      using Cons.prems by (auto simp: wf_adj_def)
    then show nin: "v \<notin> fst ` set a" by (simp add: p wf_dict_def)
    show "wf_dict d" using w(2) [of v d] by (simp add: p)
    have same: "dict_get (p # a) u = dict_get a u" if "dict_get a u \<noteq> None" for u
      using that nin by (auto simp: p dict_has_iff [symmetric] dict_has_def)
    have "wf_dict a" using w(1) by (simp add: wf_dict_def)
    then show "wf_adj a" unfolding wf_adj_def using w(2) same by (metis option.distinct(1))
  qed
  have "distinct (map (\<lambda>(v, w, x). (v, w)) (map (\<lambda>(w, x). (v, w, x)) d))"
    using wf(2) by (fastforce simp: wf_dict_def distinct_map inj_on_def)
  moreover have "fst ` set (adj_triples a) \<subseteq> fst ` set a"
    by (force simp: adj_triples_concat)
  moreover have "adj_triples (p # a) = map (\<lambda>(w, x). (v, w, x)) d @ adj_triples a"
    by (simp add: adj_triples_concat p)
  moreover have "(v, w) \<notin> set (map (\<lambda>(v, w, x). (v, w)) (adj_triples a))" for w
    using calculation(2) wf(3) by (auto simp: image_iff subset_iff) (metis fst_conv)
  moreover have "p \<notin> set (map (\<lambda>(v, w, x). (v, w)) (adj_triples a))"
    if "p \<in> set (map (\<lambda>(v, w, x). (v, w)) (map (\<lambda>(w, x). (v, w, x)) d))" for p
  proof -
    have "fst p = v" using that by auto
    then show ?thesis using calculation(4) [of "snd p"] by (metis prod.collapse)
  qed
  ultimately show ?case
    using Cons.IH [OF wf(1)] by (simp only: map_append distinct_append) blast
qed (simp add: adj_triples_concat)

text \<open>Counting: with well-formed dictionaries a count of edges is a cardinality.\<close>

lemma adj_count_card:
  assumes "wf_adj a"
  shows "adj_count q a = card {(v, w). q v w \<and> wgt_of a v w \<noteq> None}"
proof -
  let ?ts = "filter (\<lambda>(v, w, x). q v w) (adj_triples a)"
  have "distinct (map (\<lambda>(v, w, x). (v, w)) ?ts)"
    using adj_triples_distinct [OF assms] by (auto simp: distinct_map inj_on_def)
  then have "length ?ts = card (set (map (\<lambda>(v, w, x). (v, w)) ?ts))"
    by (metis distinct_card length_map)
  also have "set (map (\<lambda>(v, w, x). (v, w)) ?ts) = {(v, w). q v w \<and> wgt_of a v w \<noteq> None}"
    using adj_triples_set [OF assms] by (force simp: image_iff)
  finally show ?thesis by (simp add: adj_count_filter)
qed

section \<open>undirected_graph\<close>

record ('t, 'w) graph =
  v_sz :: nat
  e_sz :: nat
  adj :: "('t, 'w) adjacency"

definition empty_graph :: "('t, 'w) graph" where
  "empty_graph = \<lparr>v_sz = 0, e_sz = 0, adj = []\<rparr>"

definition ug_add_edge :: "'t \<Rightarrow> 't \<Rightarrow> 'w \<Rightarrow> ('t, 'w) graph \<Rightarrow> ('t, 'w) graph" where
  "ug_add_edge v w wgt g =
     (let a = adj_put w v wgt (adj_put v w wgt (adj g))
      in g\<lparr>adj := a, e_sz := e_sz g + 1, v_sz := length a\<rparr>)"

text \<open>The three constructors: from a dictionary, pairs (weight one) and triples.\<close>

definition ug_of_triples :: "('t \<times> 't \<times> 'w) list \<Rightarrow> ('t, 'w) graph" where
  "ug_of_triples tpls = fold (\<lambda>(v, w, x). ug_add_edge v w x) tpls empty_graph"

definition ug_of_tuples :: "('t \<times> 't) list \<Rightarrow> ('t, 'w :: one) graph" where
  "ug_of_tuples tpls = fold (\<lambda>(v, w). ug_add_edge v w 1) tpls empty_graph"

definition ug_of_dict :: "('t, 'w) adjacency \<Rightarrow> ('t, 'w) graph" where
  "ug_of_dict d = adj_traverse ug_add_edge d empty_graph"

definition ug_adjacent :: "('t, 'w) graph \<Rightarrow> 't \<Rightarrow> ('t, 'w) dict" where
  "ug_adjacent g v = (case dict_get (adj g) v of Some d \<Rightarrow> d | None \<Rightarrow> [])"

definition ug_degree :: "('t, 'w) graph \<Rightarrow> 't \<Rightarrow> nat" where
  "ug_degree g v = (case dict_get (adj g) v of Some d \<Rightarrow> length d | None \<Rightarrow> 0)"

definition ug_max_degree :: "('t, 'w) graph \<Rightarrow> nat" where
  "ug_max_degree g = fold (\<lambda>(v, _) m. if m < ug_degree g v then ug_degree g v else m) (adj g) 0"

definition vertex_bag :: "('t, 'w) graph \<Rightarrow> 't list" where
  "vertex_bag g = map fst (adj g)"

definition ug_selfloops :: "('t, 'w) graph \<Rightarrow> nat" where
  "ug_selfloops g = adj_count (=) (adj g) div 2"

text \<open>The invariant: a symmetric adjacency with one entry per vertex.\<close>

definition ug_inv :: "('t, 'w) graph \<Rightarrow> bool" where
  "ug_inv g \<longleftrightarrow> wf_adj (adj g) \<and> v_sz g = length (adj g) \<and>
     (\<forall>v w. wgt_of (adj g) v w = wgt_of (adj g) w v) \<and>
     (\<forall>v w. wgt_of (adj g) v w \<noteq> None \<longrightarrow> dict_has (adj g) w)"

lemma ug_inv_empty: "ug_inv empty_graph"
  by (simp add: ug_inv_def empty_graph_def wgt_of_def adj_at_def)

lemma ug_add_edge_sel:
  "adj (ug_add_edge v w x g) = adj_put w v x (adj_put v w x (adj g))"
  "e_sz (ug_add_edge v w x g) = Suc (e_sz g)"
  "v_sz (ug_add_edge v w x g) = length (adj (ug_add_edge v w x g))"
  by (simp_all add: ug_add_edge_def Let_def)

lemma if_or: "(if p then x else if q then x else y) = (if q \<or> p then x else y)"
  by simp

lemma ug_inv_add_edge:
  assumes "ug_inv g"
  shows "ug_inv (ug_add_edge v w x g)"
proof -
  let ?a = "adj (ug_add_edge v w x g)"
  have g: "wf_adj (adj g)" "\<And>a b. wgt_of (adj g) a b = wgt_of (adj g) b a"
    "\<And>a b. wgt_of (adj g) a b \<noteq> None \<Longrightarrow> dict_has (adj g) b"
    using assms unfolding ug_inv_def by blast+
  show ?thesis
    unfolding ug_inv_def
  proof (intro conjI allI impI)
    show "wf_adj ?a" using g(1) by (simp add: ug_add_edge_sel(1))
    show "v_sz (ug_add_edge v w x g) = length ?a" by (rule ug_add_edge_sel(3))
    have put: "wgt_of ?a a b =
        (if a = v \<and> b = w \<or> a = w \<and> b = v then Some x else wgt_of (adj g) a b)" for a b
      unfolding ug_add_edge_sel(1) wgt_of_put by (rule if_or)
    show "wgt_of ?a a b = wgt_of ?a b a" for a b
    proof (cases "a = v \<and> b = w \<or> a = w \<and> b = v")
      case True
      then have "b = v \<and> a = w \<or> b = w \<and> a = v" by blast
      then show ?thesis using True by (simp only: put if_True)
    next
      case False
      then have "\<not> (b = v \<and> a = w \<or> b = w \<and> a = v)" by blast
      then show ?thesis using False by (simp only: put if_False g(2) [of a b])
    qed
    show "dict_has ?a b" if "wgt_of ?a a b \<noteq> None" for a b
      using that g(3) [of a b] by (auto simp: ug_add_edge_sel split: if_splits)
  qed
qed

lemma ug_wgt_add_edge:
  "wgt_of (adj (ug_add_edge v w x g)) a b =
     (if a = v \<and> b = w \<or> a = w \<and> b = v then Some x else wgt_of (adj g) a b)"
  unfolding ug_add_edge_sel(1) wgt_of_put by (rule if_or)

text \<open>The weight of an edge is the last one given for it, in either direction.\<close>

definition last_wgt :: "'t \<Rightarrow> 't \<Rightarrow> ('t \<times> 't \<times> 'w) list \<Rightarrow> 'w option \<Rightarrow> 'w option" where
  "last_wgt v w tpls r =
     fold (\<lambda>(a, b, x) r. if v = a \<and> w = b \<or> v = b \<and> w = a then Some x else r) tpls r"

lemma last_wgt_None:
  "last_wgt v w tpls r = None \<longleftrightarrow> r = None \<and> (\<forall>x. (v, w, x) \<notin> set tpls \<and> (w, v, x) \<notin> set tpls)"
  unfolding last_wgt_def by (induction tpls arbitrary: r) (auto split: if_splits)

lemma ug_of_triples_fold:
  "ug_inv g \<Longrightarrow> ug_inv (fold (\<lambda>(v, w, x). ug_add_edge v w x) tpls g)"
  "e_sz (fold (\<lambda>(v, w, x). ug_add_edge v w x) tpls g) = e_sz g + length tpls"
  "fst ` set (adj (fold (\<lambda>(v, w, x). ug_add_edge v w x) tpls g)) =
     fst ` set (adj g) \<union> (\<Union>(a, b, x) \<in> set tpls. {a, b})"
  "wgt_of (adj (fold (\<lambda>(v, w, x). ug_add_edge v w x) tpls g)) v w =
     last_wgt v w tpls (wgt_of (adj g) v w)"
proof (induction tpls arbitrary: g)
  case Nil
  {
    case 1
    then show ?case by simp
  next
    case 2
    then show ?case by simp
  next
    case 3
    then show ?case by simp
  next
    case 4
    then show ?case by (simp add: last_wgt_def)
  }
next
  case (Cons t tpls)
  obtain a b x where t: "t = (a, b, x)" by (cases t)
  {
    case 1
    then show ?case using Cons.IH(1) [OF ug_inv_add_edge, of g a b x] by (simp add: t)
  next
    case 2
    then show ?case by (simp add: t Cons.IH(2) ug_add_edge_sel(2))
  next
    case 3
    have "fst ` set (adj (ug_add_edge a b x g)) = fst ` set (adj g) \<union> {a, b}"
      by (auto simp: ug_add_edge_sel(1) adj_put_def dict_keys_set)
    then show ?case by (simp add: t Cons.IH(3) Un_assoc)
  next
    case 4
    show ?case by (simp only: t fold_simps prod.case comp_apply Cons.IH(4) ug_wgt_add_edge last_wgt_def)
  }
qed

section \<open>digraph\<close>

record ('t, 'w) digraph = "('t, 'w) graph" +
  reverse_adj :: "('t, 'w) adjacency"

definition empty_digraph :: "('t, 'w) digraph" where
  "empty_digraph = \<lparr>v_sz = 0, e_sz = 0, adj = [], reverse_adj = []\<rparr>"

definition dg_add_edge :: "'t \<Rightarrow> 't \<Rightarrow> 'w \<Rightarrow> ('t, 'w) digraph \<Rightarrow> ('t, 'w) digraph" where
  "dg_add_edge v w wgt g =
     (let a = adj_touch w (adj_put v w wgt (adj g))
      in g\<lparr>adj := a, reverse_adj := adj_put w v wgt (reverse_adj g), e_sz := e_sz g + 1,
           v_sz := length a\<rparr>)"

definition dg_of_triples :: "('t \<times> 't \<times> 'w) list \<Rightarrow> ('t, 'w) digraph" where
  "dg_of_triples tpls = fold (\<lambda>(v, w, x). dg_add_edge v w x) tpls empty_digraph"

definition dg_of_dict :: "('t, 'w) adjacency \<Rightarrow> ('t, 'w) digraph" where
  "dg_of_dict d = adj_traverse dg_add_edge d empty_digraph"

definition dg_reverse :: "('t, 'w) digraph \<Rightarrow> ('t, 'w) digraph" where
  "dg_reverse g = g\<lparr>adj := reverse_adj g, reverse_adj := adj g\<rparr>"

text \<open>\<open>adj[v]\<close> in these readers creates an empty entry for a vertex that is not there.\<close>

definition dg_adjacent :: "('t, 'w) digraph \<Rightarrow> 't \<Rightarrow> ('t, 'w) dict \<times> ('t, 'w) digraph" where
  "dg_adjacent g v = (adj_at (adj g) v, g\<lparr>adj := adj_touch v (adj g)\<rparr>)"

definition dg_reverse_adjacent :: "('t, 'w) digraph \<Rightarrow> 't \<Rightarrow> ('t, 'w) dict \<times> ('t, 'w) digraph" where
  "dg_reverse_adjacent g v = (adj_at (reverse_adj g) v, g\<lparr>reverse_adj := adj_touch v (reverse_adj g)\<rparr>)"

definition dg_outdegree :: "('t, 'w) digraph \<Rightarrow> 't \<Rightarrow> nat \<times> ('t, 'w) digraph" where
  "dg_outdegree g v = (length (adj_at (adj g) v), g\<lparr>adj := adj_touch v (adj g)\<rparr>)"

definition dg_indegree :: "('t, 'w) digraph \<Rightarrow> 't \<Rightarrow> nat" where
  "dg_indegree g vertex = adj_count (\<lambda>_ w. vertex = w) (adj g)"

text \<open>An integer division, converted to \<open>double\<close> afterwards.\<close>

definition dg_avg_degree :: "('t, 'w) digraph \<Rightarrow> nat res" where
  "dg_avg_degree g = (if v_sz g = 0 then Inl DivByZero else Inr (e_sz g div v_sz g))"

definition dg_selfloops :: "('t, 'w) digraph \<Rightarrow> nat" where
  "dg_selfloops g = adj_count (=) (adj g)"

definition dg_dump2triples :: "('t, 'w) digraph \<Rightarrow> ('t \<times> 't \<times> 'w) list" where
  "dg_dump2triples g = adj_triples (adj g)"

definition dg_dump2dict :: "('t, 'w) digraph \<Rightarrow> ('t, 'w) adjacency \<Rightarrow> ('t, 'w) adjacency" where
  "dg_dump2dict g d = adj_traverse (\<lambda>v w x. adj_put v w x) (adj g) d"

definition dg_inv :: "('t, 'w) digraph \<Rightarrow> bool" where
  "dg_inv g \<longleftrightarrow> wf_adj (adj g) \<and> wf_adj (reverse_adj g) \<and> v_sz g = length (adj g) \<and>
     (\<forall>v w. wgt_of (reverse_adj g) w v = wgt_of (adj g) v w) \<and>
     (\<forall>v w. wgt_of (adj g) v w \<noteq> None \<longrightarrow> dict_has (adj g) v \<and> dict_has (adj g) w)"

lemma dg_inv_empty: "dg_inv empty_digraph"
  by (simp add: dg_inv_def empty_digraph_def wgt_of_def adj_at_def)

lemma dg_inv_add_edge: "dg_inv g \<Longrightarrow> dg_inv (dg_add_edge v w x g)"
  by (auto simp: dg_inv_def dg_add_edge_def Let_def)

lemma dg_inv_of_triples: "dg_inv (dg_of_triples tpls)"
proof -
  have "dg_inv g \<Longrightarrow> dg_inv (fold (\<lambda>(v, w, x). dg_add_edge v w x) tpls g)"
    for g :: "('a, 'b) digraph"
    by (induction tpls arbitrary: g) (auto intro: dg_inv_add_edge)
  then show ?thesis by (simp add: dg_of_triples_def dg_inv_empty)
qed

lemma dg_of_triples_edges:
  "(wgt_of (adj (dg_of_triples tpls)) v w \<noteq> None) = (\<exists>x. (v, w, x) \<in> set tpls)"
proof -
  have "(wgt_of (adj (fold (\<lambda>(v, w, x). dg_add_edge v w x) tpls g)) v w \<noteq> None) =
      (wgt_of (adj g) v w \<noteq> None \<or> (\<exists>x. (v, w, x) \<in> set tpls))" for g :: "('b, 'a) digraph"
    by (induction tpls arbitrary: g) (auto simp: dg_add_edge_def Let_def split: if_splits)
  then show ?thesis
    by (simp add: dg_of_triples_def empty_digraph_def wgt_of_def adj_at_def)
qed

section \<open>bigraph\<close>

text \<open>A \<open>bigraph\<close> keeps the left vertices only; it shares the \<open>graph\<close> record.\<close>

definition bg_add_edge :: "'t \<Rightarrow> 't \<Rightarrow> 'w \<Rightarrow> ('t, 'w) graph \<Rightarrow> ('t, 'w) graph" where
  "bg_add_edge v w wgt g =
     (let a = adj_put v w wgt (adj g) in g\<lparr>adj := a, v_sz := length a, e_sz := e_sz g + 1\<rparr>)"

definition bg_of_triples :: "('t \<times> 't \<times> 'w) list \<Rightarrow> ('t, 'w) graph" where
  "bg_of_triples tpls = fold (\<lambda>(v, w, x). bg_add_edge v w x) tpls empty_graph"

definition bg_of_dict :: "('t, 'w) adjacency \<Rightarrow> ('t, 'w) graph" where
  "bg_of_dict d = adj_traverse bg_add_edge d empty_graph"

definition bg_reset :: "('t, 'w) graph \<Rightarrow> ('t, 'w) graph" where
  "bg_reset g = g\<lparr>v_sz := 0, e_sz := 0, adj := []\<rparr>"

definition bg_is_connected :: "('t, 'w) graph \<Rightarrow> 't \<Rightarrow> 't \<Rightarrow> bool \<times> ('t, 'w) graph" where
  "bg_is_connected g a b = (dict_has (adj_at (adj g) a) b, g\<lparr>adj := adj_touch a (adj g)\<rparr>)"

text \<open>\<open>adj[a][b]\<close> creates an entry of weight \<open>double()\<close> when there is none.\<close>

definition bg_get_wgt :: "('t, 'w :: zero) graph \<Rightarrow> 't \<Rightarrow> 't \<Rightarrow> 'w \<times> ('t, 'w) graph" where
  "bg_get_wgt g a b =
     (case dict_get (adj_at (adj g) a) b of
        Some x \<Rightarrow> (x, g)
      | None \<Rightarrow> (0, g\<lparr>adj := adj_put a b 0 (adj g)\<rparr>))"

definition bg_adjacent :: "('t, 'w) graph \<Rightarrow> 't \<Rightarrow> ('t, 'w) dict \<times> ('t, 'w) graph" where
  "bg_adjacent g v = (adj_at (adj g) v, g\<lparr>adj := adj_touch v (adj g)\<rparr>)"

definition bg_indegree :: "('t, 'w) graph \<Rightarrow> 't \<Rightarrow> nat" where
  "bg_indegree g vertex = adj_count (\<lambda>_ w. vertex = w) (adj g)"

section \<open>bag_type and bigraph_continuous\<close>

text \<open>A bag is its vector \<open>c\<close>; \<open>put\<close> appends, and the assignment operator appends as well.\<close>

definition bag_put :: "'a \<Rightarrow> 'a list \<Rightarrow> 'a list" where
  "bag_put item c = c @ [item]"

definition bag_assign :: "'a list \<Rightarrow> 'a list \<Rightarrow> 'a list" where
  "bag_assign bag c = c @ bag"

definition bag_traverse :: "('a \<Rightarrow> 's \<Rightarrow> 's) \<Rightarrow> 'a list \<Rightarrow> 's \<Rightarrow> 's" where
  "bag_traverse func c s = fold func c s"

record 'w cgraph =
  cv_sz :: nat
  ce_sz :: nat
  cadj :: "(nat \<times> 'w) list list"

definition new_cgraph :: "nat \<Rightarrow> 'w cgraph" where
  "new_cgraph n = \<lparr>cv_sz = n, ce_sz = 0, cadj = replicate n []\<rparr>"

definition cg_add_edge :: "nat \<Rightarrow> nat \<Rightarrow> 'w \<Rightarrow> 'w cgraph \<Rightarrow> 'w cgraph" where
  "cg_add_edge src dst rating g =
     (let a = (if length (cadj g) \<le> src then resize_list (src + 1) [] (cadj g) else cadj g)
      in g\<lparr>cadj := a[src := bag_put (dst, rating) (a ! src)], ce_sz := ce_sz g + 1\<rparr>)"

definition cg_resize :: "nat \<Rightarrow> 'w cgraph \<Rightarrow> 'w cgraph" where
  "cg_resize n g = g\<lparr>cv_sz := n, cadj := resize_list n [] (cadj g), ce_sz := 0\<rparr>"

text \<open>\<open>v()\<close> refreshes the counter from the vector before it answers.\<close>

definition cg_v :: "'w cgraph \<Rightarrow> nat \<times> 'w cgraph" where
  "cg_v g = (length (cadj g), g\<lparr>cv_sz := length (cadj g)\<rparr>)"

definition cg_adjacent :: "'w cgraph \<Rightarrow> nat \<Rightarrow> (nat \<times> 'w) list res" where
  "cg_adjacent g v = nth_res (cadj g) v"

definition cg_outdegree :: "'w cgraph \<Rightarrow> nat \<Rightarrow> nat res" where
  "cg_outdegree g v = rbind (nth_res (cadj g) v) (\<lambda>b. Inr (length b))"

definition cg_indegree :: "'w cgraph \<Rightarrow> nat \<Rightarrow> nat" where
  "cg_indegree g v = fold (\<lambda>bag n. fold (\<lambda>item n. if fst item = v then n + 1 else n) bag n) (cadj g) 0"

definition cg_traverse :: "(nat \<Rightarrow> nat \<Rightarrow> 'w \<Rightarrow> 's \<Rightarrow> 's) \<Rightarrow> 'w cgraph \<Rightarrow> 's \<Rightarrow> 's" where
  "cg_traverse func g s =
     fold (\<lambda>i s. fold (\<lambda>(w, x) s. func i w x s) (cadj g ! i) s) [0..<fst (cg_v g)] s"

text \<open>What the bag of a vertex holds after an insertion, vertices beyond the end included.\<close>

definition cbag :: "'w cgraph \<Rightarrow> nat \<Rightarrow> (nat \<times> 'w) list" where
  "cbag g v = (if v < length (cadj g) then cadj g ! v else [])"

lemma cg_add_edge_bag:
  "cbag (cg_add_edge src dst x g) v = (if v = src then cbag g v @ [(dst, x)] else cbag g v)"
  "length (cadj (cg_add_edge src dst x g)) = max (length (cadj g)) (Suc src)"
  by (auto simp: cbag_def cg_add_edge_def Let_def bag_put_def nth_list_update nth_resize_list)

lemma cg_indegree_count:
  "cg_indegree g v = sum_list (map (\<lambda>bag. length (filter (\<lambda>(w, x). w = v) bag)) (cadj g))"
proof -
  have inner: "fold (\<lambda>item n. if fst item = v then n + 1 else n) bag n =
      n + length (filter (\<lambda>(w, x). w = v) bag)" for bag :: "(nat \<times> 'a) list" and n
    by (induction bag arbitrary: n) auto
  have "fold (\<lambda>bag n. fold (\<lambda>item n. if fst item = v then n + 1 else n) bag n) bags n =
      n + sum_list (map (\<lambda>bag. length (filter (\<lambda>(w, x). w = v) bag)) bags)"
    for bags :: "(nat \<times> 'a) list list" and n
    by (induction bags arbitrary: n) (auto simp: inner)
  then show ?thesis by (simp add: cg_indegree_def)
qed

lemma cg_indegree_add_edge:
  "cg_indegree (cg_add_edge src dst x g) w = cg_indegree g w + (if w = dst then 1 else 0)"
proof -
  let ?f = "\<lambda>bag :: (nat \<times> 'a) list. length (filter (\<lambda>(u, x). u = w) bag)"
  define a where "a = (if length (cadj g) \<le> src then resize_list (src + 1) [] (cadj g) else cadj g)"
  have src: "src < length a" by (simp add: a_def)
  have "sum_list (map ?f a) = sum_list (map ?f (cadj g))"
    by (simp add: a_def resize_list_def sum_list_replicate)
  moreover have "sum_list (map ?f (a[src := bag_put (dst, x) (a ! src)])) =
      sum_list (map ?f a) + (if w = dst then 1 else 0)"
    using src elem_le_sum_list [of src "map ?f a"]
    by (simp add: map_update sum_list_update bag_put_def)
  ultimately show ?thesis
    by (simp add: cg_indegree_count cg_add_edge_def Let_def a_def [symmetric])
qed

section \<open>Properties\<close>

text \<open>
  An undirected graph built from triples is symmetric; the weight of an edge is the
  last one given for it in either direction, its vertices are exactly the end points, each
  once, and \<open>v()\<close> counts them. \<open>e()\<close> counts the triples, repeated edges included.
\<close>

theorem ug_of_triples_correct:
  "wgt_of (adj (ug_of_triples tpls)) v w = last_wgt v w tpls None \<and>
   wgt_of (adj (ug_of_triples tpls)) v w = wgt_of (adj (ug_of_triples tpls)) w v \<and>
   distinct (vertex_bag (ug_of_triples tpls)) \<and>
   set (vertex_bag (ug_of_triples tpls)) = (\<Union>(a, b, x) \<in> set tpls. {a, b}) \<and>
   v_sz (ug_of_triples tpls) = card (\<Union>(a, b, x) \<in> set tpls. {a, b}) \<and>
   e_sz (ug_of_triples tpls) = length tpls"
proof -
  let ?g = "ug_of_triples tpls"
  have inv: "ug_inv ?g" unfolding ug_of_triples_def by (rule ug_of_triples_fold(1) [OF ug_inv_empty])
  then have d: "distinct (vertex_bag ?g)" "v_sz ?g = length (vertex_bag ?g)"
    unfolding ug_inv_def wf_adj_def wf_dict_def vertex_bag_def by simp_all
  have s: "set (vertex_bag ?g) = (\<Union>(a, b, x) \<in> set tpls. {a, b})"
    using ug_of_triples_fold(3) [of tpls empty_graph]
    by (simp add: ug_of_triples_def vertex_bag_def empty_graph_def)
  have w: "wgt_of (adj ?g) v w = last_wgt v w tpls None"
    using ug_of_triples_fold(4) [of tpls empty_graph v w]
    by (simp add: ug_of_triples_def empty_graph_def wgt_of_def adj_at_def)
  have "wgt_of (adj ?g) v w = wgt_of (adj ?g) w v" using inv unfolding ug_inv_def by blast
  moreover have "e_sz ?g = length tpls"
    using ug_of_triples_fold(2) [of tpls empty_graph] by (simp add: ug_of_triples_def empty_graph_def)
  moreover have "v_sz ?g = card (\<Union>(a, b, x) \<in> set tpls. {a, b})"
    using d s distinct_card [OF d(1)] by simp
  ultimately show ?thesis using w d s by blast
qed

text \<open>
  \<open>selfloops\<close> of an undirected graph counts each loop once (the two assignments of
  \<open>add_edge\<close> hit the same entry) and then halves, so it reports half the loops, rounded down:
  none for a graph with one.
\<close>

theorem ug_selfloops_halves:
  "ug_selfloops (ug_of_triples tpls) = card {v. \<exists>x. (v, v, x) \<in> set tpls} div 2"
proof -
  let ?g = "ug_of_triples tpls"
  have "wgt_of (adj ?g) v w = last_wgt v w tpls None" for v w
    using ug_of_triples_fold(4) [of tpls empty_graph v w]
    by (simp add: ug_of_triples_def empty_graph_def wgt_of_def adj_at_def)
  then have "{(v, w). v = w \<and> wgt_of (adj ?g) v w \<noteq> None} = (\<lambda>v. (v, v)) ` {v. \<exists>x. (v, v, x) \<in> set tpls}"
    by (auto simp: last_wgt_None)
  moreover have "wf_adj (adj ?g)"
    using ug_of_triples_fold(1) [OF ug_inv_empty, of tpls] unfolding ug_of_triples_def ug_inv_def by blast
  ultimately have "adj_count (=) (adj ?g) = card {v. \<exists>x. (v, v, x) \<in> set tpls}"
    by (simp add: adj_count_card card_image inj_on_def)
  then show ?thesis by (simp add: ug_selfloops_def)
qed

text \<open>
  A digraph built from triples has exactly the edges of the triples, the reverse
  adjacency mirrors the adjacency, every end point of an edge is a vertex, the in-degree of a
  vertex is the number of its entries in the reverse adjacency, and the number of triples
  dumped is the number of distinct edges.
\<close>

theorem dg_of_triples_correct:
  "{(a, b). wgt_of (adj (dg_of_triples tpls)) a b \<noteq> None} = {(a, b). \<exists>x. (a, b, x) \<in> set tpls} \<and>
   wgt_of (reverse_adj (dg_of_triples tpls)) w v = wgt_of (adj (dg_of_triples tpls)) v w \<and>
   {(a, b). wgt_of (adj (dg_of_triples tpls)) a b \<noteq> None} \<subseteq>
     set (map fst (adj (dg_of_triples tpls))) \<times> set (map fst (adj (dg_of_triples tpls))) \<and>
   dg_indegree (dg_of_triples tpls) w = length (adj_at (reverse_adj (dg_of_triples tpls)) w) \<and>
   length (dg_dump2triples (dg_of_triples tpls)) = card {(a, b). \<exists>x. (a, b, x) \<in> set tpls}"
proof -
  let ?g = "dg_of_triples tpls"
  have inv: "wf_adj (adj ?g)" "wf_adj (reverse_adj ?g)"
    "\<And>v w. wgt_of (reverse_adj ?g) w v = wgt_of (adj ?g) v w"
    "\<And>v w. wgt_of (adj ?g) v w \<noteq> None \<Longrightarrow> dict_has (adj ?g) v \<and> dict_has (adj ?g) w"
    using dg_inv_of_triples [of tpls] unfolding dg_inv_def by blast+
  have "dg_indegree ?g w = card ((\<lambda>v. (v, w)) ` {v. wgt_of (adj ?g) v w \<noteq> None})"
    by (auto simp: dg_indegree_def adj_count_card [OF inv(1)] intro!: arg_cong [where f = card])
  also have "\<dots> = card {v. wgt_of (adj ?g) v w \<noteq> None}"
    by (simp add: card_image inj_on_def)
  also have "\<dots> = card {v. wgt_of (reverse_adj ?g) w v \<noteq> None}" by (simp only: inv(3))
  also have "\<dots> = card {v. dict_has (adj_at (reverse_adj ?g) w) v}"
    by (simp only: wgt_of_def dict_has_def)
  also have "\<dots> = length (adj_at (reverse_adj ?g) w)"
    using wf_adj_at [OF inv(2), of w] distinct_card [of "map fst (adj_at (reverse_adj ?g) w)"]
    by (simp add: wf_dict_def dict_has_iff)
  finally have "dg_indegree ?g w = length (adj_at (reverse_adj ?g) w)" .
  moreover have edges: "{(a, b). wgt_of (adj ?g) a b \<noteq> None} = {(a, b). \<exists>x. (a, b, x) \<in> set tpls}"
    by (simp only: dg_of_triples_edges)
  moreover have "length (dg_dump2triples ?g) = adj_count (\<lambda>_ _. True) (adj ?g)"
    by (simp add: adj_count_filter dg_dump2triples_def split_def)
  then have "length (dg_dump2triples ?g) = card {(a, b). \<exists>x. (a, b, x) \<in> set tpls}"
    using edges by (simp add: adj_count_card [OF inv(1)])
  moreover have "{(a, b). wgt_of (adj ?g) a b \<noteq> None} \<subseteq> set (map fst (adj ?g)) \<times> set (map fst (adj ?g))"
    using inv(4) unfolding dict_has_iff by auto
  moreover have "wgt_of (reverse_adj ?g) w v = wgt_of (adj ?g) v w" by (rule inv(3))
  ultimately show ?thesis by (intro conjI)
qed

text \<open>
  \<open>reverse\<close> only swaps the two dictionaries. The reverse adjacency has entries for
  edge targets alone, so after a reversal a vertex without incoming edges is gone from the
  adjacency, while the vertex count still includes it.
\<close>

theorem dg_reverse_loses_sources:
  assumes "v \<noteq> w"
  shows "map fst (adj (dg_of_triples [(v, w, x)])) = [v, w] \<and>
    map fst (adj (dg_reverse (dg_of_triples [(v, w, x)]))) = [w] \<and>
    v_sz (dg_reverse (dg_of_triples [(v, w, x)])) = 2"
  using assms
  by (simp add: dg_of_triples_def dg_reverse_def dg_add_edge_def empty_digraph_def adj_put_def
      adj_touch_def adj_at_def Let_def dict_set_def dict_has_def)

theorem dg_reverse_loses_sources_witness:
  "map fst (adj (dg_reverse (dg_of_triples [(''a'', ''b'', 1 :: int)]))) = [''b'']"
  using dg_reverse_loses_sources [of "''a''" "''b''" "1 :: int"] by simp

text \<open>
  In a graph with continuous indices an insertion appends to the bag of its source
  (growing the vector when the source is beyond its end) and leaves every other bag; the
  in-degree of the target grows by one and no other does.
\<close>

theorem cg_add_edge_correct:
  "cbag (cg_add_edge src dst x g) v = (if v = src then cbag g v @ [(dst, x)] else cbag g v) \<and>
   fst (cg_v (cg_add_edge src dst x g)) = max (fst (cg_v g)) (src + 1) \<and>
   cg_indegree (cg_add_edge src dst x g) w = cg_indegree g w + (if w = dst then 1 else 0)"
  using cg_add_edge_bag [of src dst x g] cg_indegree_add_edge [of src dst x g w]
  by (simp add: cg_v_def)

end
