(* ===== verification/Search.thy ===== *)
theory Search
  imports Graph
begin

text \<open>
  The searches of \<open>include/graph.hpp\<close>: \<open>DFS\<close>, \<open>BFS\<close> and \<open>connected_components\<close>, over any
  graph class that has \<open>adjacent\<close> (here \<open>nbrs\<close>, the keys of the dictionary it returns, in the
  order of iteration). The state of the callback is threaded through. The recursion of \<open>dfs\<close>
  and the loop of \<open>bfs\<close> take fuel; as many units as there are vertices are enough.

  The locale \<open>finite_graph\<close> is what the searches rely on, \<open>symmetric_graph\<close> what the
  components need on top; both are interpreted on the graphs of \<open>Graph\<close>.
\<close>

section \<open>DFS\<close>

text \<open>\<open>dfs\<close> and the loop over the adjacent vertices inside it, on the marked vertices and the
  state of the callback.\<close>

function (sequential) dfs :: "('t \<Rightarrow> 't list) \<Rightarrow> ('t \<Rightarrow> 's \<Rightarrow> 's) \<Rightarrow> nat \<Rightarrow> 't \<Rightarrow> 't list \<times> 's \<Rightarrow> ('t list \<times> 's) res"
  and dfs_loop :: "('t \<Rightarrow> 't list) \<Rightarrow> ('t \<Rightarrow> 's \<Rightarrow> 's) \<Rightarrow> nat \<Rightarrow> 't list \<Rightarrow> 't list \<times> 's \<Rightarrow> ('t list \<times> 's) res"
where
  "dfs nbrs func 0 v st = Inl NoProgress"
| "dfs nbrs func (Suc fuel) v st =
     dfs_loop nbrs func fuel (nbrs v) (List.insert v (fst st), func v (snd st))"
| "dfs_loop nbrs func fuel [] st = Inr st"
| "dfs_loop nbrs func fuel (w # ws) st =
     (if w \<in> set (fst st) then dfs_loop nbrs func fuel ws st
      else rbind (dfs nbrs func fuel w st) (dfs_loop nbrs func fuel ws))"
  by pat_completeness auto
termination
  by (relation "measures
      [\<lambda>x. case x of Inl (nbrs, func, fuel, v, st) \<Rightarrow> fuel | Inr (nbrs, func, fuel, ws, st) \<Rightarrow> fuel,
       \<lambda>x. case x of Inl _ \<Rightarrow> 0 | Inr (nbrs, func, fuel, ws, st) \<Rightarrow> Suc (length ws)]") auto

text \<open>The constructor \<open>DFS(graph, src, lambda)\<close>.\<close>

definition DFS :: "('t \<Rightarrow> 't list) \<Rightarrow> ('t \<Rightarrow> 's \<Rightarrow> 's) \<Rightarrow> nat \<Rightarrow> 't \<Rightarrow> 's \<Rightarrow> ('t list \<times> 's) res" where
  "DFS nbrs func fuel src s = dfs nbrs func fuel src ([], s)"

section \<open>BFS\<close>

record 't bfs_state =
  bfs_q :: "'t list"
  bfs_marked :: "'t list"
  bfs_edge_to :: "('t, 't) dict"
  bfs_dist_to :: "('t, nat) dict"

text \<open>The loop over the vertices adjacent to \<open>node\<close>.\<close>

fun bfs_expand :: "('t \<Rightarrow> 's \<Rightarrow> 's) \<Rightarrow> 't \<Rightarrow> 't list \<Rightarrow> 't bfs_state \<times> 's \<Rightarrow> 't bfs_state \<times> 's" where
  "bfs_expand func node [] st = st"
| "bfs_expand func node (w # ws) (b, s) =
     (if w \<in> set (bfs_marked b) then bfs_expand func node ws (b, s)
      else bfs_expand func node ws
        (b\<lparr>bfs_q := bfs_q b @ [w], bfs_marked := List.insert w (bfs_marked b),
           bfs_edge_to := dict_set w node (bfs_edge_to b),
           bfs_dist_to := dict_set w
             (Suc (case dict_get (bfs_dist_to b) node of Some d \<Rightarrow> d | None \<Rightarrow> 0)) (bfs_dist_to b)\<rparr>,
         func w s))"

fun bfs_loop ::
  "('t \<Rightarrow> 't list) \<Rightarrow> ('t \<Rightarrow> 's \<Rightarrow> 's) \<Rightarrow> nat \<Rightarrow> 't bfs_state \<times> 's \<Rightarrow> ('t bfs_state \<times> 's) res"
where
  "bfs_loop nbrs func fuel (b, s) =
     (case bfs_q b of
        [] \<Rightarrow> Inr (b, s)
      | node # q \<Rightarrow>
          (case fuel of
             0 \<Rightarrow> Inl NoProgress
           | Suc fuel \<Rightarrow>
               bfs_loop nbrs func fuel (bfs_expand func node (nbrs node) (b\<lparr>bfs_q := q\<rparr>, s))))"

declare bfs_loop.simps [simp del]

definition BFS ::
  "('t \<Rightarrow> 't list) \<Rightarrow> ('t \<Rightarrow> 's \<Rightarrow> 's) \<Rightarrow> nat \<Rightarrow> 't \<Rightarrow> 's \<Rightarrow> ('t bfs_state \<times> 's) res"
where
  "BFS nbrs func fuel v s =
     bfs_loop nbrs func fuel
       (\<lparr>bfs_q = [v], bfs_marked = [v], bfs_edge_to = [], bfs_dist_to = [(v, 0)]\<rparr>, func v s)"

section \<open>connected_components\<close>

text \<open>
  One \<open>DFS\<close> of its own per vertex not yet marked; its callback writes the current count as
  the identifier of every vertex it reaches and marks it.
\<close>

record 't components =
  cc_count :: nat
  cc_identifier :: "('t, nat) dict"
  cc_marked :: "'t list"

definition cc_handler :: "'t \<Rightarrow> 't components \<Rightarrow> 't components" where
  "cc_handler v c =
     c\<lparr>cc_identifier := dict_set v (cc_count c) (cc_identifier c),
       cc_marked := List.insert v (cc_marked c)\<rparr>"

fun cc_loop :: "('t \<Rightarrow> 't list) \<Rightarrow> nat \<Rightarrow> 't list \<Rightarrow> 't components \<Rightarrow> 't components res" where
  "cc_loop nbrs fuel [] c = Inr c"
| "cc_loop nbrs fuel (v # vs) c =
     (if v \<in> set (cc_marked c) then cc_loop nbrs fuel vs c
      else rbind (DFS nbrs cc_handler fuel v c) (\<lambda>(_, c).
           cc_loop nbrs fuel vs (c\<lparr>cc_count := cc_count c + 1\<rparr>)))"

definition connected_components :: "('t \<Rightarrow> 't list) \<Rightarrow> nat \<Rightarrow> 't list \<Rightarrow> 't components res" where
  "connected_components nbrs fuel vertexes =
     cc_loop nbrs fuel vertexes \<lparr>cc_count = 0, cc_identifier = [], cc_marked = []\<rparr>"

definition cc_id :: "'t components \<Rightarrow> 't \<Rightarrow> int" where
  "cc_id c v = (case dict_get (cc_identifier c) v of None \<Rightarrow> -1 | Some i \<Rightarrow> int i)"

section \<open>What the searches rely on\<close>

definition edge_rel :: "('t \<Rightarrow> 't list) \<Rightarrow> ('t \<times> 't) set" where
  "edge_rel nbrs = {(v, w). w \<in> set (nbrs v)}"

lemma edge_rel_iff [simp]: "(v, w) \<in> edge_rel nbrs \<longleftrightarrow> w \<in> set (nbrs v)"
  by (simp add: edge_rel_def)

lemma closed_reach: "(v, w) \<in> (edge_rel nbrs)\<^sup>* \<Longrightarrow> v \<in> A \<Longrightarrow> \<forall>x \<in> A. set (nbrs x) \<subseteq> A \<Longrightarrow> w \<in> A"
  by (induction rule: rtrancl_induct) auto

text \<open>
  \<open>dfs_ok nbrs m m' vs vs'\<close>: the new vertices were called once each, in the order of \<open>vs'\<close>,
  and all their neighbours are marked.
\<close>

definition dfs_ok :: "('t \<Rightarrow> 't list) \<Rightarrow> 't list \<Rightarrow> 't list \<Rightarrow> 't list \<Rightarrow> bool" where
  "dfs_ok nbrs m m' new \<longleftrightarrow> set m' = set m \<union> set new \<and> set m \<inter> set new = {} \<and> distinct new \<and>
     (\<forall>x \<in> set new. set (nbrs x) \<subseteq> set m')"

lemma dfs_ok_refl: "dfs_ok nbrs m m []"
  by (simp add: dfs_ok_def)

lemma dfs_ok_trans:
  assumes "dfs_ok nbrs m m1 new1" "dfs_ok nbrs m1 m2 new2"
  shows "dfs_ok nbrs m m2 (new1 @ new2)"
proof -
  have m: "set m1 = set m \<union> set new1" "set m2 = set m1 \<union> set new2" "set m \<inter> set new1 = {}"
    "set m1 \<inter> set new2 = {}" "distinct new1" "distinct new2"
    "\<And>x. x \<in> set new1 \<Longrightarrow> set (nbrs x) \<subseteq> set m1" "\<And>x. x \<in> set new2 \<Longrightarrow> set (nbrs x) \<subseteq> set m2"
    using assms unfolding dfs_ok_def by blast+
  have "set (nbrs x) \<subseteq> set m2" if "x \<in> set (new1 @ new2)" for x
    using that m(2) m(7) [of x] m(8) [of x] by auto
  moreover have "distinct (new1 @ new2)" using m(1,4,5,6) by auto
  moreover have "set m \<inter> set (new1 @ new2) = {}" "set m2 = set m \<union> set (new1 @ new2)"
    using m(1-4) by auto
  ultimately show ?thesis unfolding dfs_ok_def by blast
qed

locale finite_graph =
  fixes nbrs :: "'t \<Rightarrow> 't list"
    and verts :: "'t set"
  assumes finite_verts: "finite verts"
    and nbrs_verts: "v \<in> verts \<Longrightarrow> set (nbrs v) \<subseteq> verts"
begin

definition dfs_result :: "'t set \<Rightarrow> ('t \<Rightarrow> 's \<Rightarrow> 's) \<Rightarrow> 't list \<times> 's \<Rightarrow> ('t list \<times> 's) res \<Rightarrow> bool" where
  "dfs_result srcs func st r \<longleftrightarrow>
     (\<exists>m' new. r = Inr (m', fold func new (snd st)) \<and> dfs_ok nbrs (fst st) m' new \<and>
       srcs \<subseteq> set m' \<and> (\<forall>x \<in> set new. \<exists>w \<in> srcs. (w, x) \<in> (edge_rel nbrs)\<^sup>*))"

lemma dfs_loop_result:
  assumes "\<And>v st. v \<in> verts - set (fst st) \<Longrightarrow> card (verts - set (fst st)) \<le> fuel \<Longrightarrow>
      dfs_result {v} func st (dfs nbrs func fuel v st)"
  shows "set ws \<subseteq> verts \<Longrightarrow> card (verts - set (fst st)) \<le> fuel \<Longrightarrow>
    dfs_result (set ws) func st (dfs_loop nbrs func fuel ws st)"
proof (induction ws arbitrary: st)
  case Nil
  then show ?case
    by (cases st) (auto simp: dfs_result_def dfs_ok_refl intro!: exI [of _ "[]"])
next
  case (Cons w ws)
  show ?case
  proof (cases "w \<in> set (fst st)")
    case True
    with Cons have "dfs_result (set ws) func st (dfs_loop nbrs func fuel ws st)" by simp
    then show ?thesis using True by (fastforce simp: dfs_result_def dfs_ok_def)
  next
    case False
    then obtain m1 new1 where 1: "dfs nbrs func fuel w st = Inr (m1, fold func new1 (snd st))"
      "dfs_ok nbrs (fst st) m1 new1" "w \<in> set m1" "\<forall>x \<in> set new1. (w, x) \<in> (edge_rel nbrs)\<^sup>*"
      using assms [of w st] Cons.prems by (auto simp: dfs_result_def)
    let ?st = "(m1, fold func new1 (snd st))"
    have "set (fst st) \<subseteq> set m1" using 1(2) by (auto simp: dfs_ok_def)
    then have "card (verts - set m1) \<le> card (verts - set (fst st))"
      using finite_verts by (intro card_mono) auto
    then have "card (verts - set m1) \<le> fuel" using Cons.prems(2) by linarith
    then obtain m2 new2 where 2: "dfs_loop nbrs func fuel ws ?st = Inr (m2, fold func new2 (snd ?st))"
      "dfs_ok nbrs m1 m2 new2" "set ws \<subseteq> set m2"
      "\<forall>x \<in> set new2. \<exists>w \<in> set ws. (w, x) \<in> (edge_rel nbrs)\<^sup>*"
      using Cons.IH [of ?st] Cons.prems(1) by (auto simp: dfs_result_def)
    have "dfs_loop nbrs func fuel (w # ws) st = Inr (m2, fold func (new1 @ new2) (snd st))"
      using False 1(1) 2(1) by simp
    moreover have "set m1 \<subseteq> set m2" using 2(2) by (auto simp: dfs_ok_def)
    ultimately show ?thesis
      unfolding dfs_result_def using 1 2 dfs_ok_trans [OF 1(2) 2(2)]
      by (intro exI [of _ m2] exI [of _ "new1 @ new2"]) auto
  qed
qed

lemma dfs_total:
  "v \<in> verts - set (fst st) \<Longrightarrow> card (verts - set (fst st)) \<le> fuel \<Longrightarrow>
     dfs_result {v} func st (dfs nbrs func fuel v st)"
proof (induction fuel arbitrary: v st)
  case 0
  then have "verts - set (fst st) = {}" using finite_verts by simp
  with 0 show ?case by blast
next
  case (Suc fuel)
  let ?m = "List.insert v (fst st)"
  have "verts - set (fst st) = insert v (verts - set ?m)" using Suc.prems(1) by auto
  moreover have "card (insert v (verts - set ?m)) = Suc (card (verts - set ?m))"
    by (rule card_insert_disjoint) (use finite_verts in auto)
  ultimately have "Suc (card (verts - set ?m)) \<le> Suc fuel" using Suc.prems(2) by argo
  then have "card (verts - set ?m) \<le> fuel" by (rule Suc_le_mono [THEN iffD1])
  then have cm: "card (verts - set (fst (?m, func v (snd st)))) \<le> fuel" by (simp only: fst_conv)
  have nv: "set (nbrs v) \<subseteq> verts" using Suc.prems(1) nbrs_verts by blast
  have "dfs_result (set (nbrs v)) func (?m, func v (snd st))
      (dfs_loop nbrs func fuel (nbrs v) (?m, func v (snd st)))"
    by (rule dfs_loop_result [OF _ nv cm]) (rule Suc.IH)
  then obtain m' new where m':
    "dfs_loop nbrs func fuel (nbrs v) (?m, func v (snd st)) = Inr (m', fold func new (func v (snd st)))"
    "dfs_ok nbrs ?m m' new" "set (nbrs v) \<subseteq> set m'"
    "\<forall>x \<in> set new. \<exists>w \<in> set (nbrs v). (w, x) \<in> (edge_rel nbrs)\<^sup>*"
    unfolding dfs_result_def fst_conv snd_conv by blast
  have n: "set m' = set ?m \<union> set new" "set ?m \<inter> set new = {}" "distinct new"
    "\<And>x. x \<in> set new \<Longrightarrow> set (nbrs x) \<subseteq> set m'"
    using m'(2) unfolding dfs_ok_def by blast+
  have "set (nbrs x) \<subseteq> set m'" if "x \<in> set (v # new)" for x
    using that n(4) [of x] m'(3) by auto
  moreover have "set m' = set (fst st) \<union> set (v # new)" "set (fst st) \<inter> set (v # new) = {}"
    "distinct (v # new)"
    using n(1-3) Suc.prems(1) by auto
  ultimately have "dfs_ok nbrs (fst st) m' (v # new)" unfolding dfs_ok_def by blast
  moreover have "(v, x) \<in> (edge_rel nbrs)\<^sup>*" if x: "x \<in> set (v # new)" for x
  proof (cases "x = v")
    case False
    then obtain w where "w \<in> set (nbrs v)" "(w, x) \<in> (edge_rel nbrs)\<^sup>*" using m'(4) x by auto
    then show ?thesis by (intro converse_rtrancl_into_rtrancl [of v w]) simp_all
  qed simp
  moreover have "dfs nbrs func (Suc fuel) v st = Inr (m', fold func (v # new) (snd st))"
    using m'(1) by simp
  moreover have "{v} \<subseteq> set m'" using n(1) by auto
  ultimately show ?case unfolding dfs_result_def by blast
qed

text \<open>A search from a vertex calls exactly what it can reach, once each.\<close>

lemma DFS_reach:
  assumes "v \<in> verts" "card verts \<le> fuel"
  shows "\<exists>m new. DFS nbrs func fuel v s = Inr (m, fold func new s) \<and> distinct new \<and>
    set new = {x. (v, x) \<in> (edge_rel nbrs)\<^sup>*} \<and> set m = set new"
proof -
  obtain m new where r: "DFS nbrs func fuel v s = Inr (m, fold func new s)" "dfs_ok nbrs [] m new"
    "v \<in> set m" "\<forall>x \<in> set new. (v, x) \<in> (edge_rel nbrs)\<^sup>*"
    using dfs_total [of v "([], s)" fuel func] assms by (auto simp: dfs_result_def DFS_def)
  have "x \<in> set new" if "(v, x) \<in> (edge_rel nbrs)\<^sup>*" for x
    using closed_reach [OF that, of "set new"] r(2,3) by (auto simp: dfs_ok_def)
  with r show ?thesis by (intro exI [of _ m] exI [of _ new]) (auto simp: dfs_ok_def)
qed

subsection \<open>Breadth first\<close>

definition bfs_dist :: "'t bfs_state \<Rightarrow> 't \<Rightarrow> nat" where
  "bfs_dist b x = (case dict_get (bfs_dist_to b) x of Some d \<Rightarrow> d | None \<Rightarrow> 0)"

lemma bfs_expand_new:
  "node \<in> set (bfs_marked b) \<Longrightarrow>
     \<exists>b' new. bfs_expand func node ws (b, s) = (b', fold func new s) \<and>
       bfs_q b' = bfs_q b @ new \<and> distinct new \<and> set new = set ws - set (bfs_marked b) \<and>
       set (bfs_marked b') = set (bfs_marked b) \<union> set new \<and>
       (\<forall>x. dict_get (bfs_dist_to b') x =
          (if x \<in> set new then Some (Suc (bfs_dist b node)) else dict_get (bfs_dist_to b) x)) \<and>
       (\<forall>x. dict_get (bfs_edge_to b') x =
          (if x \<in> set new then Some node else dict_get (bfs_edge_to b) x))"
proof (induction ws arbitrary: b s)
  case Nil
  then show ?case by (intro exI [of _ b] exI [of _ "[]"]) auto
next
  case (Cons w ws)
  show ?case
  proof (cases "w \<in> set (bfs_marked b)")
    case True
    obtain b' new where "bfs_expand func node ws (b, s) = (b', fold func new s)"
      "bfs_q b' = bfs_q b @ new" "distinct new" "set new = set ws - set (bfs_marked b)"
      "set (bfs_marked b') = set (bfs_marked b) \<union> set new"
      "\<forall>x. dict_get (bfs_dist_to b') x =
          (if x \<in> set new then Some (Suc (bfs_dist b node)) else dict_get (bfs_dist_to b) x)"
      "\<forall>x. dict_get (bfs_edge_to b') x =
          (if x \<in> set new then Some node else dict_get (bfs_edge_to b) x)"
      using Cons.IH [OF Cons.prems, of s] by blast
    then show ?thesis using True by (intro exI [of _ b'] exI [of _ new]) auto
  next
    case False
    let ?b = "b\<lparr>bfs_q := bfs_q b @ [w], bfs_marked := List.insert w (bfs_marked b),
           bfs_edge_to := dict_set w node (bfs_edge_to b),
           bfs_dist_to := dict_set w (Suc (bfs_dist b node)) (bfs_dist_to b)\<rparr>"
    have dn: "bfs_dist ?b node = bfs_dist b node"
      using False Cons.prems by (auto simp: bfs_dist_def)
    have "node \<in> set (bfs_marked ?b)" using Cons.prems by simp
    from Cons.IH [OF this, of "func w s"] obtain b' new where
      n: "bfs_expand func node ws (?b, func w s) = (b', fold func new (func w s))"
      "bfs_q b' = bfs_q ?b @ new" "distinct new" "set new = set ws - set (bfs_marked ?b)"
      "set (bfs_marked b') = set (bfs_marked ?b) \<union> set new"
      "\<forall>x. dict_get (bfs_dist_to b') x =
          (if x \<in> set new then Some (Suc (bfs_dist ?b node)) else dict_get (bfs_dist_to ?b) x)"
      "\<forall>x. dict_get (bfs_edge_to b') x =
          (if x \<in> set new then Some node else dict_get (bfs_edge_to ?b) x)" by blast
    have run: "bfs_expand func node (w # ws) (b, s) = (b', fold func (w # new) s)"
      using False n(1) by (simp add: bfs_dist_def)
    have "bfs_q b' = bfs_q b @ w # new" "distinct (w # new)"
      "set (w # new) = set (w # ws) - set (bfs_marked b)"
      "set (bfs_marked b') = set (bfs_marked b) \<union> set (w # new)"
      "\<forall>x. dict_get (bfs_dist_to b') x =
          (if x \<in> set (w # new) then Some (Suc (bfs_dist b node)) else dict_get (bfs_dist_to b) x)"
      "\<forall>x. dict_get (bfs_edge_to b') x =
          (if x \<in> set (w # new) then Some node else dict_get (bfs_edge_to b) x)"
      using False n(2-7) unfolding dn by auto
    with run show ?thesis by blast
  qed
qed

text \<open>
  Between two rounds, for the source \<open>src\<close> and the vertices called so far: distances belong to
  paths, the queue is ordered by distance and never more than one ahead of its head, and the
  neighbours of a vertex taken from the queue are marked, at most one farther than it.
\<close>

definition bfs_inv :: "'t \<Rightarrow> 't list \<Rightarrow> 't bfs_state \<Rightarrow> bool" where
  "bfs_inv src vs b \<longleftrightarrow>
     distinct vs \<and> set vs = set (bfs_marked b) \<and> set (bfs_marked b) \<subseteq> verts \<and>
     src \<in> set (bfs_marked b) \<and> bfs_dist b src = 0 \<and>
     distinct (bfs_q b) \<and> set (bfs_q b) \<subseteq> set (bfs_marked b) \<and>
     (\<forall>x. dict_get (bfs_dist_to b) x \<noteq> None \<longleftrightarrow> x \<in> set (bfs_marked b)) \<and>
     (\<forall>x \<in> set (bfs_marked b). (src, x) \<in> edge_rel nbrs ^^ bfs_dist b x) \<and>
     (\<forall>u \<in> set (bfs_marked b) - set (bfs_q b). \<forall>w \<in> set (nbrs u).
        w \<in> set (bfs_marked b) \<and> bfs_dist b w \<le> Suc (bfs_dist b u)) \<and>
     sorted (map (bfs_dist b) (bfs_q b)) \<and>
     (bfs_q b \<noteq> [] \<longrightarrow> (\<forall>x \<in> set (bfs_marked b). bfs_dist b x \<le> Suc (bfs_dist b (hd (bfs_q b))))) \<and>
     (\<forall>x \<in> set (bfs_marked b). x = src \<or> (\<exists>u. dict_get (bfs_edge_to b) x = Some u \<and>
        u \<in> set (bfs_marked b) \<and> x \<in> set (nbrs u) \<and> bfs_dist b x = Suc (bfs_dist b u)))"

lemma bfs_round:
  assumes "bfs_inv src vs b" "bfs_q b = node # q"
  shows "\<exists>b' new. bfs_expand func node (nbrs node) (b\<lparr>bfs_q := q\<rparr>, s) = (b', fold func new s) \<and>
    bfs_inv src (vs @ new) b' \<and>
    length (bfs_q b') + card (verts - set (bfs_marked b')) < length (bfs_q b) + card (verts - set (bfs_marked b))"
proof -
  let ?M = "set (bfs_marked b)" and ?d = "bfs_dist b"
  have inv: "distinct vs" "set vs = ?M" "?M \<subseteq> verts" "src \<in> ?M"
    "distinct (node # q)" "set (node # q) \<subseteq> ?M"
    "\<And>x. dict_get (bfs_dist_to b) x \<noteq> None \<longleftrightarrow> x \<in> ?M"
    "\<And>x. x \<in> ?M \<Longrightarrow> (src, x) \<in> edge_rel nbrs ^^ ?d x"
    "\<And>u w. u \<in> ?M - set (node # q) \<Longrightarrow> w \<in> set (nbrs u) \<Longrightarrow> w \<in> ?M \<and> ?d w \<le> Suc (?d u)"
    "sorted (map ?d (node # q))"
    "\<And>x. x \<in> ?M \<Longrightarrow> ?d x \<le> Suc (?d node)"
    "\<And>x. x \<in> ?M \<Longrightarrow> x = src \<or> (\<exists>u. dict_get (bfs_edge_to b) x = Some u \<and>
        u \<in> ?M \<and> x \<in> set (nbrs u) \<and> ?d x = Suc (?d u))" "?d src = 0"
    using assms(1) [unfolded bfs_inv_def assms(2) list.sel] list.distinct(2) [of node q] by blast+
  have node: "node \<in> ?M" using inv(6) by simp
  then obtain b' new where b': "bfs_expand func node (nbrs node) (b\<lparr>bfs_q := q\<rparr>, s) = (b', fold func new s)"
    "bfs_q b' = q @ new" "distinct new" "set new = set (nbrs node) - ?M"
    "set (bfs_marked b') = ?M \<union> set new"
    "\<And>x. dict_get (bfs_dist_to b') x =
       (if x \<in> set new then Some (Suc (bfs_dist (b\<lparr>bfs_q := q\<rparr>) node)) else dict_get (bfs_dist_to b) x)"
    "\<And>x. dict_get (bfs_edge_to b') x = (if x \<in> set new then Some node else dict_get (bfs_edge_to b) x)"
    using bfs_expand_new [of node "b\<lparr>bfs_q := q\<rparr>" func "nbrs node" s] by auto
  have d': "bfs_dist b' x = (if x \<in> set new then Suc (?d node) else ?d x)" for x
    using b'(6) by (simp add: bfs_dist_def)
  have old: "x \<notin> set new" if "x \<in> ?M" for x using b'(4) that by auto
  have "bfs_inv src (vs @ new) b'"
    unfolding bfs_inv_def
  proof (intro conjI allI ballI impI)
    show "distinct (vs @ new)" using inv(1,2) b'(3,4) by auto
    show "set (vs @ new) = set (bfs_marked b')" using inv(2) b'(5) by auto
    show "set (bfs_marked b') \<subseteq> verts" using inv(3) node b'(4,5) nbrs_verts [of node] by auto
    show "src \<in> set (bfs_marked b')" using inv(4) b'(5) by auto
    show "bfs_dist b' src = 0" using inv(13) old [OF inv(4)] by (simp add: d')
    show "distinct (bfs_q b')" using inv(5,6) b'(2,3,4) by auto
    show "set (bfs_q b') \<subseteq> set (bfs_marked b')" using inv(6) b'(2,5) by auto
  next
    fix x
    show "dict_get (bfs_dist_to b') x \<noteq> None \<longleftrightarrow> x \<in> set (bfs_marked b')"
      using inv(7) [of x] b'(5,6) by auto
  next
    fix x
    assume "x \<in> set (bfs_marked b')"
    then show "(src, x) \<in> edge_rel nbrs ^^ bfs_dist b' x"
      using inv(8) [of x] inv(8) [OF node] b'(4,5) by (auto simp: d')
  next
    fix u w
    assume u: "u \<in> set (bfs_marked b') - set (bfs_q b')" and w: "w \<in> set (nbrs u)"
    then have uM: "u \<in> ?M" "u \<notin> set q" using b'(2,5) by auto
    show "w \<in> set (bfs_marked b')"
      using inv(9) [of u w] uM w b'(4,5) by (cases "u = node") auto
    show "bfs_dist b' w \<le> Suc (bfs_dist b' u)"
    proof (cases "u = node")
      case True
      then show ?thesis using inv(11) [of w] old [OF node] b'(4) w by (auto simp: d')
    next
      case False
      then have "w \<in> ?M \<and> ?d w \<le> Suc (?d u)" using inv(9) [of u w] uM w by auto
      then show ?thesis using old [of w] old [OF uM(1)] by (simp add: d')
    qed
  next
    have "map (bfs_dist b') (bfs_q b') = map ?d q @ map (\<lambda>_. Suc (?d node)) new"
      using inv(6) old by (auto simp: d' b'(2))
    moreover have "\<forall>x \<in> set (map ?d q). \<forall>y \<in> set (map (\<lambda>_. Suc (?d node)) new). x \<le> y"
      using inv(6,11) by auto
    moreover have "sorted (map (\<lambda>_. Suc (?d node)) new)" by (induction new) auto
    ultimately show "sorted (map (bfs_dist b') (bfs_q b'))"
      using inv(10) by (simp only: sorted_append list.map sorted_simps)
  next
    fix x
    assume ne: "bfs_q b' \<noteq> []" and x: "x \<in> set (bfs_marked b')"
    have "?d node \<le> bfs_dist b' (hd (bfs_q b'))"
    proof (cases q)
      case Nil
      then have "hd (bfs_q b') \<in> set new" using ne b'(2) by simp
      then show ?thesis by (simp add: d')
    next
      case (Cons y q')
      then have "?d node \<le> ?d y" "y \<in> ?M" using inv(6,10) by auto
      then show ?thesis using old [of y] Cons b'(2) by (simp add: d')
    qed
    moreover have "bfs_dist b' x \<le> Suc (?d node)"
      using x b'(5) inv(11) [of x] by (auto simp: d')
    ultimately show "bfs_dist b' x \<le> Suc (bfs_dist b' (hd (bfs_q b')))" by linarith
  next
    fix x
    assume x: "x \<in> set (bfs_marked b')"
    show "x = src \<or> (\<exists>u. dict_get (bfs_edge_to b') x = Some u \<and> u \<in> set (bfs_marked b') \<and>
        x \<in> set (nbrs u) \<and> bfs_dist b' x = Suc (bfs_dist b' u))"
    proof (cases "x \<in> set new")
      case True
      then show ?thesis using b'(4,5,7) node old [OF node] by (auto simp: d')
    next
      case False
      then have "x \<in> ?M" using x b'(5) by auto
      from inv(12) [OF this] show ?thesis using False b'(5,7) old by (auto simp: d')
    qed
  qed
  moreover have "length (bfs_q b') + card (verts - set (bfs_marked b')) <
      length (bfs_q b) + card (verts - ?M)"
  proof -
    have "set new \<subseteq> verts - ?M" using b'(4) node inv(3) nbrs_verts [of node] by auto
    then have "card (verts - ?M - set new) = card (verts - ?M) - length new"
      "length new \<le> card (verts - ?M)"
      using finite_verts distinct_card [OF b'(3)]
      by (auto simp: card_Diff_subset intro: card_mono simp flip: distinct_card [OF b'(3)])
    moreover have "verts - set (bfs_marked b') = verts - ?M - set new" using b'(5) by auto
    ultimately show ?thesis using b'(2) assms(2) by simp
  qed
  ultimately show ?thesis using b'(1) by blast
qed

lemma bfs_loop_total:
  "bfs_inv src vs b \<Longrightarrow> length (bfs_q b) + card (verts - set (bfs_marked b)) \<le> fuel \<Longrightarrow>
     \<exists>b' new. bfs_loop nbrs func fuel (b, s) = Inr (b', fold func new s) \<and>
       bfs_inv src (vs @ new) b' \<and> bfs_q b' = []"
proof (induction fuel arbitrary: b s vs)
  case 0
  then have "bfs_q b = []" by simp
  then show ?case
    using 0 by (intro exI [of _ b], intro exI [of _ "[]"]) (simp add: bfs_loop.simps)
next
  case (Suc fuel)
  show ?case
  proof (cases "bfs_q b")
    case Nil
    then show ?thesis
      using Suc.prems by (intro exI [of _ b], intro exI [of _ "[]"]) (simp add: bfs_loop.simps)
  next
    case (Cons node q)
    obtain b1 new1 where b1: "bfs_expand func node (nbrs node) (b\<lparr>bfs_q := q\<rparr>, s) = (b1, fold func new1 s)"
      "bfs_inv src (vs @ new1) b1"
      "length (bfs_q b1) + card (verts - set (bfs_marked b1)) < length (bfs_q b) + card (verts - set (bfs_marked b))"
      using bfs_round [OF Suc.prems(1) Cons, of func s] by blast
    have "length (bfs_q b1) + card (verts - set (bfs_marked b1)) \<le> fuel"
      using b1(3) Suc.prems(2) by linarith
    from Suc.IH [OF b1(2) this, of "fold func new1 s"] obtain b' new where
      "bfs_loop nbrs func fuel (b1, fold func new1 s) = Inr (b', fold func new (fold func new1 s))"
      "bfs_inv src ((vs @ new1) @ new) b'" "bfs_q b' = []" by blast
    then show ?thesis
      using b1(1) Cons
      by (intro exI [of _ b'], intro exI [of _ "new1 @ new"]) (simp add: bfs_loop.simps [of _ _ "Suc fuel"])
  qed
qed

lemma BFS_shortest:
  assumes "src \<in> verts" "card verts \<le> fuel"
  shows "\<exists>b vs. BFS nbrs func fuel src s = Inr (b, fold func vs s) \<and> distinct vs \<and>
    set vs = {x. (src, x) \<in> (edge_rel nbrs)\<^sup>*} \<and> set (bfs_marked b) = set vs \<and>
    (\<forall>x \<in> set vs. \<exists>d. dict_get (bfs_dist_to b) x = Some d \<and> (src, x) \<in> edge_rel nbrs ^^ d \<and>
       (\<forall>k. (src, x) \<in> edge_rel nbrs ^^ k \<longrightarrow> d \<le> k)) \<and>
    (\<forall>x \<in> set vs. x = src \<or> (\<exists>u d. dict_get (bfs_edge_to b) x = Some u \<and> u \<in> set vs \<and>
       (u, x) \<in> edge_rel nbrs \<and> dict_get (bfs_dist_to b) u = Some d \<and>
       dict_get (bfs_dist_to b) x = Some (Suc d)))"
proof -
  let ?b0 = "\<lparr>bfs_q = [src], bfs_marked = [src], bfs_edge_to = [], bfs_dist_to = [(src, 0)]\<rparr>"
  have "bfs_inv src [src] ?b0"
    using assms(1) by (simp add: bfs_inv_def bfs_dist_def)
  moreover have "length (bfs_q ?b0) + card (verts - set (bfs_marked ?b0)) \<le> fuel"
  proof -
    have "0 < card verts" using assms(1) finite_verts card_gt_0_iff by blast
    then show ?thesis using assms finite_verts by (simp add: card_Diff_singleton)
  qed
  ultimately obtain b new where b: "BFS nbrs func fuel src s = Inr (b, fold func (src # new) s)"
    "bfs_inv src (src # new) b" "bfs_q b = []"
    using bfs_loop_total [of src "[src]" ?b0 fuel func "func src s"] by (auto simp: BFS_def)
  let ?M = "set (bfs_marked b)" and ?d = "bfs_dist b"
  have inv: "distinct (src # new)" "set (src # new) = ?M" "src \<in> ?M"
    "\<And>x. dict_get (bfs_dist_to b) x \<noteq> None \<longleftrightarrow> x \<in> ?M"
    "\<And>x. x \<in> ?M \<Longrightarrow> (src, x) \<in> edge_rel nbrs ^^ ?d x"
    "\<And>u w. u \<in> ?M \<Longrightarrow> w \<in> set (nbrs u) \<Longrightarrow> w \<in> ?M \<and> ?d w \<le> Suc (?d u)"
    "\<And>x. x \<in> ?M \<Longrightarrow> x = src \<or> (\<exists>u. dict_get (bfs_edge_to b) x = Some u \<and>
        u \<in> ?M \<and> x \<in> set (nbrs u) \<and> ?d x = Suc (?d u))" "?d src = 0"
    using b(2) [unfolded bfs_inv_def b(3) list.set(1) Diff_empty] by blast+
  have upper: "x \<in> ?M \<and> ?d x \<le> k" if "(src, x) \<in> edge_rel nbrs ^^ k" for x k
    using that
  proof (induction k arbitrary: x)
    case 0
    then show ?case using inv(3,8) by simp
  next
    case (Suc k)
    then obtain u where "(src, u) \<in> edge_rel nbrs ^^ k" "x \<in> set (nbrs u)" by auto
    then show ?case using Suc.IH [of u] inv(6) [of u x] by force
  qed
  have M: "?M = {x. (src, x) \<in> (edge_rel nbrs)\<^sup>*}"
    using upper inv(5) by (auto simp: rtrancl_power)
  have "\<exists>d. dict_get (bfs_dist_to b) x = Some d \<and> (src, x) \<in> edge_rel nbrs ^^ d \<and>
      (\<forall>k. (src, x) \<in> edge_rel nbrs ^^ k \<longrightarrow> d \<le> k)" if x: "x \<in> ?M" for x
  proof -
    obtain d where "dict_get (bfs_dist_to b) x = Some d" using inv(4) [of x] x by blast
    moreover from this have "?d x = d" by (simp add: bfs_dist_def)
    ultimately show ?thesis using inv(5) [OF x] upper by auto
  qed
  moreover have "\<exists>u d. dict_get (bfs_edge_to b) x = Some u \<and> u \<in> ?M \<and> (u, x) \<in> edge_rel nbrs \<and>
      dict_get (bfs_dist_to b) u = Some d \<and> dict_get (bfs_dist_to b) x = Some (Suc d)"
    if x: "x \<in> ?M" "x \<noteq> src" for x
  proof -
    have get: "dict_get (bfs_dist_to b) y = Some (?d y)" if "y \<in> ?M" for y
      using inv(4) [of y] that by (auto simp: bfs_dist_def)
    from inv(7) [OF x(1)] x(2) obtain u where
      "dict_get (bfs_edge_to b) x = Some u" "u \<in> ?M" "x \<in> set (nbrs u)" "?d x = Suc (?d u)" by blast
    then show ?thesis using get [OF x(1)] get [of u] by simp
  qed
  ultimately show ?thesis
    using b(1) inv(1,2) M by (intro exI [of _ b], intro exI [of _ "src # new"]) (simp, blast)
qed

end

subsection \<open>Components\<close>

text \<open>The same for several searches in a row, in a symmetric graph: the components.\<close>

locale symmetric_graph = finite_graph nbrs verts
    for nbrs :: "'t \<Rightarrow> 't list" and verts :: "'t set" +
  assumes nbrs_sym: "w \<in> set (nbrs v) \<longleftrightarrow> v \<in> set (nbrs w)"
begin

lemma edge_rel_sym: "(v, w) \<in> (edge_rel nbrs)\<^sup>* \<longleftrightarrow> (w, v) \<in> (edge_rel nbrs)\<^sup>*"
proof -
  have "sym (edge_rel nbrs)" by (rule symI) (simp add: nbrs_sym)
  then show ?thesis by (meson sym_rtrancl symD)
qed

text \<open>
  Between two searches: the identified vertices are the marked ones, closed under edges, and
  two of them have the same identifier, below the count, exactly when they are connected.
\<close>

definition cc_inv :: "'t components \<Rightarrow> bool" where
  "cc_inv c \<longleftrightarrow>
     (\<forall>v. dict_get (cc_identifier c) v \<noteq> None \<longleftrightarrow> v \<in> set (cc_marked c)) \<and>
     (\<forall>v \<in> set (cc_marked c). set (nbrs v) \<subseteq> set (cc_marked c)) \<and>
     (\<forall>v i. dict_get (cc_identifier c) v = Some i \<longrightarrow> i < cc_count c) \<and>
     (\<forall>v \<in> set (cc_marked c). \<forall>w \<in> set (cc_marked c).
        dict_get (cc_identifier c) v = dict_get (cc_identifier c) w \<longleftrightarrow> (v, w) \<in> (edge_rel nbrs)\<^sup>*) \<and>
     (\<forall>i < cc_count c. \<exists>v. dict_get (cc_identifier c) v = Some i)"

lemma cc_handler_fold:
  "dict_get (cc_identifier (fold cc_handler vs c)) x =
     (if x \<in> set vs then Some (cc_count c) else dict_get (cc_identifier c) x)"
  "set (cc_marked (fold cc_handler vs c)) = set vs \<union> set (cc_marked c)"
  "cc_count (fold cc_handler vs c) = cc_count c"
  by (induction vs arbitrary: c) (auto simp: cc_handler_def)

lemma cc_step:
  assumes "cc_inv c" "v \<in> verts" "v \<notin> set (cc_marked c)" "card verts \<le> fuel"
  shows "\<exists>m c'. DFS nbrs cc_handler fuel v c = Inr (m, c') \<and>
    cc_inv (c'\<lparr>cc_count := cc_count c' + 1\<rparr>) \<and>
    set (cc_marked c') = set (cc_marked c) \<union> {x. (v, x) \<in> (edge_rel nbrs)\<^sup>*}"
proof -
  obtain m new where new: "DFS nbrs cc_handler fuel v c = Inr (m, fold cc_handler new c)"
    "set new = {x. (v, x) \<in> (edge_rel nbrs)\<^sup>*}"
    using DFS_reach [OF assms(2,4), of cc_handler c] by blast
  let ?R = "{x. (v, x) \<in> (edge_rel nbrs)\<^sup>*}" and ?M = "set (cc_marked c)"
  define c2 where "c2 = fold cc_handler new c\<lparr>cc_count := cc_count c + 1\<rparr>"
  have inv: "\<And>x. dict_get (cc_identifier c) x \<noteq> None \<longleftrightarrow> x \<in> ?M"
    "\<And>x. x \<in> ?M \<Longrightarrow> set (nbrs x) \<subseteq> ?M"
    "\<And>x i. dict_get (cc_identifier c) x = Some i \<Longrightarrow> i < cc_count c"
    "\<And>x y. x \<in> ?M \<Longrightarrow> y \<in> ?M \<Longrightarrow>
       dict_get (cc_identifier c) x = dict_get (cc_identifier c) y \<longleftrightarrow> (x, y) \<in> (edge_rel nbrs)\<^sup>*"
    "\<And>i. i < cc_count c \<Longrightarrow> \<exists>x. dict_get (cc_identifier c) x = Some i"
    using assms(1) unfolding cc_inv_def by blast+
  have disj: "x \<notin> ?M" if "x \<in> ?R" for x
    using closed_reach [of x v nbrs ?M] that inv(2) assms(3) edge_rel_sym [of v x] by blast
  have get: "dict_get (cc_identifier c2) x =
      (if x \<in> ?R then Some (cc_count c) else dict_get (cc_identifier c) x)" for x
    by (simp add: c2_def cc_handler_fold new(2))
  have mk: "set (cc_marked c2) = ?R \<union> ?M" by (simp add: c2_def cc_handler_fold new(2))
  have cnt: "cc_count c2 = Suc (cc_count c)" by (simp add: c2_def)
  have "cc_inv c2"
    unfolding cc_inv_def
  proof (intro conjI allI ballI impI)
    fix x y
    assume "x \<in> set (cc_marked c2)" "y \<in> set (cc_marked c2)"
    then consider "x \<in> ?R" "y \<in> ?R" | "x \<in> ?R" "y \<in> ?M" | "x \<in> ?M" "y \<in> ?R" | "x \<in> ?M" "y \<in> ?M"
      using mk by blast
    then show "dict_get (cc_identifier c2) x = dict_get (cc_identifier c2) y \<longleftrightarrow>
        (x, y) \<in> (edge_rel nbrs)\<^sup>*"
    proof cases
      case 1
      then show ?thesis using edge_rel_sym [of v x] by (auto simp: get)
    next
      case 2
      then have "y \<notin> ?R" "dict_get (cc_identifier c) y \<noteq> Some (cc_count c)"
        using disj inv(3) by blast+
      moreover have "(x, y) \<notin> (edge_rel nbrs)\<^sup>*"
        using 2 calculation(1) rtrancl_trans [of v x "edge_rel nbrs" y] by auto
      ultimately show ?thesis using 2 by (auto simp: get)
    next
      case 3
      then have "x \<notin> ?R" "dict_get (cc_identifier c) x \<noteq> Some (cc_count c)"
        using disj inv(3) by blast+
      moreover have "(x, y) \<notin> (edge_rel nbrs)\<^sup>*"
        using 3 calculation(1) edge_rel_sym [of x y] rtrancl_trans [of v y "edge_rel nbrs" x] by auto
      ultimately show ?thesis using 3 by (auto simp: get)
    next
      case 4
      then have "x \<notin> ?R" "y \<notin> ?R" using disj by blast+
      then show ?thesis using inv(4) [OF 4] by (simp only: get if_False)
    qed
  next
    fix i
    assume "i < cc_count c2"
    then consider "i < cc_count c" | "i = cc_count c" by (fastforce simp: cnt)
    then show "\<exists>x. dict_get (cc_identifier c2) x = Some i"
    proof cases
      case 1
      then obtain x where x: "dict_get (cc_identifier c) x = Some i" using inv(5) by blast
      then have "x \<notin> ?R" using inv(1) [of x] disj by auto
      then show ?thesis using x by (intro exI [of _ x]) (simp add: get)
    next
      case 2
      then show ?thesis by (intro exI [of _ v]) (simp add: get)
    qed
  next
    fix x
    show "dict_get (cc_identifier c2) x \<noteq> None \<longleftrightarrow> x \<in> set (cc_marked c2)"
      using inv(1) [of x] by (auto simp: get mk)
  next
    fix x
    assume "x \<in> set (cc_marked c2)"
    then show "set (nbrs x) \<subseteq> set (cc_marked c2)"
      unfolding mk using inv(2) [of x] by (auto intro: rtrancl_into_rtrancl)
  next
    fix x i
    assume "dict_get (cc_identifier c2) x = Some i"
    then show "i < cc_count c2" using inv(3) [of x i] by (auto simp: get cnt split: if_splits)
  qed
  then show ?thesis
    using new cc_handler_fold(2,3) [of new c]
    by (intro exI [of _ m] exI [of _ "fold cc_handler new c"]) (auto simp: c2_def)
qed

lemma cc_loop_total:
  "cc_inv c \<Longrightarrow> set vs \<subseteq> verts \<Longrightarrow> card verts \<le> fuel \<Longrightarrow>
     \<exists>c'. cc_loop nbrs fuel vs c = Inr c' \<and> cc_inv c' \<and> set (cc_marked c') = set (cc_marked c) \<union> {x. \<exists>v \<in> set vs. (v, x) \<in> (edge_rel nbrs)\<^sup>*}"
proof (induction vs arbitrary: c)
  case (Cons v vs)
  show ?case
  proof (cases "v \<in> set (cc_marked c)")
    case True
    obtain c' where c': "cc_loop nbrs fuel vs c = Inr c'" "cc_inv c'"
      "set (cc_marked c') = set (cc_marked c) \<union> {x. \<exists>v \<in> set vs. (v, x) \<in> (edge_rel nbrs)\<^sup>*}"
      using Cons.IH [OF Cons.prems(1)] Cons.prems(2,3) by auto
    have "x \<in> set (cc_marked c)" if "(v, x) \<in> (edge_rel nbrs)\<^sup>*" for x
      using closed_reach [OF that True] Cons.prems(1) unfolding cc_inv_def by blast
    then have "set (cc_marked c') =
        set (cc_marked c) \<union> {x. \<exists>v \<in> set (v # vs). (v, x) \<in> (edge_rel nbrs)\<^sup>*}"
      using c'(3) by auto
    then show ?thesis using True c'(1,2) by auto
  next
    case False
    obtain m c1 where c1: "DFS nbrs cc_handler fuel v c = Inr (m, c1)"
      "cc_inv (c1\<lparr>cc_count := cc_count c1 + 1\<rparr>)"
      "set (cc_marked c1) = set (cc_marked c) \<union> {x. (v, x) \<in> (edge_rel nbrs)\<^sup>*}"
      using cc_step [OF Cons.prems(1) _ False Cons.prems(3)] Cons.prems(2) by auto
    obtain c' where "cc_loop nbrs fuel vs (c1\<lparr>cc_count := cc_count c1 + 1\<rparr>) = Inr c'" "cc_inv c'"
      "set (cc_marked c') = set (cc_marked c1) \<union> {x. \<exists>v \<in> set vs. (v, x) \<in> (edge_rel nbrs)\<^sup>*}"
      using Cons.IH [OF c1(2)] Cons.prems(2,3) by auto
    then show ?thesis using c1(1,3) False by auto
  qed
qed auto

lemma components_correct:
  assumes "set vertexes \<subseteq> verts" "card verts \<le> fuel"
  shows "\<exists>c. connected_components nbrs fuel vertexes = Inr c \<and>
    (\<forall>v \<in> set vertexes. \<forall>w \<in> set vertexes.
       cc_id c v = cc_id c w \<longleftrightarrow> (v, w) \<in> (edge_rel nbrs)\<^sup>*) \<and>
    cc_id c ` set vertexes = {0..<int (cc_count c)}"
proof -
  have "cc_inv \<lparr>cc_count = 0, cc_identifier = [], cc_marked = []\<rparr>" by (simp add: cc_inv_def)
  from cc_loop_total [OF this assms] obtain c where
    c: "connected_components nbrs fuel vertexes = Inr c" "cc_inv c"
      "set (cc_marked c) = {x. \<exists>v \<in> set vertexes. (v, x) \<in> (edge_rel nbrs)\<^sup>*}"
    by (auto simp: connected_components_def)
  have sub: "set vertexes \<subseteq> set (cc_marked c)" unfolding c(3) by blast
  have inv: "\<And>x. dict_get (cc_identifier c) x \<noteq> None \<longleftrightarrow> x \<in> set (cc_marked c)"
    "\<And>x i. dict_get (cc_identifier c) x = Some i \<Longrightarrow> i < cc_count c"
    "\<And>x y. x \<in> set (cc_marked c) \<Longrightarrow> y \<in> set (cc_marked c) \<Longrightarrow>
       dict_get (cc_identifier c) x = dict_get (cc_identifier c) y \<longleftrightarrow> (x, y) \<in> (edge_rel nbrs)\<^sup>*"
    "\<And>i. i < cc_count c \<Longrightarrow> \<exists>v. dict_get (cc_identifier c) v = Some i"
    using c(2) unfolding cc_inv_def by blast+
  have some: "\<exists>i. dict_get (cc_identifier c) v = Some i \<and> i < cc_count c" if "v \<in> set vertexes" for v
    using that sub inv(1) [of v] inv(2) [of v] by blast
  have "cc_id c v = cc_id c w \<longleftrightarrow> (v, w) \<in> (edge_rel nbrs)\<^sup>*"
    if vw: "v \<in> set vertexes" "w \<in> set vertexes" for v w
  proof -
    obtain i j where "dict_get (cc_identifier c) v = Some i" "dict_get (cc_identifier c) w = Some j"
      using some vw by blast
    moreover have "dict_get (cc_identifier c) v = dict_get (cc_identifier c) w \<longleftrightarrow>
        (v, w) \<in> (edge_rel nbrs)\<^sup>*"
      using vw sub by (intro inv(3)) auto
    ultimately show ?thesis by (simp add: cc_id_def)
  qed
  moreover have "cc_id c ` set vertexes = {0..<int (cc_count c)}"
  proof (intro subset_antisym subsetI)
    show "n \<in> {0..<int (cc_count c)}" if "n \<in> cc_id c ` set vertexes" for n
      using that some by (force simp: cc_id_def)
  next
    fix n
    assume "n \<in> {0..<int (cc_count c)}"
    then have n: "0 \<le> n" "nat n < cc_count c" by auto
    then obtain x where x: "dict_get (cc_identifier c) x = Some (nat n)" using inv(4) by blast
    then have "x \<in> set (cc_marked c)" using inv(1) [of x] by auto
    then obtain v where v: "v \<in> set vertexes" "(v, x) \<in> (edge_rel nbrs)\<^sup>*" unfolding c(3) by blast
    have "dict_get (cc_identifier c) v = dict_get (cc_identifier c) x"
      using v sub \<open>x \<in> set (cc_marked c)\<close> by (subst inv(3)) auto
    then have "cc_id c v = n" using x n(1) by (simp add: cc_id_def)
    then show "n \<in> cc_id c ` set vertexes" using v(1) by blast
  qed
  ultimately show ?thesis using c(1) by blast
qed

end

section \<open>Searches over the graphs of the library\<close>

definition ug_nbrs :: "('t, 'w) graph \<Rightarrow> 't \<Rightarrow> 't list" where
  "ug_nbrs g v = map fst (ug_adjacent g v)"

definition dg_nbrs :: "('t, 'w) digraph \<Rightarrow> 't \<Rightarrow> 't list" where
  "dg_nbrs g v = map fst (fst (dg_adjacent g v))"

lemma ug_inv_of_triples: "ug_inv (ug_of_triples es)"
  unfolding ug_of_triples_def by (rule ug_of_triples_fold(1) [OF ug_inv_empty])

lemma ug_nbrs_iff: "w \<in> set (ug_nbrs g v) \<longleftrightarrow> wgt_of (adj g) v w \<noteq> None"
  by (simp add: ug_nbrs_def ug_adjacent_def wgt_of_def adj_at_def dict_has_iff [symmetric] dict_has_def
      split: option.splits)

lemma dg_nbrs_iff: "w \<in> set (dg_nbrs g v) \<longleftrightarrow> wgt_of (adj g) v w \<noteq> None"
  by (simp add: dg_nbrs_def dg_adjacent_def wgt_of_def dict_has_iff [symmetric] dict_has_def)

interpretation ug: symmetric_graph "ug_nbrs (ug_of_triples es)" "set (vertex_bag (ug_of_triples es))"
  for es :: "('t \<times> 't \<times> 'w) list"
proof unfold_locales
  have g: "\<And>a b. wgt_of (adj (ug_of_triples es)) a b = wgt_of (adj (ug_of_triples es)) b a"
    "\<And>a b. wgt_of (adj (ug_of_triples es)) a b \<noteq> None \<Longrightarrow> dict_has (adj (ug_of_triples es)) b"
    using ug_inv_of_triples [of es] unfolding ug_inv_def by blast+
  show "finite (set (vertex_bag (ug_of_triples es)))" by simp
  show "set (ug_nbrs (ug_of_triples es) v) \<subseteq> set (vertex_bag (ug_of_triples es))" for v
    using g(2) by (auto simp: ug_nbrs_iff vertex_bag_def dict_has_iff)
  show "w \<in> set (ug_nbrs (ug_of_triples es) v) \<longleftrightarrow> v \<in> set (ug_nbrs (ug_of_triples es) w)" for v w
    unfolding ug_nbrs_iff by (simp only: g(1) [of v w])
qed

interpretation dg: finite_graph "dg_nbrs (dg_of_triples es)" "set (map fst (adj (dg_of_triples es)))"
  for es :: "('t \<times> 't \<times> 'w) list"
proof unfold_locales
  show "finite (set (map fst (adj (dg_of_triples es))))" by simp
  show "set (dg_nbrs (dg_of_triples es) v) \<subseteq> set (map fst (adj (dg_of_triples es)))" for v
    using dg_inv_of_triples [of es] by (auto simp: dg_nbrs_iff dg_inv_def dict_has_iff)
qed

text \<open>The edges of the two graphs, in terms of the triples they are built from.\<close>

definition sym_edges :: "('t \<times> 't \<times> 'w) list \<Rightarrow> ('t \<times> 't) set" where
  "sym_edges es = {(a, b). \<exists>x. (a, b, x) \<in> set es \<or> (b, a, x) \<in> set es}"

definition dir_edges :: "('t \<times> 't \<times> 'w) list \<Rightarrow> ('t \<times> 't) set" where
  "dir_edges es = {(a, b). \<exists>x. (a, b, x) \<in> set es}"

lemma edge_rel_ug: "edge_rel (ug_nbrs (ug_of_triples es)) = sym_edges es"
proof -
  have "wgt_of (adj (ug_of_triples es)) v w = last_wgt v w es None" for v w
    using ug_of_triples_fold(4) [of es empty_graph v w]
    by (simp add: ug_of_triples_def empty_graph_def wgt_of_def adj_at_def)
  then show ?thesis by (auto simp: edge_rel_def sym_edges_def ug_nbrs_iff last_wgt_None)
qed

lemma edge_rel_dg: "edge_rel (dg_nbrs (dg_of_triples es)) = dir_edges es"
  by (simp only: edge_rel_def dir_edges_def dg_nbrs_iff dg_of_triples_edges)

lemma ug_vertices: "set (vertex_bag (ug_of_triples es)) = (\<Union>(a, b, x) \<in> set es. {a, b})"
  using ug_of_triples_fold(3) [of es empty_graph]
  by (simp add: ug_of_triples_def vertex_bag_def empty_graph_def)

lemma wf_adj_card: "wf_adj a \<Longrightarrow> card (set (map fst a)) = length a"
  unfolding wf_adj_def wf_dict_def by (metis distinct_card length_map)

lemma ug_v_sz: "v_sz (ug_of_triples es) = card (set (vertex_bag (ug_of_triples es)))"
  using ug_inv_of_triples [of es] unfolding ug_inv_def vertex_bag_def by (metis wf_adj_card)

lemma dg_v_sz: "v_sz (dg_of_triples es) = card (set (map fst (adj (dg_of_triples es))))"
  using dg_inv_of_triples [of es] unfolding dg_inv_def by (metis wf_adj_card)

section \<open>Properties\<close>

text \<open>
  C35: a depth-first search of an undirected graph built from triples, from one of its
  vertices, ends, calls the callback exactly once for every vertex connected to the source, for
  no other, and marks exactly those. As many units of fuel as there are vertices are enough.
\<close>

theorem dfs_visits_component:
  assumes "v \<in> set (vertex_bag (ug_of_triples es))" "v_sz (ug_of_triples es) \<le> fuel"
  shows "\<exists>m new. DFS (ug_nbrs (ug_of_triples es)) func fuel v s = Inr (m, fold func new s) \<and>
    distinct new \<and> set new = {w. (v, w) \<in> (sym_edges es)\<^sup>*} \<and> set m = set new"
  using ug.DFS_reach [of v es fuel func s] assms unfolding edge_rel_ug ug_v_sz .

theorem dfs_visits_component_witness:
  "\<exists>m new. DFS (ug_nbrs (ug_of_triples [(1 :: nat, 2, ()), (3, 4, ())])) (\<lambda>v vs. vs @ [v]) 4 2 [] =
      Inr (m, fold (\<lambda>v vs. vs @ [v]) new []) \<and>
    distinct new \<and> set new = {w. (2, w) \<in> (sym_edges [(1 :: nat, 2, ()), (3, 4, ())])\<^sup>*} \<and> set m = set new"
  by (rule dfs_visits_component) (simp_all add: ug_of_triples_def empty_graph_def ug_add_edge_def
      vertex_bag_def adj_put_def adj_at_def Let_def dict_set_def dict_has_def)

text \<open>
  C33: a breadth-first search of a digraph built from triples ends, calls the callback once
  for every vertex reachable from the source, records for each the length of a shortest path,
  and for each but the source a predecessor on such a path.
\<close>

theorem bfs_shortest_paths:
  assumes "src \<in> set (map fst (adj (dg_of_triples es)))" "v_sz (dg_of_triples es) \<le> fuel"
  shows "\<exists>b vs. BFS (dg_nbrs (dg_of_triples es)) func fuel src s = Inr (b, fold func vs s) \<and>
    distinct vs \<and> set vs = {x. (src, x) \<in> (dir_edges es)\<^sup>*} \<and> set (bfs_marked b) = set vs \<and>
    (\<forall>x \<in> set vs. \<exists>d. dict_get (bfs_dist_to b) x = Some d \<and> (src, x) \<in> dir_edges es ^^ d \<and>
       (\<forall>k. (src, x) \<in> dir_edges es ^^ k \<longrightarrow> d \<le> k)) \<and>
    (\<forall>x \<in> set vs. x = src \<or> (\<exists>u d. dict_get (bfs_edge_to b) x = Some u \<and> u \<in> set vs \<and>
       (u, x) \<in> dir_edges es \<and> dict_get (bfs_dist_to b) u = Some d \<and>
       dict_get (bfs_dist_to b) x = Some (Suc d)))"
  by (rule dg.BFS_shortest [of src es fuel func s, unfolded edge_rel_dg]) (use assms in \<open>simp_all add: dg_v_sz\<close>)

theorem bfs_shortest_paths_witness:
  "\<exists>b vs. BFS (dg_nbrs (dg_of_triples [(1 :: nat, 2, ()), (2, 3, ())])) (\<lambda>v vs. vs @ [v]) 3 1 [] =
      Inr (b, fold (\<lambda>v vs. vs @ [v]) vs []) \<and>
    set vs = {x. (1, x) \<in> (dir_edges [(1 :: nat, 2, ()), (2, 3, ())])\<^sup>*}"
proof -
  have "1 \<in> set (map fst (adj (dg_of_triples [(1 :: nat, 2, ()), (2, 3, ())])))"
    "v_sz (dg_of_triples [(1 :: nat, 2, ()), (2, 3, ())]) \<le> 3"
    by (simp_all add: dg_of_triples_def empty_digraph_def dg_add_edge_def adj_put_def adj_touch_def
        adj_at_def Let_def dict_set_def dict_has_def)
  from bfs_shortest_paths [OF this, of "\<lambda>v vs. vs @ [v]" "[]"] show ?thesis by blast
qed

text \<open>
  C34: \<open>connected_components\<close> of an undirected graph built from triples ends; two vertices get
  the same identifier exactly when they are connected, and identifiers count from zero up to
  the number of components.
\<close>

theorem components_are_connectivity:
  assumes "v_sz (ug_of_triples es) \<le> fuel"
  shows "\<exists>c. connected_components (ug_nbrs (ug_of_triples es)) fuel (vertex_bag (ug_of_triples es)) = Inr c \<and>
    (\<forall>v \<in> set (vertex_bag (ug_of_triples es)). \<forall>w \<in> set (vertex_bag (ug_of_triples es)).
       cc_id c v = cc_id c w \<longleftrightarrow> (v, w) \<in> (sym_edges es)\<^sup>*) \<and>
    cc_id c ` set (vertex_bag (ug_of_triples es)) = {0..<int (cc_count c)}"
  using ug.components_correct [of "vertex_bag (ug_of_triples es)" es fuel] assms
  unfolding edge_rel_ug ug_v_sz by simp

theorem components_are_connectivity_witness:
  "\<exists>c. connected_components (ug_nbrs (ug_of_triples [(1 :: nat, 2, ()), (3, 4, ())])) 4
      (vertex_bag (ug_of_triples [(1 :: nat, 2, ()), (3, 4, ())])) = Inr c \<and>
    cc_id c ` set (vertex_bag (ug_of_triples [(1 :: nat, 2, ()), (3, 4, ())])) = {0..<int (cc_count c)}"
proof -
  have "v_sz (ug_of_triples [(1 :: nat, 2, ()), (3, 4, ())]) \<le> 4"
    by (simp add: ug_of_triples_def empty_graph_def ug_add_edge_def adj_put_def adj_at_def Let_def
        dict_set_def dict_has_def)
  from components_are_connectivity [OF this] show ?thesis by blast
qed

end
