(* ===== verification/KV.thy ===== *)
theory KV
  imports Prelude
begin

text \<open>
  \<open>include/kv.hpp\<close>: the key-value table \<open>paracel::kvs\<close> each server thread works on. The state
  is the dictionary \<open>kvdct\<close>; the stateless hash object \<open>hfunc\<close> is the argument \<open>hfunc\<close> of
  \<open>gets\<close> and \<open>cas\<close> (\<open>std::hash\<close>, whose values the standard leaves open). Each operation is
  a function of the table; those that change it return the new one.

  The locale \<open>kv_table\<close> states the contract the server relies on (lookup after every
  operation); \<open>kv\<close> interprets it on these definitions.
\<close>

section \<open>Operations\<close>

type_synonym ('k, 'v) kvs = "('k, 'v) dict"

definition kvs_contains :: "('k, 'v) kvs \<Rightarrow> 'k \<Rightarrow> bool" where
  "kvs_contains kvdct k = dict_has kvdct k"

definition kvs_set :: "'k \<Rightarrow> 'v \<Rightarrow> ('k, 'v) kvs \<Rightarrow> ('k, 'v) kvs" where
  "kvs_set k v kvdct = dict_set k v kvdct"

fun kvs_set_multi :: "('k, 'v) dict \<Rightarrow> ('k, 'v) kvs \<Rightarrow> ('k, 'v) kvs" where
  "kvs_set_multi [] kvdct = kvdct"
| "kvs_set_multi ((k, v) # kvdict) kvdct = kvs_set_multi kvdict (kvs_set k v kvdct)"

text \<open>Both overloads of \<open>get\<close>: the optional value, and the flag with an output argument.\<close>

definition kvs_get :: "('k, 'v) kvs \<Rightarrow> 'k \<Rightarrow> 'v option" where
  "kvs_get kvdct k = dict_get kvdct k"

definition kvs_get_into :: "('k, 'v) kvs \<Rightarrow> 'k \<Rightarrow> 'v \<Rightarrow> bool \<times> 'v" where
  "kvs_get_into kvdct k v =
     (case dict_get kvdct k of Some x \<Rightarrow> (True, x) | None \<Rightarrow> (False, v))"

text \<open>\<open>at\<close> throws \<open>std::out_of_range\<close> on the first missing key.\<close>

fun kvs_get_multi :: "('k, 'v) kvs \<Rightarrow> 'k list \<Rightarrow> 'v list res" where
  "kvs_get_multi kvdct [] = Inr []"
| "kvs_get_multi kvdct (k # ks) =
     rbind (of_opt OutOfRange (dict_get kvdct k)) (\<lambda>v.
     rbind (kvs_get_multi kvdct ks) (\<lambda>vs. Inr (v # vs)))"

text \<open>The two \<open>incr\<close> templates: on numbers, and elementwise on vectors of one length.\<close>

definition kvs_incr :: "'k \<Rightarrow> 'v :: plus \<Rightarrow> ('k, 'v) kvs \<Rightarrow> bool \<times> ('k, 'v) kvs" where
  "kvs_incr k delta kvdct =
     (case dict_get kvdct k of None \<Rightarrow> (False, kvdct)
      | Some x \<Rightarrow> (True, dict_set k (x + delta) kvdct))"

definition kvs_incr_seq :: "'k \<Rightarrow> 'v :: plus list \<Rightarrow> ('k, 'v list) kvs \<Rightarrow> bool \<times> ('k, 'v list) kvs"
where
  "kvs_incr_seq k delta kvdct =
     (case dict_get kvdct k of None \<Rightarrow> (False, kvdct)
      | Some xs \<Rightarrow>
          if length xs \<noteq> length delta then (False, kvdct)
          else (True, dict_set k (map (\<lambda>(x, d). x + d) (zip xs delta)) kvdct))"

text \<open>\<open>gets\<close> returns the value with its hash as the unique token; \<open>cas\<close> compares it.\<close>

definition kvs_gets :: "('v \<Rightarrow> u64) \<Rightarrow> ('k, 'v) kvs \<Rightarrow> 'k \<Rightarrow> ('v \<times> u64) option" where
  "kvs_gets hfunc kvdct k =
     (case kvs_get kvdct k of Some v \<Rightarrow> Some (v, hfunc v) | None \<Rightarrow> None)"

definition kvs_cas :: "('v \<Rightarrow> u64) \<Rightarrow> 'k \<Rightarrow> 'v \<Rightarrow> u64 \<Rightarrow> ('k, 'v) kvs \<Rightarrow> bool \<times> ('k, 'v) kvs" where
  "kvs_cas hfunc k v uniq kvdct =
     (case kvs_gets hfunc kvdct k of
        Some r \<Rightarrow> if uniq = snd r then (True, kvs_set k v kvdct) else (False, kvdct)
      | None \<Rightarrow> (True, dict_set k v kvdct))"

definition kvs_del :: "'k \<Rightarrow> ('k, 'v) kvs \<Rightarrow> bool \<times> ('k, 'v) kvs" where
  "kvs_del k kvdct = (if \<not> kvs_contains kvdct k then (False, kvdct) else (True, dict_del k kvdct))"

definition kvs_clean :: "('k, 'v) kvs \<Rightarrow> ('k, 'v) kvs" where
  "kvs_clean kvdct = []"

definition kvs_getall :: "('k, 'v) kvs \<Rightarrow> ('k, 'v) dict" where
  "kvs_getall kvdct = kvdct"

section \<open>The contract of a table\<close>

locale kv_table =
  fixes lookup :: "'t \<Rightarrow> 'k \<Rightarrow> 'v option"
    and insert_kv :: "'k \<Rightarrow> 'v \<Rightarrow> 't \<Rightarrow> 't"
    and delete_kv :: "'k \<Rightarrow> 't \<Rightarrow> 't"
    and invar :: "'t \<Rightarrow> bool"
  assumes lookup_insert: "lookup (insert_kv k v t) k' = (if k' = k then Some v else lookup t k')"
    and lookup_delete: "lookup (delete_kv k t) k' = (if k' = k then None else lookup t k')"
    and invar_insert: "invar t \<Longrightarrow> invar (insert_kv k v t)"
    and invar_delete: "invar t \<Longrightarrow> invar (delete_kv k t)"
begin

lemma lookup_inserts:
  "lookup (fold (\<lambda>(k, v). insert_kv k v) kvs t) k' =
     (case map_of (rev kvs) k' of Some v \<Rightarrow> Some v | None \<Rightarrow> lookup t k')"
  by (induction kvs arbitrary: t) (auto simp: lookup_insert map_add_def split: option.splits)

lemma lookup_deletes:
  "lookup (fold delete_kv ks t) k' = (if k' \<in> set ks then None else lookup t k')"
  by (induction ks arbitrary: t) (auto simp: lookup_delete)

lemma invar_inserts: "invar t \<Longrightarrow> invar (fold (\<lambda>(k, v). insert_kv k v) kvs t)"
  by (induction kvs arbitrary: t) (auto simp: invar_insert)

lemma invar_deletes: "invar t \<Longrightarrow> invar (fold delete_kv ks t)"
  by (induction ks arbitrary: t) (auto simp: invar_delete)

text \<open>Writes to different keys commute, up to lookup; a second write to a key wins.\<close>

lemma insert_commute:
  "k \<noteq> k' \<Longrightarrow> lookup (insert_kv k v (insert_kv k' v' t)) = lookup (insert_kv k' v' (insert_kv k v t))"
  by (auto simp: lookup_insert fun_eq_iff)

lemma insert_overwrite: "lookup (insert_kv k v (insert_kv k v' t)) = lookup (insert_kv k v t)"
  by (auto simp: lookup_insert fun_eq_iff)

end

interpretation kv: kv_table kvs_get kvs_set "\<lambda>k t. snd (kvs_del k t)" wf_dict
  by unfold_locales
    (auto simp: kvs_get_def kvs_set_def kvs_del_def kvs_contains_def dict_has_def)

section \<open>Lemmas\<close>

lemma kvs_contains_get: "kvs_contains t k \<longleftrightarrow> kvs_get t k \<noteq> None"
  by (simp add: kvs_contains_def dict_has_def kvs_get_def)

lemma kvs_del_fst: "fst (kvs_del k t) \<longleftrightarrow> kvs_get t k \<noteq> None"
  by (simp add: kvs_del_def kvs_contains_get)

lemma kvs_get_into_get:
  "kvs_get_into t k v = (case kvs_get t k of Some x \<Rightarrow> (True, x) | None \<Rightarrow> (False, v))"
  by (simp add: kvs_get_into_def kvs_get_def)

lemma kvs_set_multi_fold: "kvs_set_multi kvs t = fold (\<lambda>(k, v). kvs_set k v) kvs t"
  by (induction kvs t rule: kvs_set_multi.induct) auto

lemma kvs_get_set_multi:
  "kvs_get (kvs_set_multi kvs t) k = (case map_of (rev kvs) k of Some v \<Rightarrow> Some v | None \<Rightarrow> kvs_get t k)"
  by (simp add: kvs_set_multi_fold kv.lookup_inserts)

lemma wf_kvs_set_multi: "wf_dict t \<Longrightarrow> wf_dict (kvs_set_multi kvs t)"
  by (simp add: kvs_set_multi_fold kv.invar_inserts)

lemma kvs_get_multi_ok:
  "\<forall>k \<in> set ks. kvs_get t k = Some (f k) \<Longrightarrow> kvs_get_multi t ks = Inr (map f ks)"
  by (induction ks) (auto simp: kvs_get_def)

lemma kvs_get_multi_missing:
  "k \<in> set ks \<Longrightarrow> kvs_get t k = None \<Longrightarrow> kvs_get_multi t ks = Inl OutOfRange"
proof (induction ks)
  case Nil
  then show ?case by simp
next
  case (Cons k' ks)
  then show ?case by (cases "dict_get t k'") (auto simp: kvs_get_def)
qed

lemma kvs_get_incr:
  "kvs_get (snd (kvs_incr k d t)) k' =
     (if k' = k then map_option (\<lambda>x. x + d) (kvs_get t k) else kvs_get t k')"
  by (auto simp: kvs_incr_def kvs_get_def split: option.splits)

lemma wf_kvs_incr: "wf_dict t \<Longrightarrow> wf_dict (snd (kvs_incr k d t))"
  by (auto simp: kvs_incr_def split: option.splits)

lemma kvs_get_clean: "kvs_get (kvs_clean t) k = None"
  by (simp add: kvs_get_def kvs_clean_def)

lemma kvs_cas_cases:
  "kvs_cas hf k v u t =
     (if (\<forall>x. kvs_get t k = Some x \<longrightarrow> u = hf x) then (True, kvs_set k v t) else (False, t))"
  by (auto simp: kvs_cas_def kvs_gets_def kvs_set_def split: option.splits)

section \<open>Properties\<close>

text \<open>
  Compare-and-set is optimistic concurrency on the hash token. The token that \<open>gets\<close>
  returned still matches as long as no write changed the key's value, whatever happened to
  other keys; then \<open>cas\<close> succeeds and installs the value. When a value of another hash was
  written in between, \<open>cas\<close> answers false and the table is untouched.
\<close>

theorem kvs_cas_token:
  assumes "kvs_gets hfunc t k = Some (x, u)"
  shows "kvs_cas hfunc k v u t' =
    (case kvs_get t' k of
       None \<Rightarrow> (True, kvs_set k v t')
     | Some y \<Rightarrow> if hfunc y = hfunc x then (True, kvs_set k v t') else (False, t'))"
  using assms by (auto simp: kvs_cas_cases kvs_gets_def split: option.splits)

theorem kvs_cas_token_witness:
  "kvs_cas (\<lambda>n. word_of_nat n) ''a'' 9 7 [(''a'', 7 :: nat), (''b'', 5)]
     = (True, [(''a'', 9), (''b'', 5)])"
  using kvs_cas_token [of "\<lambda>n. word_of_nat n" "[(''a'', 7 :: nat)]" "''a''" 7 7 9
      "[(''a'', 7), (''b'', 5)]"]
  by (simp add: kvs_gets_def kvs_get_def kvs_set_def dict_set_def)

end
