(* ===== verification/Packer.thy ===== *)
theory Packer
  imports StrUtil
begin

text \<open>
  \<open>include/packer.hpp\<close>, \<open>include/proxy.hpp\<close> and \<open>src/default.cpp\<close>: every value that crosses
  the wire is serialised by msgpack and prefixed with its size, an 8-byte \<open>size_t\<close> in the
  machine's byte order (little endian here). msgpack is not under \<open>src/\<close>: an encoder
  \<open>enc\<close> and a decoder \<open>dec\<close> (\<open>None\<close>: it throws) are arguments of the definitions, and
  \<open>packable\<close> is what the code relies on for a value: that msgpack decodes what it encoded and
  that the size fits a \<open>size_t\<close>.

  The locale \<open>framed_codec\<close> is the contract the server, the client and the proxies use;
  \<open>pk\<close> interprets it on the packer of the code, for every msgpack.
\<close>

section \<open>The size prefix\<close>

fun le_encode :: "nat \<Rightarrow> nat \<Rightarrow> string" where
  "le_encode 0 n = []"
| "le_encode (Suc k) n = char_of (n mod 256) # le_encode k (n div 256)"

fun le_decode :: "string \<Rightarrow> nat" where
  "le_decode [] = 0"
| "le_decode (c # cs) = of_char c + 256 * le_decode cs"

lemma le_encode_numeral:
  "le_encode (numeral k) n = char_of (n mod 256) # le_encode (pred_numeral k) (n div 256)"
  by (metis le_encode.simps(2) numeral_eq_Suc)

lemma length_le_encode [simp]: "length (le_encode k n) = k"
  by (induction k n rule: le_encode.induct) auto

lemma le_decode_encode: "n < 256 ^ k \<Longrightarrow> le_decode (le_encode k n) = n"
proof (induction k n rule: le_encode.induct)
  case (1 n)
  then show ?case by simp
next
  case (2 k n)
  then have "n div 256 < 256 ^ k" by (simp add: div_less_iff_less_mult mult.commute)
  with 2 show ?case by simp
qed

lemma le_decode_less: "le_decode cs < 256 ^ length cs"
proof (induction cs)
  case Nil
  then show ?case by simp
next
  case (Cons c cs)
  have c: "of_char c < (256::nat)" by (rule nat_of_char_less_256)
  obtain n where "256 ^ length cs = Suc (le_decode cs) + n"
    using Cons by (metis Suc_leI le_iff_add)
  then have "256 ^ length (c # cs) = 256 + 256 * le_decode cs + 256 * n" by simp
  then have "256 + 256 * le_decode cs \<le> 256 ^ length (c # cs)" by linarith
  moreover have "le_decode (c # cs) < 256 + 256 * le_decode cs"
    by (simp only: le_decode.simps add_less_cancel_right c)
  ultimately show ?case by (rule less_le_trans [rotated])
qed

section \<open>packer\<close>

text \<open>
  \<open>pack\<close> writes the size and the msgpack bytes. \<open>unpack\<close> reads the size (a shorter string
  leaves it uninitialised), resizes the buffer to it, fills it with what the stream still
  has (the rest stays zero) and hands it to msgpack.
\<close>

definition pk_pack :: "('a \<Rightarrow> string) \<Rightarrow> 'a \<Rightarrow> string" where
  "pk_pack enc v = (let b = enc v in le_encode 8 (length b) @ b)"

definition pk_unpack :: "(string \<Rightarrow> 'a option) \<Rightarrow> string \<Rightarrow> 'a res" where
  "pk_unpack dec s =
     (if length s < 8 then Inl UndefinedRead
      else let sz = le_decode (take 8 s); rest = drop 8 s;
               buf = take sz rest @ replicate (sz - length rest) (CHR 0x00)
           in of_opt DecodeError (dec buf))"

definition packable :: "('a \<Rightarrow> string) \<Rightarrow> (string \<Rightarrow> 'a option) \<Rightarrow> 'a \<Rightarrow> bool" where
  "packable enc dec v \<longleftrightarrow> dec (enc v) = Some v \<and> length (enc v) < 2 ^ 64"

lemma length_pk_pack: "length (pk_pack enc v) = 8 + length (enc v)"
  by (simp add: pk_pack_def Let_def)

lemma pk_unpack_pack:
  assumes "packable enc dec v"
  shows "pk_unpack dec (pk_pack enc v) = Inr v"
proof -
  have "le_decode (le_encode 8 (length (enc v))) = length (enc v)"
    using assms by (intro le_decode_encode) (simp add: packable_def)
  then show ?thesis
    using assms by (simp add: pk_unpack_def pk_pack_def Let_def packable_def)
qed

text \<open>Bytes behind the packed value are ignored: \<open>unpack\<close> reads as many as the prefix says.\<close>

lemma pk_unpack_trailing:
  assumes "packable enc dec v"
  shows "pk_unpack dec (pk_pack enc v @ rest) = Inr v"
proof -
  have "le_decode (le_encode 8 (length (enc v))) = length (enc v)"
    using assms by (intro le_decode_encode) (simp add: packable_def)
  then show ?thesis
    using assms by (simp add: pk_unpack_def pk_pack_def Let_def packable_def)
qed

section \<open>The contract of a framed codec\<close>

locale codec =
  fixes enc :: "'a \<Rightarrow> string"
    and dec :: "string \<Rightarrow> 'a res"
    and ok :: "'a \<Rightarrow> bool"
  assumes dec_enc: "ok x \<Longrightarrow> dec (enc x) = Inr x"
begin

lemma enc_inject: "ok x \<Longrightarrow> ok y \<Longrightarrow> enc x = enc y \<longleftrightarrow> x = y"
  by (metis Inr_inject dec_enc)

lemma dec_enc_list: "\<forall>x \<in> set xs. ok x \<Longrightarrow> rmapM dec (map enc xs) = Inr xs"
  by (induction xs) (auto simp: dec_enc)

end

text \<open>
  A reply of the server is never empty and never the bare word \<open>nokey\<close>, the in-band marker
  for a missing key, because a packed value has at least the eight bytes of its prefix.
\<close>

locale framed_codec = codec +
  assumes enc_long: "8 \<le> length (enc x)"
begin

lemma enc_nonempty: "enc x \<noteq> []"
  using enc_long [of x] by auto

lemma enc_not_nokey: "enc x \<noteq> ''nokey''"
  using enc_long [of x] by auto

end

interpretation pk: framed_codec "pk_pack enc" "pk_unpack dec" "packable enc dec" for enc dec
  by unfold_locales (simp_all add: pk_unpack_pack length_pk_pack)

declare pk.enc_nonempty [simp] pk.enc_not_nokey [simp]

section \<open>Update and filter functions\<close>

text \<open>
  \<open>update_proxy\<close> and \<open>filter_proxy\<close> wrap a typed function into one on packed strings. The
  wrapped function may fail when a string does not decode.
\<close>

type_synonym update_result = "string \<Rightarrow> string \<Rightarrow> string res"
type_synonym filter_result = "string \<Rightarrow> string \<Rightarrow> bool res"

definition update_proxy ::
  "('a \<Rightarrow> string) \<Rightarrow> (string \<Rightarrow> 'a option) \<Rightarrow> (string \<Rightarrow> 'b option) \<Rightarrow>
   ('a \<Rightarrow> 'b \<Rightarrow> 'a res) \<Rightarrow> update_result" where
  "update_proxy enc dec dec2 func s_val s_delta =
     rbind (pk_unpack dec s_val) (\<lambda>p1.
     rbind (pk_unpack dec2 s_delta) (\<lambda>p2.
     rbind (func p1 p2) (\<lambda>tmp. Inr (pk_pack enc tmp))))"

definition filter_proxy ::
  "(string \<Rightarrow> 'a option) \<Rightarrow> (string \<Rightarrow> 'a \<Rightarrow> bool) \<Rightarrow> filter_result" where
  "filter_proxy dec func s_key s_val = rbind (pk_unpack dec s_val) (\<lambda>p2. Inr (func s_key p2))"

definition filter_with_key_proxy :: "(string \<Rightarrow> bool) \<Rightarrow> string \<Rightarrow> bool res" where
  "filter_with_key_proxy func s_key = Inr (func s_key)"

text \<open>
  The default updaters of \<open>src/default.cpp\<close>: addition, and elementwise addition along the
  first vector (a shorter second vector is read out of range).
\<close>

definition paracel_incr :: "'a :: plus \<Rightarrow> 'a \<Rightarrow> 'a res" where
  "paracel_incr a b = Inr (a + b)"

fun paracel_incr_l :: "'a :: plus list \<Rightarrow> 'a list \<Rightarrow> 'a list res" where
  "paracel_incr_l [] bs = Inr []"
| "paracel_incr_l (a # as) [] = Inl UndefinedRead"
| "paracel_incr_l (a # as) (b # bs) = rbind (paracel_incr_l as bs) (\<lambda>r. Inr ((a + b) # r))"

lemma update_proxy_packed:
  assumes "packable enc dec v" "packable enc2 dec2 d" "func v d = Inr w"
  shows "update_proxy enc dec dec2 func (pk_pack enc v) (pk_pack enc2 d) = Inr (pk_pack enc w)"
  using assms by (simp add: update_proxy_def pk.dec_enc)

lemma filter_proxy_packed:
  "packable enc dec v \<Longrightarrow> filter_proxy dec func k (pk_pack enc v) = Inr (func k v)"
  by (simp add: filter_proxy_def pk.dec_enc)

lemma paracel_incr_l_zip:
  "length as \<le> length bs \<Longrightarrow> paracel_incr_l as bs = Inr (map (\<lambda>(a, b). a + b) (zip as bs))"
  by (induction as bs rule: paracel_incr_l.induct) auto

lemma paracel_incr_l_short: "length bs < length as \<Longrightarrow> paracel_incr_l as bs = Inl UndefinedRead"
  by (induction as bs rule: paracel_incr_l.induct) auto

section \<open>The msgpack instances of the parameter server\<close>

text \<open>
  The types the server and the client pack themselves: keys and function names, lists of
  strings, dictionaries of packed values, booleans and the clock integers.
\<close>

record msgpack =
  mp_str :: "string \<Rightarrow> string"
  um_str :: "string \<Rightarrow> string option"
  mp_lst :: "string list \<Rightarrow> string"
  um_lst :: "string \<Rightarrow> string list option"
  mp_dct :: "(string, string) dict \<Rightarrow> string"
  um_dct :: "string \<Rightarrow> (string, string) dict option"
  mp_bool :: "bool \<Rightarrow> string"
  um_bool :: "string \<Rightarrow> bool option"
  mp_int :: "int \<Rightarrow> string"
  um_int :: "string \<Rightarrow> int option"

abbreviation pack_str :: "msgpack \<Rightarrow> string \<Rightarrow> string" where
  "pack_str M \<equiv> pk_pack (mp_str M)"

abbreviation unpack_str :: "msgpack \<Rightarrow> string \<Rightarrow> string res" where
  "unpack_str M \<equiv> pk_unpack (um_str M)"

abbreviation str_ok :: "msgpack \<Rightarrow> string \<Rightarrow> bool" where
  "str_ok M \<equiv> packable (mp_str M) (um_str M)"

abbreviation lst_ok :: "msgpack \<Rightarrow> string list \<Rightarrow> bool" where
  "lst_ok M \<equiv> packable (mp_lst M) (um_lst M)"

abbreviation dct_ok :: "msgpack \<Rightarrow> (string, string) dict \<Rightarrow> bool" where
  "dct_ok M \<equiv> packable (mp_dct M) (um_dct M)"

abbreviation bool_ok :: "msgpack \<Rightarrow> bool \<Rightarrow> bool" where
  "bool_ok M \<equiv> packable (mp_bool M) (um_bool M)"

abbreviation int_ok :: "msgpack \<Rightarrow> int \<Rightarrow> bool" where
  "int_ok M \<equiv> packable (mp_int M) (um_int M)"

text \<open>
  One concrete serialiser, used where a witness needs one: strings as themselves, lists and
  dictionaries as runs of sized strings, the boolean bytes of msgpack, integers as eight
  bytes in two's complement.
\<close>

fun lst_bytes :: "string list \<Rightarrow> string" where
  "lst_bytes [] = []"
| "lst_bytes (s # ss) = le_encode 8 (length s) @ s @ lst_bytes ss"

function lst_of_bytes :: "string \<Rightarrow> string list option" where
  "lst_of_bytes b =
     (if b = [] then Some []
      else if length b < 8 then None
      else let sz = le_decode (take 8 b); rest = drop 8 b
           in if length rest < sz then None
              else map_option ((#) (take sz rest)) (lst_of_bytes (drop sz rest)))"
  by pat_completeness auto
termination
  by (relation "measure length") auto

declare lst_of_bytes.simps [simp del]

fun pair_up :: "'a list \<Rightarrow> ('a \<times> 'a) list option" where
  "pair_up [] = Some []"
| "pair_up [a] = None"
| "pair_up (a # b # xs) = map_option ((#) (a, b)) (pair_up xs)"

definition dct_bytes :: "(string, string) dict \<Rightarrow> string" where
  "dct_bytes d = lst_bytes (concat (map (\<lambda>(k, v). [k, v]) d))"

definition dct_of_bytes :: "string \<Rightarrow> (string, string) dict option" where
  "dct_of_bytes b = Option.bind (lst_of_bytes b) pair_up"

definition plain_msgpack :: msgpack where
  "plain_msgpack =
     \<lparr>mp_str = (\<lambda>s. s), um_str = Some,
      mp_lst = lst_bytes, um_lst = lst_of_bytes,
      mp_dct = dct_bytes, um_dct = dct_of_bytes,
      mp_bool = (\<lambda>b. if b then [CHR 0xC3] else [CHR 0xC2]),
      um_bool = (\<lambda>s. if s = [CHR 0xC3] then Some True
                     else if s = [CHR 0xC2] then Some False else None),
      mp_int = (\<lambda>i. le_encode 8 (nat (i mod 2 ^ 64))),
      um_int = (\<lambda>s. Some (sint (word_of_nat (le_decode s) :: 64 word)))\<rparr>"

lemma plain_msgpack_simps [simp]:
  "mp_str plain_msgpack s = s" "um_str plain_msgpack = Some"
  "mp_lst plain_msgpack = lst_bytes" "um_lst plain_msgpack = lst_of_bytes"
  "mp_dct plain_msgpack = dct_bytes" "um_dct plain_msgpack = dct_of_bytes"
  "mp_bool plain_msgpack b = (if b then [CHR 0xC3] else [CHR 0xC2])"
  "um_bool plain_msgpack s =
     (if s = [CHR 0xC3] then Some True else if s = [CHR 0xC2] then Some False else None)"
  "mp_int plain_msgpack i = le_encode 8 (nat (i mod 2 ^ 64))"
  "um_int plain_msgpack s = Some (sint (word_of_nat (le_decode s) :: 64 word))"
  by (simp_all add: plain_msgpack_def)

lemma lst_of_bytes_bytes:
  "\<forall>s \<in> set ss. length s < 2 ^ 64 \<Longrightarrow> lst_of_bytes (lst_bytes ss) = Some ss"
proof (induction ss)
  case Nil
  then show ?case by (simp add: lst_of_bytes.simps)
next
  case (Cons s ss)
  have sz: "le_decode (le_encode 8 (length s)) = length s"
    using Cons.prems by (intro le_decode_encode) simp
  have "le_encode 8 (length s) @ s @ lst_bytes ss \<noteq> []"
    by (metis append_is_Nil_conv length_le_encode list.size(3) zero_neq_numeral)
  with Cons sz show ?case
    by (simp add: lst_of_bytes.simps [of "le_encode 8 (length s) @ s @ lst_bytes ss"])
qed

lemma pair_up_concat: "pair_up (concat (map (\<lambda>(k, v). [k, v]) d)) = Some d"
  by (induction d) auto

lemma dct_of_bytes_bytes:
  assumes "\<forall>(k, v) \<in> set d. length k < 2 ^ 64 \<and> length v < 2 ^ 64"
  shows "dct_of_bytes (dct_bytes d) = Some d"
proof -
  have "\<forall>s \<in> set (concat (map (\<lambda>(k, v). [k, v]) d)). length s < 2 ^ 64"
    using assms by auto
  then show ?thesis
    by (simp only: dct_of_bytes_def dct_bytes_def lst_of_bytes_bytes Option.bind.bind_lunit pair_up_concat)
qed

lemma plain_packable [simp]:
  "length s < 2 ^ 64 \<Longrightarrow> str_ok plain_msgpack s"
  "\<forall>s \<in> set ss. length s < 2 ^ 64 \<Longrightarrow> length (lst_bytes ss) < 2 ^ 64 \<Longrightarrow> lst_ok plain_msgpack ss"
  "\<forall>(k, v) \<in> set d. length k < 2 ^ 64 \<and> length v < 2 ^ 64 \<Longrightarrow>
     length (dct_bytes d) < 2 ^ 64 \<Longrightarrow> dct_ok plain_msgpack d"
  "bool_ok plain_msgpack b"
  by (simp_all add: packable_def lst_of_bytes_bytes dct_of_bytes_bytes)

lemma plain_int_ok [simp]:
  assumes "- (2 ^ 63) \<le> i" "i < 2 ^ 63"
  shows "int_ok plain_msgpack i"
proof -
  have "le_decode (le_encode 8 (nat (i mod 2 ^ 64))) = nat (i mod 2 ^ 64)"
    by (intro le_decode_encode) (simp add: nat_less_iff)
  moreover have "(word_of_nat (nat (i mod 2 ^ 64)) :: 64 word) = word_of_int i"
    by (simp add: word_of_int_eq_iff take_bit_eq_mod)
  moreover have "sint (word_of_int i :: 64 word) = i"
    using assms by (simp add: signed_take_bit_int_eq_self sint_sbintrunc')
  ultimately show ?thesis by (simp add: packable_def)
qed

end
