(* ===== verification/Server.thy ===== *)
theory Server
  imports KV Packer
begin

text \<open>
  \<open>include/server.hpp\<close> (and \<open>kv_def.hpp\<close>): the two thread loops of a parameter server. A
  worker thread (\<open>thrd_exec\<close>) keeps three loaded functions of its own and shares the table
  \<open>tbl_store\<close>; the clock thread (\<open>thrd_exec_ssp\<close>) owns \<open>ssp_tbl\<close>. One round of a loop is a
  function of the received string: it splits it, unpacks the indicator, runs the branch of
  that name and yields the replies it sends, in order, with the new state. Every round that
  writes \<open>tbl_store\<close> runs under the one mutex, so rounds of different threads are serialised.

  External: the regex splitter, msgpack and the dynamic loader are the fields of \<open>env\<close>; a
  library that cannot be opened or lacks the symbol is \<open>None\<close>, and the code aborts.
  \<open>ERROR_ABORT\<close> only prints, so execution continues behind it, and so do the definitions.
\<close>

section \<open>State\<close>

record env =
  env_mp :: msgpack
  env_rx :: "string \<Rightarrow> string \<Rightarrow> string list"
  env_dl_update :: "string \<Rightarrow> string \<Rightarrow> update_result option"
  env_dl_filter :: "string \<Rightarrow> string \<Rightarrow> filter_result option"

record thrd =
  update_f :: "update_result option"
  pullall_special_f :: "filter_result option"
  remove_special_f :: "filter_result option"

type_synonym tbl = "(string, string) kvs"
type_synonym ssp = "(string, int) kvs"

definition new_thrd :: thrd where
  "new_thrd = \<lparr>update_f = None, pullall_special_f = None, remove_special_f = None\<rparr>"

definition seperator :: string where
  "seperator = ''_PARACEL_''"

text \<open>The third piece of \<open>tcp://host:port\<close> cut at the colons.\<close>

definition local_parse_port :: "string \<Rightarrow> string res" where
  "local_parse_port s = nth_res (str_split s (CHR '':'')) 2"

text \<open>For concrete runs: the plain serialiser, the literal splitter, no loadable library.\<close>

definition plain_env :: env where
  "plain_env = \<lparr>env_mp = plain_msgpack, env_rx = (\<lambda>s sep. word_split sep s),
     env_dl_update = (\<lambda>_ _. None), env_dl_filter = (\<lambda>_ _. None)\<rparr>"

lemma plain_env_sel [simp]:
  "env_mp plain_env = plain_msgpack" "env_rx plain_env s sep = word_split sep s"
  "env_dl_update plain_env fn fcn = None" "env_dl_filter plain_env fn fcn = None"
  by (simp_all add: plain_env_def)

section \<open>Helpers of the loops\<close>

text \<open>Calling an empty \<open>std::function\<close> throws.\<close>

definition call2 :: "('a \<Rightarrow> 'b \<Rightarrow> 'c res) option \<Rightarrow> 'a \<Rightarrow> 'b \<Rightarrow> 'c res" where
  "call2 f a b = rbind (of_opt BadFunctionCall f) (\<lambda>g. g a b)"

fun kv_filter4pullall ::
  "filter_result option \<Rightarrow> (string, string) dict \<Rightarrow> (string, string) dict \<Rightarrow> (string, string) dict res"
where
  "kv_filter4pullall filter_func [] new_dct = Inr new_dct"
| "kv_filter4pullall filter_func ((k, v) # dct) new_dct =
     rbind (call2 filter_func k v) (\<lambda>b.
     kv_filter4pullall filter_func dct (if b then dict_set k v new_dct else new_dct))"

fun kv_filter4remove :: "filter_result option \<Rightarrow> (string, string) dict \<Rightarrow> tbl \<Rightarrow> tbl res" where
  "kv_filter4remove filter_func [] tbl = Inr tbl"
| "kv_filter4remove filter_func ((key, _) # dct) tbl =
     (let v = snd (kvs_get_into tbl key '''')
      in rbind (call2 filter_func key v) (\<lambda>b.
         kv_filter4remove filter_func dct (if b then snd (kvs_del key tbl) else tbl)))"

definition kv_update :: "string \<Rightarrow> string \<Rightarrow> update_result option \<Rightarrow> tbl \<Rightarrow> (string \<times> tbl) res" where
  "kv_update key v_or_delta f tbl =
     (case kvs_get tbl key of
        None \<Rightarrow> Inr (v_or_delta, kvs_set key v_or_delta tbl)
      | Some val \<Rightarrow> rbind (call2 f val v_or_delta) (\<lambda>new_val. Inr (new_val, kvs_set key new_val tbl)))"

fun kvs_update ::
  "string list \<Rightarrow> string list \<Rightarrow> update_result option \<Rightarrow> tbl \<Rightarrow> (string list \<times> tbl) res"
where
  "kvs_update [] vs f tbl = Inr ([], tbl)"
| "kvs_update (k # ks) [] f tbl = Inl UndefinedRead"
| "kvs_update (k # ks) (v # vs) f tbl =
     rbind (kv_update k v f tbl) (\<lambda>(x, tbl).
     rbind (kvs_update ks vs f tbl) (\<lambda>(xs, tbl). Inr (x # xs, tbl)))"

definition dlopen_update :: "env \<Rightarrow> string \<Rightarrow> string \<Rightarrow> thrd \<Rightarrow> thrd res" where
  "dlopen_update E fn fcn th =
     rbind (of_opt Aborted (env_dl_update E fn fcn)) (\<lambda>f. Inr (th\<lparr>update_f := Some f\<rparr>))"

definition dlopen_pullall :: "env \<Rightarrow> string \<Rightarrow> string \<Rightarrow> thrd \<Rightarrow> thrd res" where
  "dlopen_pullall E fn fcn th =
     rbind (of_opt Aborted (env_dl_filter E fn fcn)) (\<lambda>f. Inr (th\<lparr>pullall_special_f := Some f\<rparr>))"

definition dlopen_remove :: "env \<Rightarrow> string \<Rightarrow> string \<Rightarrow> thrd \<Rightarrow> thrd res" where
  "dlopen_remove E fn fcn th =
     rbind (of_opt Aborted (env_dl_filter E fn fcn)) (\<lambda>f. Inr (th\<lparr>remove_special_f := Some f\<rparr>))"

section \<open>thrd_exec: the branches\<close>

text \<open>\<open>msg_str E msg i\<close> is \<open>pk.unpack(msg[i])\<close>; \<open>rep_pack\<close> packs a boolean reply.\<close>

type_synonym round = "(string list \<times> thrd \<times> tbl) res"

definition msg_str :: "env \<Rightarrow> string list \<Rightarrow> nat \<Rightarrow> string res" where
  "msg_str E msg i = rbind (nth_res msg i) (unpack_str (env_mp E))"

definition msg_lst :: "env \<Rightarrow> string list \<Rightarrow> nat \<Rightarrow> string list res" where
  "msg_lst E msg i = rbind (nth_res msg i) (pk_unpack (um_lst (env_mp E)))"

definition msg_int :: "env \<Rightarrow> string list \<Rightarrow> nat \<Rightarrow> int res" where
  "msg_int E msg i = rbind (nth_res msg i) (pk_unpack (um_int (env_mp E)))"

definition rep_bool :: "env \<Rightarrow> bool \<Rightarrow> string" where
  "rep_bool E b = pk_pack (mp_bool (env_mp E)) b"

definition do_contains :: "env \<Rightarrow> string list \<Rightarrow> thrd \<Rightarrow> tbl \<Rightarrow> round" where
  "do_contains E msg th tbl =
     rbind (msg_str E msg 1) (\<lambda>key. Inr ([rep_bool E (kvs_contains tbl key)], th, tbl))"

definition do_pull :: "env \<Rightarrow> string list \<Rightarrow> thrd \<Rightarrow> tbl \<Rightarrow> round" where
  "do_pull E msg th tbl =
     rbind (msg_str E msg 1) (\<lambda>key.
       let (exist, result) = kvs_get_into tbl key ''''
       in Inr ([if \<not> exist then ''nokey'' else result], th, tbl))"

definition do_pull_multi :: "env \<Rightarrow> string list \<Rightarrow> thrd \<Rightarrow> tbl \<Rightarrow> round" where
  "do_pull_multi E msg th tbl =
     rbind (msg_lst E msg 1) (\<lambda>key_lst.
     rbind (kvs_get_multi tbl key_lst) (\<lambda>result.
     Inr ([pk_pack (mp_lst (env_mp E)) result], th, tbl)))"

definition do_pullall :: "env \<Rightarrow> string list \<Rightarrow> thrd \<Rightarrow> tbl \<Rightarrow> round" where
  "do_pullall E msg th tbl = Inr ([pk_pack (mp_dct (env_mp E)) (kvs_getall tbl)], th, tbl)"

definition do_pullall_special :: "env \<Rightarrow> string list \<Rightarrow> thrd \<Rightarrow> tbl \<Rightarrow> round" where
  "do_pullall_special E msg th tbl =
     rbind (if length msg = 3
            then rbind (msg_str E msg 1) (\<lambda>file_name. rbind (msg_str E msg 2) (\<lambda>func_name.
                 dlopen_pullall E file_name func_name th))
            else Inr th) (\<lambda>th.
     rbind (kv_filter4pullall (pullall_special_f th) (kvs_getall tbl) []) (\<lambda>new_dct.
     Inr ([pk_pack (mp_dct (env_mp E)) new_dct], th, tbl)))"

definition do_register ::
  "(env \<Rightarrow> string \<Rightarrow> string \<Rightarrow> thrd \<Rightarrow> thrd res) \<Rightarrow> bool \<Rightarrow> env \<Rightarrow> string list \<Rightarrow> thrd \<Rightarrow> tbl \<Rightarrow> round"
where
  "do_register dlopen reply E msg th tbl =
     rbind (msg_str E msg 1) (\<lambda>file_name. rbind (msg_str E msg 2) (\<lambda>func_name.
     rbind (dlopen E file_name func_name th) (\<lambda>th.
     Inr (if reply then [rep_bool E True] else [], th, tbl))))"

definition do_push :: "env \<Rightarrow> string list \<Rightarrow> thrd \<Rightarrow> tbl \<Rightarrow> round" where
  "do_push E msg th tbl =
     rbind (msg_str E msg 1) (\<lambda>key. rbind (nth_res msg 2) (\<lambda>val.
     Inr ([rep_bool E True], th, kvs_set key val tbl)))"

definition do_push_multi :: "env \<Rightarrow> string list \<Rightarrow> thrd \<Rightarrow> tbl \<Rightarrow> round" where
  "do_push_multi E msg th tbl =
     rbind (msg_lst E msg 1) (\<lambda>key_lst. rbind (msg_lst E msg 2) (\<lambda>val_lst.
     if length key_lst \<noteq> length val_lst then Inl AssertFailed
     else let kv_pairs = dict_set_all (zip key_lst val_lst) []
          in Inr ([rep_bool E True], th, kvs_set_multi kv_pairs tbl)))"

text \<open>The updater of an update round: the one named in the message, the loaded one, the default.\<close>

definition load_updater :: "env \<Rightarrow> string list \<Rightarrow> thrd \<Rightarrow> thrd res" where
  "load_updater E msg th =
     (if 3 < length msg
      then rbind (msg_str E msg 3) (\<lambda>file_name. rbind (msg_str E msg 4) (\<lambda>func_name.
           dlopen_update E file_name func_name th))
      else if update_f th = None
           then dlopen_update E ''../local/build/lib/default.so'' ''default_incr_i'' th
           else Inr th)"

definition do_update :: "bool \<Rightarrow> env \<Rightarrow> string list \<Rightarrow> thrd \<Rightarrow> tbl \<Rightarrow> round" where
  "do_update reply E msg th tbl =
     rbind (load_updater E msg th) (\<lambda>th.
     rbind (msg_str E msg 1) (\<lambda>key. rbind (nth_res msg 2) (\<lambda>v.
     rbind (kv_update key v (update_f th) tbl) (\<lambda>(result, tbl).
     Inr (if reply then [result] else [], th, tbl)))))"

definition do_bupdate_multi :: "env \<Rightarrow> string list \<Rightarrow> thrd \<Rightarrow> tbl \<Rightarrow> round" where
  "do_bupdate_multi E msg th tbl =
     rbind (load_updater E msg th) (\<lambda>th.
     rbind (msg_lst E msg 1) (\<lambda>key_lst. rbind (msg_lst E msg 2) (\<lambda>v_or_delta_lst.
     if length key_lst \<noteq> length v_or_delta_lst then Inl AssertFailed
     else rbind (kvs_update key_lst v_or_delta_lst (update_f th) tbl) (\<lambda>(result, tbl).
          Inr ([pk_pack (mp_lst (env_mp E)) result], th, tbl)))))"

definition do_remove :: "env \<Rightarrow> string list \<Rightarrow> thrd \<Rightarrow> tbl \<Rightarrow> round" where
  "do_remove E msg th tbl =
     rbind (msg_str E msg 1) (\<lambda>key.
       let (result, tbl) = kvs_del key tbl in Inr ([rep_bool E result], th, tbl))"

definition do_remove_special :: "env \<Rightarrow> string list \<Rightarrow> thrd \<Rightarrow> tbl \<Rightarrow> round" where
  "do_remove_special E msg th tbl =
     rbind (if length msg = 3
            then rbind (msg_str E msg 1) (\<lambda>file_name. rbind (msg_str E msg 2) (\<lambda>func_name.
                 dlopen_remove E file_name func_name th))
            else Inr th) (\<lambda>th.
     rbind (kv_filter4remove (remove_special_f th) (kvs_getall tbl) tbl) (\<lambda>tbl.
     Inr ([rep_bool E True], th, tbl)))"

definition do_clear :: "env \<Rightarrow> string list \<Rightarrow> thrd \<Rightarrow> tbl \<Rightarrow> round" where
  "do_clear E msg th tbl = Inr ([rep_bool E True], th, kvs_clean tbl)"

section \<open>thrd_exec: one round\<close>

text \<open>The branch of an indicator; an indicator no branch tests for does nothing.\<close>

definition thrd_branch :: "env \<Rightarrow> string \<Rightarrow> string list \<Rightarrow> thrd \<Rightarrow> tbl \<Rightarrow> round" where
  "thrd_branch E indicator msg th tbl =
     (if indicator = ''contains'' then do_contains E msg th tbl
      else if indicator = ''pull'' then do_pull E msg th tbl
      else if indicator = ''pull_multi'' then do_pull_multi E msg th tbl
      else if indicator = ''pullall'' then do_pullall E msg th tbl
      else if indicator = ''pullall_special'' then do_pullall_special E msg th tbl
      else if indicator = ''register_pullall_special'' then do_register dlopen_pullall True E msg th tbl
      else if indicator = ''register_remove_special'' then do_register dlopen_remove True E msg th tbl
      else if indicator = ''register_update'' then do_register dlopen_update False E msg th tbl
      else if indicator = ''register_bupdate'' then do_register dlopen_update True E msg th tbl
      else if indicator = ''push'' then do_push E msg th tbl
      else if indicator = ''push_multi'' then do_push_multi E msg th tbl
      else if indicator = ''update'' then do_update False E msg th tbl
      else if indicator = ''bupdate'' then do_update True E msg th tbl
      else if indicator = ''bupdate_multi'' then do_bupdate_multi E msg th tbl
      else if indicator = ''remove'' then do_remove E msg th tbl
      else if indicator = ''remove_special'' then do_remove_special E msg th tbl
      else if indicator = ''clear'' then do_clear E msg th tbl
      else Inr ([], th, tbl))"

definition thrd_exec :: "env \<Rightarrow> string \<Rightarrow> thrd \<Rightarrow> tbl \<Rightarrow> round" where
  "thrd_exec E scrip th tbl =
     rbind (str_split_by_word (env_rx E) scrip seperator) (\<lambda>msg.
     rbind (msg_str E msg 0) (\<lambda>indicator. thrd_branch E indicator msg th tbl))"

section \<open>thrd_exec_ssp: one round\<close>

text \<open>
  \<open>boost::optional\<close>'s \<open>>=\<close>: an absent right side is below everything, an absent left side
  only above an absent one.
\<close>

definition opt_ge :: "int option \<Rightarrow> int option \<Rightarrow> bool" where
  "opt_ge x y = (case y of None \<Rightarrow> True | Some b \<Rightarrow> (case x of None \<Rightarrow> False | Some a \<Rightarrow> b \<le> a))"

definition ssp_init :: "ssp \<Rightarrow> ssp" where
  "ssp_init t = kvs_set ''server_clock'' 0 t"

definition ssp_incr_int :: "string \<Rightarrow> int \<Rightarrow> ssp \<Rightarrow> ssp" where
  "ssp_incr_int key delta t =
     (let t = (if startswith key ''client_clock_'' then
          (let t = (if kvs_get t key \<noteq> None then snd (kvs_incr key 1 t) else kvs_set key 1 t)
           in if opt_ge (kvs_get t key) (kvs_get t ''worker_sz'')
              then kvs_set key 0 (snd (kvs_incr ''server_clock'' 1 t)) else t)
        else t)
      in snd (kvs_incr key delta t))"

definition ssp_branch :: "env \<Rightarrow> string \<Rightarrow> string list \<Rightarrow> ssp \<Rightarrow> (string list \<times> ssp) res" where
  "ssp_branch E indicator msg t =
     (if indicator = ''push_int'' then
        rbind (msg_str E msg 1) (\<lambda>key. rbind (msg_int E msg 2) (\<lambda>val.
        Inr ([rep_bool E True], kvs_set key val t)))
      else if indicator = ''incr_int'' then
        rbind (msg_str E msg 1) (\<lambda>key. rbind (msg_int E msg 2) (\<lambda>delta.
        Inr ([rep_bool E True], ssp_incr_int key delta t)))
      else if indicator = ''pull_int'' then
        rbind (msg_str E msg 1) (\<lambda>key.
          let (exist, result) = kvs_get_into t key 0
          in Inr ((if \<not> exist then [''nokey''] else []) @ [pk_pack (mp_int (env_mp E)) result], t))
      else Inr ([], t))"

definition thrd_exec_ssp :: "env \<Rightarrow> string \<Rightarrow> ssp \<Rightarrow> (string list \<times> ssp) res" where
  "thrd_exec_ssp E scrip t =
     rbind (str_split_by_word (env_rx E) scrip seperator) (\<lambda>msg.
     rbind (msg_str E msg 0) (\<lambda>indicator. ssp_branch E indicator msg t))"

text \<open>
  The socket of a thread: a REP socket accepts exactly one send between two receives, a PULL
  socket none; anything else makes zmq throw.
\<close>

datatype sock_kind = REP | PULL

definition sends_ok :: "sock_kind \<Rightarrow> string list \<Rightarrow> bool" where
  "sends_ok k reps = (case k of REP \<Rightarrow> length reps = 1 | PULL \<Rightarrow> reps = [])"

section \<open>Lemmas\<close>

lemmas branch_defs = do_contains_def do_pull_def do_pull_multi_def do_pullall_def
  do_pullall_special_def do_register_def do_push_def do_push_multi_def do_update_def
  do_bupdate_multi_def do_remove_def do_remove_special_def do_clear_def

text \<open>The indicators whose branch answers.\<close>

definition replying_ops :: "string list" where
  "replying_ops =
     [''contains'', ''pull'', ''pull_multi'', ''pullall'', ''pullall_special'',
      ''register_pullall_special'', ''register_remove_special'', ''register_bupdate'',
      ''push'', ''push_multi'', ''bupdate'', ''bupdate_multi'', ''remove'', ''remove_special'',
      ''clear'']"

lemma branch_replies:
  "do_contains E msg th tbl = Inr (reps, st) \<Longrightarrow> length reps = 1"
  "do_pull E msg th tbl = Inr (reps, st) \<Longrightarrow> length reps = 1"
  "do_pull_multi E msg th tbl = Inr (reps, st) \<Longrightarrow> length reps = 1"
  "do_pullall E msg th tbl = Inr (reps, st) \<Longrightarrow> length reps = 1"
  "do_pullall_special E msg th tbl = Inr (reps, st) \<Longrightarrow> length reps = 1"
  "do_register dl b E msg th tbl = Inr (reps, st) \<Longrightarrow> length reps = (if b then 1 else 0)"
  "do_push E msg th tbl = Inr (reps, st) \<Longrightarrow> length reps = 1"
  "do_push_multi E msg th tbl = Inr (reps, st) \<Longrightarrow> length reps = 1"
  "do_update b E msg th tbl = Inr (reps, st) \<Longrightarrow> length reps = (if b then 1 else 0)"
  "do_bupdate_multi E msg th tbl = Inr (reps, st) \<Longrightarrow> length reps = 1"
  "do_remove E msg th tbl = Inr (reps, st) \<Longrightarrow> length reps = 1"
  "do_remove_special E msg th tbl = Inr (reps, st) \<Longrightarrow> length reps = 1"
  "do_clear E msg th tbl = Inr (reps, st) \<Longrightarrow> length reps = 1"
  by (auto simp: branch_defs res_simps Let_def case_prod_beta split: if_splits)

text \<open>No branch breaks the table.\<close>

lemma wf_kv_update: "wf_dict tbl \<Longrightarrow> kv_update k v f tbl = Inr (x, tbl') \<Longrightarrow> wf_dict tbl'"
  by (auto simp: kv_update_def res_simps kv.invar_insert split: option.splits)

lemma wf_kvs_update: "wf_dict tbl \<Longrightarrow> kvs_update ks vs f tbl = Inr (xs, tbl') \<Longrightarrow> wf_dict tbl'"
  by (induction ks vs f tbl arbitrary: xs tbl' rule: kvs_update.induct)
    (auto simp: res_simps dest: wf_kv_update)

lemma wf_kv_filter4remove: "wf_dict tbl \<Longrightarrow> kv_filter4remove f d tbl = Inr tbl' \<Longrightarrow> wf_dict tbl'"
  by (induction f d tbl rule: kv_filter4remove.induct)
    (auto simp: res_simps Let_def kv.invar_delete split: if_splits)

lemma wf_thrd_branch:
  "wf_dict tbl \<Longrightarrow> thrd_branch E ind msg th tbl = Inr (reps, th', tbl') \<Longrightarrow> wf_dict tbl'"
  unfolding thrd_branch_def
  by (auto simp: branch_defs res_simps Let_def case_prod_beta kvs_clean_def kv.invar_insert
      kv.invar_delete wf_kvs_set_multi
      split: if_splits dest: wf_kv_update wf_kvs_update wf_kv_filter4remove)

text \<open>Filters that decode every pair select exactly the pairs they accept.\<close>

lemma kv_filter4pullall_filter:
  "\<forall>(k, v) \<in> set d. f k v = Inr (g k v) \<Longrightarrow> wf_dict (new @ d) \<Longrightarrow>
     kv_filter4pullall (Some f) d new = Inr (new @ filter (\<lambda>(k, v). g k v) d)"
proof (induction d arbitrary: new)
  case (Cons p d)
  obtain k v where p: "p = (k, v)" by (cases p)
  have "dict_get new k = None"
    using Cons.prems(2) p by (auto simp: wf_dict_def dict_get_def map_of_eq_None_iff)
  then have "dict_set k v new = new @ [(k, v)]" by (rule dict_set_new)
  moreover have "wf_dict (new @ [(k, v)] @ d)" "wf_dict (new @ d)"
    using Cons.prems(2) p by (auto simp: wf_dict_def)
  ultimately show ?case using Cons p by (auto simp: call2_def)
qed simp

lemma kv_filter4remove_get:
  "\<forall>(k, v) \<in> set d. f k v = Inr (g k v) \<and> kvs_get tbl k = Some v \<Longrightarrow> wf_dict d \<Longrightarrow>
     \<exists>tbl'. kv_filter4remove (Some f) d tbl = Inr tbl' \<and>
       (\<forall>k. kvs_get tbl' k =
          (case dict_get d k of Some v \<Rightarrow> if g k v then None else Some v | None \<Rightarrow> kvs_get tbl k))"
proof (induction d arbitrary: tbl)
  case (Cons p d)
  obtain k v where p: "p = (k, v)" by (cases p)
  let ?tbl = "if g k v then snd (kvs_del k tbl) else tbl"
  have k: "kvs_get tbl k = Some v" "f k v = Inr (g k v)" using Cons.prems(1) p by auto
  have notin: "k \<notin> fst ` set d" and wf: "wf_dict d" using Cons.prems(2) p by (auto simp: wf_dict_def)
  then have "\<forall>(k, v) \<in> set d. f k v = Inr (g k v) \<and> kvs_get ?tbl k = Some v"
    using Cons.prems(1) p by (force simp: kv.lookup_delete)
  from Cons.IH [OF this wf] obtain tbl' where
    t: "kv_filter4remove (Some f) d ?tbl = Inr tbl'"
    "\<forall>k. kvs_get tbl' k =
      (case dict_get d k of Some v \<Rightarrow> if g k v then None else Some v | None \<Rightarrow> kvs_get ?tbl k)"
    by blast
  have "dict_get d k = None" using notin by (auto simp: dict_get_def map_of_eq_None_iff)
  then have "\<forall>k'. kvs_get tbl' k' =
      (case dict_get (p # d) k' of Some v \<Rightarrow> if g k' v then None else Some v | None \<Rightarrow> kvs_get tbl k')"
    using t(2) k p by (auto simp: kv.lookup_delete split: option.splits)
  moreover have "kv_filter4remove (Some f) (p # d) tbl = Inr tbl'"
    using t(1) k p by (simp add: call2_def Let_def kvs_get_into_get)
  ultimately show ?case by blast
qed simp

text \<open>A sequence of update rounds, as the mutex serialises them.\<close>

definition kv_updates :: "update_result option \<Rightarrow> (string \<times> string) list \<Rightarrow> tbl \<Rightarrow> tbl res" where
  "kv_updates f us tbl = rfold (\<lambda>(k, d) tbl. rbind (kv_update k d f tbl) (\<lambda>(_, tbl). Inr tbl)) us tbl"

definition delta_sum :: "string \<Rightarrow> (string \<times> int) list \<Rightarrow> int" where
  "delta_sum k us = (\<Sum>(k', d)\<leftarrow>us. if k' = k then d else 0)"

lemma delta_sum_snoc: "delta_sum k (us @ [(k', d)]) = delta_sum k us + (if k' = k then d else 0)"
  by (simp add: delta_sum_def)

lemma delta_sum_bounds:
  "\<forall>(k, d) \<in> set us. 0 \<le> d \<Longrightarrow> 0 \<le> delta_sum k us \<and> delta_sum k us \<le> sum_list (map snd us)"
  by (induction us) (auto simp: delta_sum_def)

lemma delta_sum_notin: "k \<notin> fst ` set us \<Longrightarrow> delta_sum k us = 0"
  by (induction us) (auto simp: delta_sum_def)

lemma kv_update_add:
  assumes "packable enc dec v" "packable enc dec d" "kvs_get tbl k = Some (pk_pack enc v)"
  shows "kv_update k (pk_pack enc d) (Some (update_proxy enc dec dec paracel_incr)) tbl =
    Inr (pk_pack enc (v + d), kvs_set k (pk_pack enc (v + d)) tbl)"
  using assms by (simp add: kv_update_def call2_def update_proxy_packed paracel_incr_def)

lemma kv_updates_sum:
  assumes "\<forall>i. 0 \<le> i \<and> i \<le> B \<longrightarrow> packable enc dec i"
  shows "\<forall>(k, d) \<in> set us. 0 \<le> d \<Longrightarrow> sum_list (map snd us) \<le> B \<Longrightarrow>
    \<exists>t. kv_updates (Some (update_proxy enc dec dec paracel_incr))
          (map (\<lambda>(k, d). (k, pk_pack enc d)) us) [] = Inr t \<and>
      (\<forall>k. kvs_get t k =
         (if k \<in> fst ` set us then Some (pk_pack enc (delta_sum k us)) else None))"
proof (induction us rule: rev_induct)
  case Nil
  then show ?case by (simp add: kv_updates_def kvs_get_def)
next
  case (snoc x us)
  obtain k d where x: "x = (k, d)" by (cases x)
  let ?f = "Some (update_proxy enc dec dec paracel_incr)"
  have d: "0 \<le> d" "\<forall>(k, d) \<in> set us. 0 \<le> d" "sum_list (map snd us) + d \<le> B"
    using snoc.prems x by auto
  then obtain t where t: "kv_updates ?f (map (\<lambda>(k, d). (k, pk_pack enc d)) us) [] = Inr t"
    "\<And>k. kvs_get t k = (if k \<in> fst ` set us then Some (pk_pack enc (delta_sum k us)) else None)"
    using snoc.IH by force
  have bnd: "0 \<le> delta_sum k us" "delta_sum k us \<le> sum_list (map snd us)"
    using delta_sum_bounds [OF d(2)] by auto
  then have ok: "packable enc dec (delta_sum k us)" "packable enc dec d"
    using assms d by auto
  have "kv_update k (pk_pack enc d) ?f t =
      Inr (pk_pack enc (delta_sum k us + d), kvs_set k (pk_pack enc (delta_sum k us + d)) t)"
  proof (cases "k \<in> fst ` set us")
    case True
    then show ?thesis using kv_update_add [OF ok] t(2) by simp
  next
    case False
    then show ?thesis using t(2) by (simp add: kv_update_def delta_sum_notin)
  qed
  then have "kv_updates ?f (map (\<lambda>(k, d). (k, pk_pack enc d)) (us @ [x])) [] =
      Inr (kvs_set k (pk_pack enc (delta_sum k us + d)) t)"
    using t(1) by (simp add: kv_updates_def rfold_append x)
  then show ?case
    using t(2) by (auto simp: kv.lookup_insert delta_sum_snoc x)
qed

text \<open>
  One commit of a worker as the clock thread sees it: the pair of the key's counter and the
  server clock, for \<open>W\<close> workers.
\<close>

definition clock_step :: "int \<Rightarrow> int \<times> int \<Rightarrow> int \<times> int" where
  "clock_step W = (\<lambda>(v, s). if W \<le> v + 1 then (1, s + 1) else (v + 2, s))"

definition clock_view :: "ssp \<Rightarrow> string \<Rightarrow> (int \<times> int) option" where
  "clock_view t key =
     (case (kvs_get t key, kvs_get t ''server_clock'') of
        (Some v, Some s) \<Rightarrow> Some (v, s) | _ \<Rightarrow> None)"

definition is_client_clock :: "string \<Rightarrow> bool" where
  "is_client_clock key \<longleftrightarrow> startswith key ''client_clock_''"

lemma client_clock_neq: "is_client_clock key \<Longrightarrow> key \<noteq> ''server_clock'' \<and> key \<noteq> ''worker_sz''"
  by (auto simp: is_client_clock_def startswith_prefix)

lemma ssp_incr_int_commit:
  assumes "is_client_clock key" "kvs_get t ''worker_sz'' = Some W" "clock_view t key = Some (v, s)"
  shows "clock_view (ssp_incr_int key 1 t) key = Some (clock_step W (v, s))"
    and "kvs_get (ssp_incr_int key 1 t) ''worker_sz'' = Some W"
  using assms client_clock_neq [OF assms(1)]
  by (auto simp: ssp_incr_int_def clock_view_def clock_step_def is_client_clock_def Let_def
      kvs_get_incr kv.lookup_insert opt_ge_def split: option.splits)

lemma ssp_commits:
  assumes "is_client_clock key" "kvs_get t ''worker_sz'' = Some W" "clock_view t key = Some vs"
  shows "clock_view ((ssp_incr_int key 1 ^^ n) t) key = Some ((clock_step W ^^ n) vs)
    \<and> kvs_get ((ssp_incr_int key 1 ^^ n) t) ''worker_sz'' = Some W"
proof (induction n)
  case (Suc n)
  obtain v s where "(clock_step W ^^ n) vs = (v, s)" by fastforce
  with Suc ssp_incr_int_commit [OF assms(1)] show ?case by simp
qed (use assms in simp)

lemma clock_steps_below:
  "1 \<le> W \<Longrightarrow> 2 * int n < W \<Longrightarrow> (clock_step W ^^ n) (1, s) = (1 + 2 * int n, s)"
  by (induction n) (auto simp: clock_step_def)

lemma clock_steps_period:
  assumes "1 \<le> W"
  shows "(clock_step W ^^ nat ((W + 1) div 2)) (1, s) = (1, s + 1)"
proof -
  obtain n where n: "nat ((W + 1) div 2) = Suc n" using assms by (cases "nat ((W + 1) div 2)") auto
  then have "2 * int n < W" "W \<le> 2 + 2 * int n" using assms by linarith+
  with assms clock_steps_below [of W n s] show ?thesis by (simp add: n clock_step_def)
qed

section \<open>Properties\<close>

text \<open>
  C17: whatever the state and the message, a round of a worker thread that does not
  fault sends exactly one reply when its indicator is one of the answering operations and
  none for \<open>update\<close>, \<open>register_update\<close> and unknown indicators: no branch answers twice, so a
  REP thread stays in step with its clients.
\<close>

theorem thrd_exec_replies:
  assumes "str_split_by_word (env_rx E) scrip seperator = Inr msg"
    and "msg_str E msg 0 = Inr indicator"
    and "thrd_exec E scrip th tbl = Inr (reps, th', tbl')"
  shows "length reps = (if indicator \<in> set replying_ops then 1 else 0)"
proof -
  have "thrd_branch E indicator msg th tbl = Inr (reps, th', tbl')"
    using assms by (simp add: thrd_exec_def)
  then show ?thesis
    unfolding thrd_branch_def replying_ops_def
    by (auto split: if_splits dest: branch_replies)
qed

theorem thrd_exec_replies_witness:
  "\<exists>reps. thrd_exec plain_env (pk_pack (\<lambda>s. s) ''clear'') new_thrd [(''k'', ''v'')] =
     Inr (reps, new_thrd, []) \<and> length reps = 1"
proof -
  let ?s = "pk_pack (\<lambda>s. s) ''clear''"
  have c: "clean seperator ?s"
    by (simp add: pk_pack_def le_encode_numeral, simp add: char_of_def, simp add: clean_Cons,
        simp add: seperator_def)
  have sp: "str_split_by_word (env_rx plain_env) ?s seperator = Inr [?s]"
    using str_split_by_word_join [of "env_rx plain_env" seperator "[?s]"] c
    by (simp add: literal_split_def seperator_def pk_pack_def)
  have "packable (\<lambda>s. s) Some ''clear''" by (simp add: packable_def)
  then have ind: "msg_str plain_env [?s] 0 = Inr ''clear''" by (simp add: msg_str_def pk.dec_enc)
  have run: "thrd_exec plain_env ?s new_thrd [(''k'', ''v'')] =
      Inr ([rep_bool plain_env True], new_thrd, [])"
    using sp ind by (simp add: thrd_exec_def thrd_branch_def do_clear_def kvs_clean_def)
  from thrd_exec_replies [OF sp ind run] show ?thesis using run by (simp add: replying_ops_def)
qed

text \<open>
  A registered filter selects the same pairs for reading and for removal. A
  \<open>pullall_special\<close> round answers with exactly the pairs the filter accepts; a
  \<open>remove_special\<close> round with the same filter deletes exactly those keys and keeps every
  other pair.
\<close>

theorem special_read_remove:
  assumes "wf_dict tbl" "length msg \<noteq> 3"
    and "pullall_special_f th = Some f" "remove_special_f th = Some f"
    and "\<forall>(k, v) \<in> set tbl. f k v = Inr (g k v)"
  shows "do_pullall_special E msg th tbl =
      Inr ([pk_pack (mp_dct (env_mp E)) (filter (\<lambda>(k, v). g k v) tbl)], th, tbl) \<and>
    (\<exists>tbl'. do_remove_special E msg th tbl = Inr ([rep_bool E True], th, tbl') \<and>
      (\<forall>k. kvs_get tbl' k =
        (case kvs_get tbl k of Some v \<Rightarrow> if g k v then None else Some v | None \<Rightarrow> None)))"
proof -
  have "\<forall>(k, v) \<in> set tbl. f k v = Inr (g k v) \<and> kvs_get tbl k = Some v"
    using assms(1,5) by (auto simp: kvs_get_def dict_get_iff)
  from kv_filter4remove_get [OF this assms(1)] obtain tbl' where
    "kv_filter4remove (Some f) tbl tbl = Inr tbl'"
    "\<forall>k. kvs_get tbl' k =
      (case dict_get tbl k of Some v \<Rightarrow> if g k v then None else Some v | None \<Rightarrow> kvs_get tbl k)"
    by blast
  then have "\<exists>tbl'. do_remove_special E msg th tbl = Inr ([rep_bool E True], th, tbl') \<and>
      (\<forall>k. kvs_get tbl' k =
        (case kvs_get tbl k of Some v \<Rightarrow> if g k v then None else Some v | None \<Rightarrow> None))"
    using assms(2,4)
    by (auto simp: do_remove_special_def kvs_getall_def kvs_get_def split: option.splits)
  moreover have "do_pullall_special E msg th tbl =
      Inr ([pk_pack (mp_dct (env_mp E)) (filter (\<lambda>(k, v). g k v) tbl)], th, tbl)"
    using assms kv_filter4pullall_filter [OF assms(5), of "[]"]
    by (simp add: do_pullall_special_def kvs_getall_def)
  ultimately show ?thesis by blast
qed

theorem special_read_remove_witness:
  "\<exists>tbl'. do_remove_special plain_env [''remove_special'']
       (new_thrd\<lparr>pullall_special_f := Some (\<lambda>k v. Inr (k = ''a'')),
          remove_special_f := Some (\<lambda>k v. Inr (k = ''a''))\<rparr>) [(''a'', ''x''), (''b'', ''y'')] =
     Inr ([rep_bool plain_env True],
       new_thrd\<lparr>pullall_special_f := Some (\<lambda>k v. Inr (k = ''a'')),
          remove_special_f := Some (\<lambda>k v. Inr (k = ''a''))\<rparr>, tbl') \<and>
     kvs_get tbl' ''a'' = None \<and> kvs_get tbl' ''b'' = Some ''y''"
proof -
  let ?f = "\<lambda>k (v :: string). Inr (k = ''a'') :: bool res"
  have "\<exists>tbl'. do_remove_special plain_env [''remove_special'']
       (new_thrd\<lparr>pullall_special_f := Some ?f, remove_special_f := Some ?f\<rparr>)
       [(''a'', ''x''), (''b'', ''y'')] =
     Inr ([rep_bool plain_env True],
       new_thrd\<lparr>pullall_special_f := Some ?f, remove_special_f := Some ?f\<rparr>, tbl') \<and>
      (\<forall>k. kvs_get tbl' k = (case kvs_get [(''a'', ''x''), (''b'', ''y'')] k of
         Some v \<Rightarrow> if k = ''a'' then None else Some v | None \<Rightarrow> None))"
    using special_read_remove [of "[(''a'', ''x''), (''b'', ''y'')]" "[''remove_special'']"
        "new_thrd\<lparr>pullall_special_f := Some ?f, remove_special_f := Some ?f\<rparr>" ?f
        "\<lambda>k v. k = ''a''" plain_env]
    by (simp add: wf_dict_def)
  then show ?thesis by (fastforce simp: kvs_get_def)
qed

text \<open>
  \<open>ERROR_ABORT\<close> does not abort. A \<open>remove_special\<close> round on a thread with no
  registered filter falls through the message: it answers true when the table is empty and
  calls an empty \<open>std::function\<close>, which throws, when it is not.
\<close>

theorem remove_special_unregistered:
  assumes "length msg \<noteq> 3" "remove_special_f th = None"
  shows "do_remove_special E msg th tbl =
    (if tbl = [] then Inr ([rep_bool E True], th, tbl) else Inl BadFunctionCall)"
  using assms by (cases tbl) (auto simp: do_remove_special_def kvs_getall_def call2_def)

theorem remove_special_unregistered_witness:
  "do_remove_special plain_env [''remove_special''] new_thrd [(''a'', ''x'')] = Inl BadFunctionCall"
  using remove_special_unregistered [of "[''remove_special'']" new_thrd plain_env "[(''a'', ''x'')]"]
  by (simp add: new_thrd_def)

text \<open>
  C26: updates with the default integer updater commute. Whatever the order in which
  the mutex serialises the updates of all workers, starting from an empty table every key
  ends with the packed sum of the deltas sent to it, and no other key appears; \<open>B\<close> bounds
  the non-negative deltas so that every intermediate sum is packable.
\<close>

theorem updates_any_order:
  assumes "\<forall>i. 0 \<le> i \<and> i \<le> B \<longrightarrow> packable enc dec i"
    and "\<forall>(k, d) \<in> set us. 0 \<le> d" "sum_list (map snd us) \<le> B"
    and "mset us' = mset us"
  shows "\<exists>t. kv_updates (Some (update_proxy enc dec dec paracel_incr))
        (map (\<lambda>(k, d). (k, pk_pack enc d)) us') [] = Inr t \<and>
    (\<forall>k. kvs_get t k = (if k \<in> fst ` set us then Some (pk_pack enc (delta_sum k us)) else None))"
proof -
  have eq: "sum_list (map h us') = sum_list (map h us)" for h :: "string \<times> int \<Rightarrow> int"
  proof -
    have "sum_mset (mset (map h us')) = sum_mset (mset (map h us))"
      by (simp only: mset_map assms(4))
    then show ?thesis by (simp only: sum_mset_sum_list)
  qed
  have set_eq: "set us' = set us" using assms(4) by (rule mset_eq_setD)
  have sums: "delta_sum k us' = delta_sum k us" for k
    by (simp only: delta_sum_def eq)
  have bnd: "\<forall>(k, d) \<in> set us'. 0 \<le> d" "sum_list (map snd us') \<le> B"
    using assms(2,3) by (simp_all only: set_eq eq)
  show ?thesis
    using kv_updates_sum [OF assms(1) bnd] by (simp only: set_eq sums)
qed

theorem updates_any_order_witness:
  "\<exists>t. kv_updates (Some (update_proxy (mp_int plain_msgpack) (um_int plain_msgpack)
          (um_int plain_msgpack) paracel_incr))
        (map (\<lambda>(k, d). (k, pk_pack (mp_int plain_msgpack) d)) [(''a'', 2), (''b'', 5), (''a'', 1)]) [] = Inr t \<and>
     kvs_get t ''a'' = Some (pk_pack (mp_int plain_msgpack) 3)"
proof -
  have ok: "\<forall>i. 0 \<le> i \<and> i \<le> 10 \<longrightarrow> packable (mp_int plain_msgpack) (um_int plain_msgpack) i"
    by (intro allI impI plain_int_ok) auto
  obtain t where "kv_updates (Some (update_proxy (mp_int plain_msgpack) (um_int plain_msgpack)
          (um_int plain_msgpack) paracel_incr))
        (map (\<lambda>(k, d). (k, pk_pack (mp_int plain_msgpack) d)) [(''a'', 2), (''b'', 5), (''a'', 1)]) [] = Inr t"
    "\<forall>k. kvs_get t k = (if k \<in> fst ` set [(''a'', 1), (''a'', 2), (''b'', 5)]
       then Some (pk_pack (mp_int plain_msgpack) (delta_sum k [(''a'', 1), (''a'', 2), (''b'', 5)])) else None)"
    using updates_any_order [OF ok, of "[(''a'', 1), (''a'', 2), (''b'', 5)]"
        "[(''a'', 2), (''b'', 5), (''a'', 1)]"] by auto
  then show ?thesis by (simp add: delta_sum_def del: plain_msgpack_simps)
qed

text \<open>
  C30: the clock thread counts every commit twice. It adds one to the counter of the
  worker clock, tests it against \<open>worker_sz\<close>, and then falls through to the generic increment,
  which adds the delta (1) again. From a counter just reset, the server clock advances after
  \<open>(W + 1) div 2\<close> commits, not after the \<open>W\<close> commits of all workers, and does not move before.
\<close>

theorem ssp_clock_half_period:
  assumes "is_client_clock key" "kvs_get t ''worker_sz'' = Some W" "1 \<le> W"
    and "clock_view t key = Some (1, s)"
  shows "clock_view ((ssp_incr_int key 1 ^^ nat ((W + 1) div 2)) t) key = Some (1, s + 1) \<and>
    (\<forall>n < nat ((W + 1) div 2).
       clock_view ((ssp_incr_int key 1 ^^ n) t) key = Some (1 + 2 * int n, s))"
proof -
  have "2 * int n < W" if "n < nat ((W + 1) div 2)" for n using that by linarith
  then show ?thesis
    using ssp_commits [OF assms(1,2,4)] clock_steps_period [OF assms(3)]
      clock_steps_below [OF assms(3)] by simp
qed

theorem ssp_clock_half_period_witness:
  "clock_view (ssp_incr_int ''client_clock_0'' 1
     [(''worker_sz'', 2), (''server_clock'', 0), (''client_clock_0'', 1)]) ''client_clock_0'' = Some (1, 1)"
proof -
  have "is_client_clock ''client_clock_0''" by code_simp
  then show ?thesis
    using ssp_clock_half_period [of "''client_clock_0''"
        "[(''worker_sz'', 2), (''server_clock'', 0), (''client_clock_0'', 1)]" 2 0]
    by (simp add: kvs_get_def clock_view_def)
qed

text \<open>
  A \<open>pull_int\<close> for a missing key sends the marker \<open>nokey\<close> and, with no \<open>else\<close>
  behind it, the packed zero as well: two sends for one request, which the REP socket of the
  clock thread refuses.
\<close>

theorem pull_int_missing_sends_twice:
  assumes "msg_str E msg 1 = Inr key" "kvs_get t key = None"
  shows "\<exists>reps. ssp_branch E ''pull_int'' msg t = Inr (reps, t) \<and>
    reps = [''nokey'', pk_pack (mp_int (env_mp E)) 0] \<and> \<not> sends_ok REP reps"
  using assms by (simp add: ssp_branch_def kvs_get_into_get sends_ok_def)

theorem pull_int_missing_sends_twice_witness:
  "\<exists>reps. ssp_branch plain_env ''pull_int'' [pk_pack (\<lambda>s. s) ''pull_int'', pk_pack (\<lambda>s. s) ''k''] [] =
     Inr (reps, []) \<and> \<not> sends_ok REP reps"
proof -
  have "packable (\<lambda>s. s) Some ''k''" by (simp add: packable_def)
  then have "msg_str plain_env [pk_pack (\<lambda>s. s) ''pull_int'', pk_pack (\<lambda>s. s) ''k''] 1 = Inr ''k''"
    by (simp add: msg_str_def pk.dec_enc)
  from pull_int_missing_sends_twice [OF this, of "[]"] show ?thesis by (auto simp: kvs_get_def)
qed

end
