(* ===== verification/Client.thy ===== *)
theory Client
  imports Server
begin

text \<open>
  \<open>include/client.hpp\<close>: the connection \<open>kvclt\<close> of a worker to one parameter server. Its
  state is the host, the five ports and the sockets opened so far, each created on first use.
  An operation packs its arguments, pastes them with the separator, sends the script on its
  socket and unpacks the reply.

  zmq is external: \<open>z_req\<close> sends on a REQ socket connected to an endpoint and receives the
  reply, \<open>z_push\<close> sends on a PUSH socket; both act on a world of the caller's choosing.
  Keys are strings, as everywhere in the code; values are of any type with a codec. A local
  variable the code leaves uninitialised is \<open>None\<close>, and reading it is a fault.
\<close>

section \<open>State\<close>

datatype sockname =
    P_contains | P_pull | P_pull_multi | P_pullall | P_push | P_push_multi | P_update
  | P_bupdate | P_bupdate_multi | P_remove | P_clear | P_ssp

datatype zkind = ZMQ_REQ | ZMQ_PUSH

record kvclt =
  host :: string
  ports_lst :: "string list"
  conn_prefix :: string
  socks :: "sockname \<Rightarrow> (zkind \<times> string) option"

record 'w zmq =
  z_req :: "string \<Rightarrow> string \<Rightarrow> 'w \<Rightarrow> (string \<times> 'w) res"
  z_push :: "string \<Rightarrow> string \<Rightarrow> 'w \<Rightarrow> 'w res"

record 'v vcodec =
  venc :: "'v \<Rightarrow> string"
  vdec :: "string \<Rightarrow> 'v option"

definition new_kvclt :: "string \<Rightarrow> string \<Rightarrow> kvclt" where
  "new_kvclt hostname ports =
     \<lparr>host = hostname, ports_lst = str_split ports (CHR '',''),
      conn_prefix = ''tcp://'' @ hostname @ '':'', socks = (\<lambda>_. None)\<rparr>"

text \<open>
  The test for \<open>nullptr\<close>, \<open>create_req_sock\<close> and \<open>create_push_sock\<close>: a new socket is connected
  to the prefix and the \<open>i\<close>-th port.
\<close>

definition get_sock :: "sockname \<Rightarrow> zkind \<Rightarrow> nat \<Rightarrow> kvclt \<Rightarrow> (string \<times> kvclt) res" where
  "get_sock nm kind i c =
     (case socks c nm of
        Some s \<Rightarrow> Inr (snd s, c)
      | None \<Rightarrow> rbind (nth_res (ports_lst c) i) (\<lambda>port.
          let info = conn_prefix c @ port
          in Inr (info, c\<lparr>socks := (socks c)(nm \<mapsto> (kind, info))\<rparr>)))"

section \<open>Scripts and replies\<close>

text \<open>\<open>paste\<close> packs each argument and joins them; the arguments come packed here.\<close>

definition paste :: "string list \<Rightarrow> string" where
  "paste args = join_words seperator args"

definition send_req ::
  "'w zmq \<Rightarrow> sockname \<Rightarrow> nat \<Rightarrow> string list \<Rightarrow> kvclt \<Rightarrow> 'w \<Rightarrow> (string \<times> kvclt \<times> 'w) res"
where
  "send_req Z nm i args c w =
     rbind (get_sock nm ZMQ_REQ i c) (\<lambda>(ep, c).
     rbind (z_req Z ep (paste args) w) (\<lambda>(data, w). Inr (data, c, w)))"

definition send_push ::
  "'w zmq \<Rightarrow> sockname \<Rightarrow> nat \<Rightarrow> string list \<Rightarrow> kvclt \<Rightarrow> 'w \<Rightarrow> (kvclt \<times> 'w) res"
where
  "send_push Z nm i args c w =
     rbind (get_sock nm ZMQ_PUSH i c) (\<lambda>(ep, c).
     rbind (z_push Z ep (paste args) w) (\<lambda>w. Inr (c, w)))"

text \<open>
  The three ways to read a reply. An empty reply only prints (\<open>ERROR_ABORT\<close>) and leaves the
  result as it was; the word \<open>nokey\<close> reports a missing key.
\<close>

definition recv_val :: "(string \<Rightarrow> 'v option) \<Rightarrow> string \<Rightarrow> 'v option \<Rightarrow> (bool \<times> 'v option) res" where
  "recv_val dec data val =
     (if data = [] then Inr (True, val)
      else if data = ''nokey'' then Inr (False, val)
      else rbind (pk_unpack dec data) (\<lambda>v. Inr (True, Some v)))"

definition recv_dct ::
  "msgpack \<Rightarrow> (string \<Rightarrow> 'v option) \<Rightarrow> string \<Rightarrow> (string, 'v) dict res"
where
  "recv_dct M dec data =
     (if data = [] then Inr []
      else rbind (pk_unpack (um_dct M) data) (\<lambda>tmp.
           rfold (\<lambda>(k, s) val. rbind (pk_unpack dec s) (\<lambda>v. Inr (dict_set k v val))) tmp []))"

definition recv_lst :: "msgpack \<Rightarrow> (string \<Rightarrow> 'v option) \<Rightarrow> string \<Rightarrow> 'v list res" where
  "recv_lst M dec data =
     (if data = [] then Inr []
      else rbind (pk_unpack (um_lst M) data) (\<lambda>tmp. rmapM (pk_unpack dec) tmp))"

text \<open>\<open>return r && stat;\<close> with \<open>stat\<close> possibly uninitialised.\<close>

definition and_stat :: "bool \<Rightarrow> bool option \<Rightarrow> bool res" where
  "and_stat r stat = (if r then of_opt UndefinedRead stat else Inr False)"

type_synonym ('r, 'w) clt_op = "kvclt \<Rightarrow> 'w \<Rightarrow> ('r \<times> kvclt \<times> 'w) res"

text \<open>The common end of the operations that answer with a status.\<close>

definition req_stat ::
  "msgpack \<Rightarrow> 'w zmq \<Rightarrow> sockname \<Rightarrow> nat \<Rightarrow> string list \<Rightarrow> bool option \<Rightarrow> (bool, 'w) clt_op"
where
  "req_stat M Z nm i args stat c w =
     rbind (send_req Z nm i args c w) (\<lambda>(data, c, w).
     rbind (recv_val (um_bool M) data stat) (\<lambda>(r, stat).
     rbind (and_stat r stat) (\<lambda>b. Inr (b, c, w))))"

section \<open>Operations\<close>

definition kvclt_contains :: "msgpack \<Rightarrow> 'w zmq \<Rightarrow> string \<Rightarrow> (bool, 'w) clt_op" where
  "kvclt_contains M Z key c w =
     rbind (send_req Z P_contains 0 [pack_str M ''contains'', pack_str M key] c w) (\<lambda>(data, c, w).
     rbind (recv_val (um_bool M) data (Some False)) (\<lambda>(r, val).
     rbind (of_opt UndefinedRead val) (\<lambda>val. Inr (val, c, w))))"

text \<open>\<open>pull<V>(key)\<close> asserts that the key exists; \<open>pull(key, val)\<close> reports it.\<close>

definition kvclt_pull :: "msgpack \<Rightarrow> 'w zmq \<Rightarrow> 'v vcodec \<Rightarrow> string \<Rightarrow> ('v, 'w) clt_op" where
  "kvclt_pull M Z V key c w =
     rbind (send_req Z P_pull 0 [pack_str M ''pull'', pack_str M key] c w) (\<lambda>(data, c, w).
     rbind (recv_val (vdec V) data None) (\<lambda>(r, val).
     if \<not> r then Inl AssertFailed
     else rbind (of_opt UndefinedRead val) (\<lambda>val. Inr (val, c, w))))"

definition kvclt_pull_into ::
  "msgpack \<Rightarrow> 'w zmq \<Rightarrow> 'v vcodec \<Rightarrow> string \<Rightarrow> 'v option \<Rightarrow> (bool \<times> 'v option, 'w) clt_op"
where
  "kvclt_pull_into M Z V key val c w =
     rbind (send_req Z P_pull 0 [pack_str M ''pull'', pack_str M key] c w) (\<lambda>(data, c, w).
     rbind (recv_val (vdec V) data val) (\<lambda>rv. Inr (rv, c, w)))"

definition kvclt_pull_multi ::
  "msgpack \<Rightarrow> 'w zmq \<Rightarrow> 'v vcodec \<Rightarrow> string list \<Rightarrow> ('v list, 'w) clt_op"
where
  "kvclt_pull_multi M Z V key_lst c w =
     rbind (send_req Z P_pull_multi 0 [pack_str M ''pull_multi'', pk_pack (mp_lst M) key_lst] c w)
       (\<lambda>(data, c, w). rbind (recv_lst M (vdec V) data) (\<lambda>val. Inr (val, c, w)))"

definition kvclt_pullall :: "msgpack \<Rightarrow> 'w zmq \<Rightarrow> 'v vcodec \<Rightarrow> ((string, 'v) dict, 'w) clt_op" where
  "kvclt_pullall M Z V c w =
     rbind (send_req Z P_pullall 0 [pack_str M ''pullall''] c w) (\<lambda>(data, c, w).
     rbind (recv_dct M (vdec V) data) (\<lambda>val. Inr (val, c, w)))"

definition kvclt_pullall_raw :: "msgpack \<Rightarrow> 'w zmq \<Rightarrow> (string, 'w) clt_op" where
  "kvclt_pullall_raw M Z c w = send_req Z P_pullall 0 [pack_str M ''pullall''] c w"

definition kvclt_pullall_special ::
  "msgpack \<Rightarrow> 'w zmq \<Rightarrow> 'v vcodec \<Rightarrow> (string \<times> string) option \<Rightarrow> ((string, 'v) dict, 'w) clt_op"
where
  "kvclt_pullall_special M Z V fn c w =
     rbind (send_req Z P_pullall 0
       (pack_str M ''pullall_special'' #
          (case fn of None \<Rightarrow> [] | Some (so_filename, func_name) \<Rightarrow>
             [pack_str M so_filename, pack_str M func_name])) c w) (\<lambda>(data, c, w).
     rbind (recv_dct M (vdec V) data) (\<lambda>val. Inr (val, c, w)))"

definition kvclt_register_pullall_special ::
  "msgpack \<Rightarrow> 'w zmq \<Rightarrow> string \<Rightarrow> string \<Rightarrow> (bool, 'w) clt_op"
where
  "kvclt_register_pullall_special M Z file_name func_name =
     req_stat M Z P_pullall 0
       [pack_str M ''register_pullall_special'', pack_str M file_name, pack_str M func_name] None"

definition kvclt_register_remove_special ::
  "msgpack \<Rightarrow> 'w zmq \<Rightarrow> string \<Rightarrow> string \<Rightarrow> (bool, 'w) clt_op"
where
  "kvclt_register_remove_special M Z file_name func_name =
     req_stat M Z P_remove 0
       [pack_str M ''register_remove_special'', pack_str M file_name, pack_str M func_name] None"

definition kvclt_register_update ::
  "msgpack \<Rightarrow> 'w zmq \<Rightarrow> string \<Rightarrow> string \<Rightarrow> (bool, 'w) clt_op"
where
  "kvclt_register_update M Z file_name func_name c w =
     rbind (send_push Z P_update 2
       [pack_str M ''register_update'', pack_str M file_name, pack_str M func_name] c w)
       (\<lambda>(c, w). Inr (True, c, w))"

definition kvclt_register_bupdate ::
  "msgpack \<Rightarrow> 'w zmq \<Rightarrow> string \<Rightarrow> string \<Rightarrow> (bool, 'w) clt_op"
where
  "kvclt_register_bupdate M Z file_name func_name =
     req_stat M Z P_bupdate 3
       [pack_str M ''register_bupdate'', pack_str M file_name, pack_str M func_name] None"

definition kvclt_push :: "msgpack \<Rightarrow> 'w zmq \<Rightarrow> 'v vcodec \<Rightarrow> string \<Rightarrow> 'v \<Rightarrow> (bool, 'w) clt_op" where
  "kvclt_push M Z V key val =
     req_stat M Z P_push 1 [pack_str M ''push'', pack_str M key, pk_pack (venc V) val] None"

definition kvclt_push_multi ::
  "msgpack \<Rightarrow> 'w zmq \<Rightarrow> 'v vcodec \<Rightarrow> string list \<Rightarrow> 'v list \<Rightarrow> (bool, 'w) clt_op"
where
  "kvclt_push_multi M Z V key_lst val_lst =
     (let pack_val_lst = map (pk_pack (venc V)) val_lst
      in req_stat M Z P_push_multi 1
           [pack_str M ''push_multi'', pk_pack (mp_lst M) key_lst, pk_pack (mp_lst M) pack_val_lst]
           None)"

definition kvclt_push_multi_dict ::
  "msgpack \<Rightarrow> 'w zmq \<Rightarrow> 'v vcodec \<Rightarrow> (string, 'v) dict \<Rightarrow> (bool, 'w) clt_op"
where
  "kvclt_push_multi_dict M Z V dct = kvclt_push_multi M Z V (map fst dct) (map snd dct)"

text \<open>The file and function name of the overloads that name an updater are an option.\<close>

definition fn_args :: "msgpack \<Rightarrow> (string \<times> string) option \<Rightarrow> string list" where
  "fn_args M fn =
     (case fn of None \<Rightarrow> []
      | Some (file_name, func_name) \<Rightarrow> [pack_str M file_name, pack_str M func_name])"

definition kvclt_update ::
  "msgpack \<Rightarrow> 'w zmq \<Rightarrow> 'v vcodec \<Rightarrow> string \<Rightarrow> 'v \<Rightarrow> (string \<times> string) option \<Rightarrow> (unit, 'w) clt_op"
where
  "kvclt_update M Z V key delta fn c w =
     rbind (send_push Z P_update 2
       ([pack_str M ''update'', pack_str M key, pk_pack (venc V) delta] @ fn_args M fn) c w)
       (\<lambda>(c, w). Inr ((), c, w))"

definition kvclt_bupdate ::
  "msgpack \<Rightarrow> 'w zmq \<Rightarrow> 'v vcodec \<Rightarrow> string \<Rightarrow> 'v \<Rightarrow> (string \<times> string) option \<Rightarrow>
   ('v \<times> bool, 'w) clt_op"
where
  "kvclt_bupdate M Z V key delta fn c w =
     rbind (send_req Z P_bupdate 3
       ([pack_str M ''bupdate'', pack_str M key, pk_pack (venc V) delta] @ fn_args M fn) c w)
       (\<lambda>(data, c, w).
     rbind (recv_val (vdec V) data None) (\<lambda>(r, val).
     rbind (of_opt UndefinedRead val) (\<lambda>val. Inr ((val, r), c, w))))"

definition kvclt_bupdate_multi ::
  "msgpack \<Rightarrow> 'w zmq \<Rightarrow> 'v vcodec \<Rightarrow> string list \<Rightarrow> 'v list \<Rightarrow> (string \<times> string) option \<Rightarrow>
   ('v list \<times> bool, 'w) clt_op"
where
  "kvclt_bupdate_multi M Z V key_lst val_lst fn c w =
     (let pack_val_lst = map (pk_pack (venc V)) val_lst
      in rbind (send_req Z P_bupdate_multi 3
           ([pack_str M ''bupdate_multi'', pk_pack (mp_lst M) key_lst,
             pk_pack (mp_lst M) pack_val_lst] @ fn_args M fn) c w) (\<lambda>(data, c, w).
         rbind (recv_lst M (vdec V) data) (\<lambda>val. Inr ((val, True), c, w))))"

definition kvclt_bupdate_multi_dict ::
  "msgpack \<Rightarrow> 'w zmq \<Rightarrow> 'v vcodec \<Rightarrow> (string, 'v) dict \<Rightarrow> (string \<times> string) option \<Rightarrow>
   ('v list \<times> bool, 'w) clt_op"
where
  "kvclt_bupdate_multi_dict M Z V dct fn =
     kvclt_bupdate_multi M Z V (map fst dct) (map snd dct) fn"

definition kvclt_remove :: "msgpack \<Rightarrow> 'w zmq \<Rightarrow> string \<Rightarrow> (bool, 'w) clt_op" where
  "kvclt_remove M Z key = req_stat M Z P_remove 0 [pack_str M ''remove'', pack_str M key] None"

definition kvclt_remove_special ::
  "msgpack \<Rightarrow> 'w zmq \<Rightarrow> (string \<times> string) option \<Rightarrow> (bool, 'w) clt_op"
where
  "kvclt_remove_special M Z fn =
     req_stat M Z P_remove 0 (pack_str M ''remove_special'' # fn_args M fn) None"

definition kvclt_clear :: "msgpack \<Rightarrow> 'w zmq \<Rightarrow> (bool, 'w) clt_op" where
  "kvclt_clear M Z = req_stat M Z P_clear 0 [pack_str M ''clear''] None"

text \<open>The clock operations, on port 4.\<close>

definition kvclt_push_int :: "msgpack \<Rightarrow> 'w zmq \<Rightarrow> string \<Rightarrow> int \<Rightarrow> (bool, 'w) clt_op" where
  "kvclt_push_int M Z key val =
     req_stat M Z P_ssp 4 [pack_str M ''push_int'', pack_str M key, pk_pack (mp_int M) val] (Some True)"

definition kvclt_incr_int :: "msgpack \<Rightarrow> 'w zmq \<Rightarrow> string \<Rightarrow> int \<Rightarrow> (bool, 'w) clt_op" where
  "kvclt_incr_int M Z key delta =
     req_stat M Z P_ssp 4 [pack_str M ''incr_int'', pack_str M key, pk_pack (mp_int M) delta] None"

definition kvclt_pull_int :: "msgpack \<Rightarrow> 'w zmq \<Rightarrow> string \<Rightarrow> (int, 'w) clt_op" where
  "kvclt_pull_int M Z key c w =
     rbind (send_req Z P_ssp 4 [pack_str M ''pull_int'', pack_str M key] c w) (\<lambda>(data, c, w).
     rbind (recv_val (um_int M) data (Some (-1))) (\<lambda>(r, val).
     rbind (of_opt UndefinedRead val) (\<lambda>val.
     if val = -1 \<or> \<not> r then Inl AssertFailed else Inr (val, c, w))))"

definition kvclt_pull_int_into ::
  "msgpack \<Rightarrow> 'w zmq \<Rightarrow> string \<Rightarrow> int option \<Rightarrow> (bool \<times> int option, 'w) clt_op"
where
  "kvclt_pull_int_into M Z key val c w =
     rbind (send_req Z P_ssp 4 [pack_str M ''pull_int'', pack_str M key] c w) (\<lambda>(data, c, w).
     rbind (recv_val (um_int M) data val) (\<lambda>rv. Inr (rv, c, w)))"

end
