(* ===== verification/Comm.thy ===== *)
theory Comm
  imports Server
begin

text \<open>
  \<open>include/utils/comm.hpp\<close>: what \<open>Comm\<close> builds on top of MPI point-to-point messages: the
  encodings of containers, and the collectives \<open>bcastring\<close>, \<open>alltoall\<close>, \<open>alltoallring\<close> and
  \<open>treereduce\<close>. MPI itself is a library: a channel between two ranks is the list of packets
  sent on it and not yet received, in order (MPI does not let messages of one sender, receiver
  and tag overtake each other). A receive on an empty channel blocks (\<open>NoProgress\<close>), one whose
  packet does not fit the buffer aborts.

  The collectives are written per rank. What a rank sends in \<open>alltoall\<close> and \<open>bcastring\<close> does
  not depend on what it receives and \<open>isend\<close> does not block, so the packets on a channel are
  those its sender's loop puts there, in the order of the loop.

  The locale \<open>wire\<close> is the contract between an encoding and the collectives; it is
  interpreted on the encodings of strings, lists of strings and lists of triples. Doubles are
  a type with the two library conversions \<open>std::to_string\<close> and \<open>std::stod\<close> as parameters.
\<close>

section \<open>Packets\<close>

datatype 'd packet = PInt int | PKey u64 | PDbl 'd | PStr string | PDbls "'d list"

record 'd dbl =
  dshow :: "'d \<Rightarrow> string"
  dread :: "string \<Rightarrow> 'd option"

definition seperator_inner :: string where
  "seperator_inner = ''_ps_''"

text \<open>\<open>(int)data.size()\<close>: the conversion keeps the low 32 bits.\<close>

definition int_of_size :: "nat \<Rightarrow> int" where
  "int_of_size n = signed_take_bit 31 (int n)"

lemma int_of_size [simp]: "n < 2 ^ 31 \<Longrightarrow> int_of_size n = int n"
  by (simp add: int_of_size_def signed_take_bit_int_eq_self)

text \<open>Builtin types travel as one packet.\<close>

fun recv_int :: "'d packet list \<Rightarrow> (int \<times> 'd packet list) res" where
  "recv_int [] = Inl NoProgress"
| "recv_int (PInt i # ps) = Inr (i, ps)"
| "recv_int (_ # ps) = Inl Aborted"

fun recv_key :: "'d packet list \<Rightarrow> (u64 \<times> 'd packet list) res" where
  "recv_key [] = Inl NoProgress"
| "recv_key (PKey k # ps) = Inr (k, ps)"
| "recv_key (_ # ps) = Inl Aborted"

text \<open>
  Containers: the size, then the elements. The receiver resizes its buffer, but not to zero: for
  an empty message \<open>data\<close> stays as it was. A message longer than announced does not fit.
\<close>

definition fill_buffer :: "int \<Rightarrow> 'a \<Rightarrow> 'a list \<Rightarrow> 'a list \<Rightarrow> 'a list res" where
  "fill_buffer sz dflt buf xs =
     (if sz < 0 then Inl RuntimeError
      else if nat sz < length xs then Inl Aborted
      else let data = (if sz \<noteq> 0 then resize_list (nat sz) dflt buf else buf)
           in Inr (xs @ drop (length xs) data))"

definition isend_str :: "string \<Rightarrow> 'd packet list" where
  "isend_str s = [PInt (int_of_size (length s)), PStr s]"

definition recv_str :: "string \<Rightarrow> 'd packet list \<Rightarrow> (string \<times> 'd packet list) res" where
  "recv_str buf ps =
     rbind (recv_int ps) (\<lambda>(sz, ps).
     case ps of
       [] \<Rightarrow> Inl NoProgress
     | PStr s # ps \<Rightarrow> rbind (fill_buffer sz (char_of (0 :: nat)) buf s) (\<lambda>data. Inr (data, ps))
     | _ \<Rightarrow> Inl Aborted)"

definition isend_dbls :: "'d list \<Rightarrow> 'd packet list" where
  "isend_dbls xs = [PInt (int_of_size (length xs)), PDbls xs]"

definition recv_dbls :: "'d \<Rightarrow> 'd list \<Rightarrow> 'd packet list \<Rightarrow> ('d list \<times> 'd packet list) res" where
  "recv_dbls zero buf ps =
     rbind (recv_int ps) (\<lambda>(sz, ps).
     case ps of
       [] \<Rightarrow> Inl NoProgress
     | PDbls xs # ps \<Rightarrow> rbind (fill_buffer sz zero buf xs) (\<lambda>data. Inr (data, ps))
     | _ \<Rightarrow> Inl Aborted)"

section \<open>Lists of strings\<close>

text \<open>\<open>isend\<close> joins the strings into one packet.\<close>

definition isend_strlst :: "string list \<Rightarrow> 'd packet list" where
  "isend_strlst strlst =
     PInt (int_of_size (length strlst)) # isend_str (join_words seperator strlst)"

text \<open>The blocking \<open>send\<close> sends one packet per string instead.\<close>

definition send_strlst :: "string list \<Rightarrow> 'd packet list" where
  "send_strlst strlst = PInt (int_of_size (length strlst)) # concat (map isend_str strlst)"

text \<open>
  The loops that store the pieces at \<open>lst[i]\<close>: past the end of the resized list it is
  undefined behaviour, and positions without a piece keep what they had.
\<close>

definition store_pieces :: "int \<Rightarrow> 'a \<Rightarrow> 'a list \<Rightarrow> 'a list \<Rightarrow> 'a list res" where
  "store_pieces sz dflt buf xs =
     (let lst = (if sz \<noteq> 0 then resize_list (nat sz) dflt buf else buf)
      in if sz < 0 then Inl RuntimeError
         else if length lst < length xs then Inl UndefinedRead
         else Inr (xs @ drop (length xs) lst))"

definition recv_strlst ::
  "(string \<Rightarrow> string \<Rightarrow> string list) \<Rightarrow> string list \<Rightarrow> 'd packet list \<Rightarrow> (string list \<times> 'd packet list) res"
where
  "recv_strlst rx buf ps =
     rbind (recv_int ps) (\<lambda>(sz, ps).
     rbind (recv_str [] ps) (\<lambda>(str_lst_str, ps).
     rbind (str_split_by_word rx str_lst_str seperator) (\<lambda>str_lst.
     rbind (store_pieces sz [] buf str_lst) (\<lambda>strlst. Inr (strlst, ps)))))"

section \<open>Triples\<close>

type_synonym 'd triple = "string \<times> string \<times> 'd"
type_synonym 'd compact_triple = "u64 \<times> u64 \<times> 'd"

text \<open>
  \<open>std::stoull\<close>: white space, an optional sign, the longest run of digits. It throws without a
  digit and above 64 bits; a minus sign negates in the word.
\<close>

definition is_space :: "char \<Rightarrow> bool" where
  "is_space c \<longleftrightarrow> c = CHR '' '' \<or> 9 \<le> (of_char c :: nat) \<and> (of_char c :: nat) \<le> 13"

definition stoull :: "string \<Rightarrow> u64 res" where
  "stoull s =
     (let s = dropWhile is_space s;
          (neg, s) = (if s \<noteq> [] \<and> hd s = CHR ''-'' then (True, tl s)
                      else if s \<noteq> [] \<and> hd s = CHR ''+'' then (False, tl s) else (False, s));
          ds = takeWhile is_digit s
      in if ds = [] then Inl InvalidArgument
         else if 2 ^ 64 \<le> digits_val ds then Inl OutOfRange
         else Inr (if neg then - word_of_nat (digits_val ds) else word_of_nat (digits_val ds)))"

definition pack_triple :: "'d dbl \<Rightarrow> 'd triple \<Rightarrow> string" where
  "pack_triple D = (\<lambda>(a, b, x). a @ seperator_inner @ b @ seperator_inner @ dshow D x)"

definition pack_compact :: "'d dbl \<Rightarrow> 'd compact_triple \<Rightarrow> string" where
  "pack_compact D = (\<lambda>(a, b, x).
     to_string (unat a) @ seperator_inner @ to_string (unat b) @ seperator_inner @ dshow D x)"

definition unpack_triple :: "'d dbl \<Rightarrow> (string \<Rightarrow> string \<Rightarrow> string list) \<Rightarrow> string \<Rightarrow> 'd triple res" where
  "unpack_triple D rx s =
     rbind (str_split_by_word rx s seperator_inner) (\<lambda>tpl.
     rbind (nth_res tpl 0) (\<lambda>a. rbind (nth_res tpl 1) (\<lambda>b. rbind (nth_res tpl 2) (\<lambda>x.
     rbind (of_opt InvalidArgument (dread D x)) (\<lambda>x. Inr (a, b, x))))))"

definition unpack_compact ::
  "'d dbl \<Rightarrow> (string \<Rightarrow> string \<Rightarrow> string list) \<Rightarrow> string \<Rightarrow> 'd compact_triple res"
where
  "unpack_compact D rx s =
     rbind (str_split_by_word rx s seperator_inner) (\<lambda>tpl.
     rbind (nth_res tpl 0) (\<lambda>a. rbind (stoull a) (\<lambda>a.
     rbind (nth_res tpl 1) (\<lambda>b. rbind (stoull b) (\<lambda>b.
     rbind (nth_res tpl 2) (\<lambda>x. rbind (of_opt InvalidArgument (dread D x)) (\<lambda>x.
     Inr (a, b, x))))))))"

text \<open>One triple: \<open>isend\<close> and \<open>recv\<close> use one string, the blocking \<open>send\<close> three messages.\<close>

definition isend_triple :: "'d dbl \<Rightarrow> 'd triple \<Rightarrow> 'd packet list" where
  "isend_triple D t = isend_str (pack_triple D t)"

definition send_triple :: "'d triple \<Rightarrow> 'd packet list" where
  "send_triple = (\<lambda>(a, b, x). isend_str a @ isend_str b @ [PDbl x])"

definition recv_triple ::
  "'d dbl \<Rightarrow> (string \<Rightarrow> string \<Rightarrow> string list) \<Rightarrow> 'd packet list \<Rightarrow> ('d triple \<times> 'd packet list) res"
where
  "recv_triple D rx ps =
     rbind (recv_str [] ps) (\<lambda>(s, ps). rbind (unpack_triple D rx s) (\<lambda>t. Inr (t, ps)))"

text \<open>Lists of triples: one string, the pieces joined; a single piece is followed by a separator.\<close>

definition pack_all :: "('a \<Rightarrow> string) \<Rightarrow> 'a list \<Rightarrow> string" where
  "pack_all pack ts =
     (case ts of [] \<Rightarrow> [] | [t] \<Rightarrow> pack t @ seperator | _ \<Rightarrow> join_words seperator (map pack ts))"

definition isend_list :: "('a \<Rightarrow> string) \<Rightarrow> 'a list \<Rightarrow> 'd packet list" where
  "isend_list pack ts = PInt (int_of_size (length ts)) # isend_str (pack_all pack ts)"

definition recv_list ::
  "(string \<Rightarrow> 'a res) \<Rightarrow> 'a \<Rightarrow> (string \<Rightarrow> string \<Rightarrow> string list) \<Rightarrow> 'a list \<Rightarrow> 'd packet list \<Rightarrow>
     ('a list \<times> 'd packet list) res"
where
  "recv_list unpack dflt rx buf ps =
     rbind (recv_int ps) (\<lambda>(sz, ps).
     rbind (recv_str [] ps) (\<lambda>(s, ps).
     rbind (str_split_by_word rx s seperator) (\<lambda>tpl_lst.
     rbind (rmapM unpack tpl_lst) (\<lambda>ts.
     rbind (store_pieces sz dflt buf ts) (\<lambda>ts. Inr (ts, ps))))))"

text \<open>The instances: lists of triples of strings and of identifiers, and the blocking sends.\<close>

definition isend_triples :: "'d dbl \<Rightarrow> 'd triple list \<Rightarrow> 'd packet list" where
  "isend_triples D = isend_list (pack_triple D)"

definition isend_compacts :: "'d dbl \<Rightarrow> 'd compact_triple list \<Rightarrow> 'd packet list" where
  "isend_compacts D = isend_list (pack_compact D)"

definition recv_triples ::
  "'d dbl \<Rightarrow> (string \<Rightarrow> string \<Rightarrow> string list) \<Rightarrow> 'd triple \<Rightarrow> 'd triple list \<Rightarrow> 'd packet list \<Rightarrow>
     ('d triple list \<times> 'd packet list) res"
where
  "recv_triples D rx dflt = recv_list (unpack_triple D rx) dflt rx"

definition recv_compacts ::
  "'d dbl \<Rightarrow> (string \<Rightarrow> string \<Rightarrow> string list) \<Rightarrow> 'd compact_triple \<Rightarrow> 'd compact_triple list \<Rightarrow>
     'd packet list \<Rightarrow> ('d compact_triple list \<times> 'd packet list) res"
where
  "recv_compacts D rx dflt = recv_list (unpack_compact D rx) dflt rx"

definition send_triples :: "'d triple list \<Rightarrow> 'd packet list" where
  "send_triples triple_lst = PInt (int_of_size (length triple_lst)) # concat (map send_triple triple_lst)"

definition send_dict_int :: "(u64, int) dict \<Rightarrow> 'd packet list" where
  "send_dict_int dct = PInt (int_of_size (length dct)) # concat (map (\<lambda>(key, val). [PKey key, PInt val]) dct)"

text \<open>
  Dictionaries: the size, then key and value of every entry. The receiver keeps one buffer for
  the keys and one for the values, and copies them into the dictionary after every entry.
\<close>

definition isend_dict :: "('k \<Rightarrow> 'd packet list) \<Rightarrow> ('v \<Rightarrow> 'd packet list) \<Rightarrow> ('k, 'v) dict \<Rightarrow> 'd packet list" where
  "isend_dict sk sv dct = PInt (int_of_size (length dct)) # concat (map (\<lambda>(k, v). sk k @ sv v) dct)"

fun recv_entries ::
  "('k \<Rightarrow> 'd packet list \<Rightarrow> ('k \<times> 'd packet list) res) \<Rightarrow>
   ('v \<Rightarrow> 'd packet list \<Rightarrow> ('v \<times> 'd packet list) res) \<Rightarrow> nat \<Rightarrow> 'k \<Rightarrow> 'v \<Rightarrow> ('k, 'v) dict \<Rightarrow>
     'd packet list \<Rightarrow> (('k, 'v) dict \<times> 'd packet list) res"
where
  "recv_entries rk rv 0 tmp_key tmp_val dct ps = Inr (dct, ps)"
| "recv_entries rk rv (Suc n) tmp_key tmp_val dct ps =
     rbind (rk tmp_key ps) (\<lambda>(tmp_key, ps). rbind (rv tmp_val ps) (\<lambda>(tmp_val, ps).
     recv_entries rk rv n tmp_key tmp_val (dict_set tmp_key tmp_val dct) ps))"

definition recv_dict ::
  "('k \<Rightarrow> 'd packet list \<Rightarrow> ('k \<times> 'd packet list) res) \<Rightarrow>
   ('v \<Rightarrow> 'd packet list \<Rightarrow> ('v \<times> 'd packet list) res) \<Rightarrow> 'k \<Rightarrow> 'v \<Rightarrow> ('k, 'v) dict \<Rightarrow>
     'd packet list \<Rightarrow> (('k, 'v) dict \<times> 'd packet list) res"
where
  "recv_dict rk rv k0 v0 dct ps =
     rbind (recv_int ps) (\<lambda>(sz, ps). recv_entries rk rv (nat sz) k0 v0 dct ps)"

section \<open>The collectives\<close>

text \<open>The partners of rank \<open>r\<close> in round \<open>i\<close>: \<open>f\<close> to receive from, \<open>t\<close> to send to.\<close>

definition ring_from :: "nat \<Rightarrow> nat \<Rightarrow> nat \<Rightarrow> nat" where
  "ring_from n r i = (r + i) mod n"

definition ring_to :: "nat \<Rightarrow> nat \<Rightarrow> nat \<Rightarrow> nat" where
  "ring_to n r i = (r + n - i) mod n"

text \<open>What the loop of rank \<open>s\<close> puts on the channel to rank \<open>d\<close>.\<close>

definition ring_sent :: "('a \<Rightarrow> 'p list) \<Rightarrow> nat \<Rightarrow> nat \<Rightarrow> (nat \<Rightarrow> 'a) \<Rightarrow> nat \<Rightarrow> 'p list" where
  "ring_sent isend n s out d =
     concat (map (\<lambda>i. if ring_to n s i = d then isend (out (ring_to n s i)) else []) [1..<n])"

text \<open>The receiving side: round by round, from the channel of the partner, into a callback.\<close>

definition ring_recv ::
  "('p list \<Rightarrow> ('a \<times> 'p list) res) \<Rightarrow> nat \<Rightarrow> nat \<Rightarrow> (nat \<Rightarrow> 'a \<Rightarrow> 's \<Rightarrow> 's) \<Rightarrow> (nat \<Rightarrow> 'p list) \<Rightarrow> 's \<Rightarrow> 's res"
where
  "ring_recv recv n r func chans s =
     rbind (rfold (\<lambda>i (s, chans).
         rbind (recv (chans (ring_from n r i))) (\<lambda>(x, ps).
         Inr (func i x s, chans(ring_from n r i := ps)))) [1..<n] (s, chans))
       (\<lambda>(s, chans). Inr s)"

definition bcastring ::
  "('a \<Rightarrow> 'p list) \<Rightarrow> ('p list \<Rightarrow> ('a \<times> 'p list) res) \<Rightarrow> ('a \<Rightarrow> 's \<Rightarrow> 's) \<Rightarrow> 's \<Rightarrow> 'a list \<Rightarrow> nat \<Rightarrow> 's res"
where
  "bcastring isend recv func s datas r =
     (let n = length datas; s = func (datas ! r) s
      in if n = 1 then Inr s
         else ring_recv recv n r (\<lambda>_. func) (\<lambda>f. ring_sent isend n f (\<lambda>_. datas ! f) r) s)"

text \<open>\<open>alltoall\<close>: the data received in a round is appended to \<open>rbuf[t]\<close>.\<close>

definition alltoall ::
  "('a list \<Rightarrow> 'p list) \<Rightarrow> ('p list \<Rightarrow> ('a list \<times> 'p list) res) \<Rightarrow> 'a list list list \<Rightarrow> nat \<Rightarrow>
     'a list list res"
where
  "alltoall isend recv sbufs r =
     (let n = length sbufs; sbuf = sbufs ! r;
          rbuf = (replicate (length sbuf) [])[r := sbuf ! r]
      in ring_recv recv n r (\<lambda>i tmpr rbuf. rbuf[ring_to n r i := rbuf ! ring_to n r i @ tmpr])
           (\<lambda>f. ring_sent isend n f (\<lambda>t. sbufs ! f ! t) r) rbuf)"

definition alltoallring ::
  "('a list \<Rightarrow> 'p list) \<Rightarrow> ('p list \<Rightarrow> ('a list \<times> 'p list) res) \<Rightarrow> ('a list \<Rightarrow> 's \<Rightarrow> 's) \<Rightarrow> 's \<Rightarrow>
     'a list list list \<Rightarrow> nat \<Rightarrow> 's res"
where
  "alltoallring isend recv func s sbufs r =
     (let n = length sbufs
      in ring_recv recv n r (\<lambda>_. func) (\<lambda>f. ring_sent isend n f (\<lambda>t. sbufs ! f ! t) r)
           (func (sbufs ! r ! r) s))"

text \<open>
  \<open>treereduce\<close>: the communication of one rank, the loop's variables \<open>rk\<close>, \<open>num\<close>, \<open>is_odd\<close>
  and \<open>depth\<close> as they change. A rank receives from the sources listed and ends with at most
  one send.
\<close>

datatype tr_op = TRecv nat | is_send: TSend nat

function tr_loop :: "nat \<Rightarrow> nat \<Rightarrow> nat \<Rightarrow> nat \<Rightarrow> tr_op list" where
  "tr_loop rk num is_odd depth =
     (if num \<le> 1 then []
      else if rk < num then
        (let is_odd = num mod 2
         in if rk mod 2 \<noteq> 0 then [TSend ((rk - 1) * depth)]
            else (if rk \<noteq> num - 1 then [TRecv ((rk + 1) * depth)] else []) @
              tr_loop (rk div 2) (num div 2 + is_odd) is_odd (depth * 2))
      else if num div 2 + is_odd < num then tr_loop rk (num div 2 + is_odd) is_odd depth
      else [])"
  by pat_completeness auto
termination
proof (relation "measure (\<lambda>(rk, num, is_odd, depth). num)")
  fix rk num is_odd depth x
  assume "\<not> num \<le> (1 :: nat)" "x = num mod 2"
  then show "((rk div 2, num div 2 + x, x, depth * 2), (rk, num, is_odd, depth))
      \<in> measure (\<lambda>(rk, num, is_odd, depth). num)"
    by simp presburger
qed auto

declare tr_loop.simps [simp del]

lemma tr_loop_end: "num \<le> 1 \<Longrightarrow> tr_loop rk num od depth = []"
  by (simp add: tr_loop.simps)

lemma tr_loop_odd: "1 < num \<Longrightarrow> rk < num \<Longrightarrow> odd rk \<Longrightarrow> tr_loop rk num od depth = [TSend ((rk - 1) * depth)]"
  by (subst tr_loop.simps) (auto simp: Let_def odd_iff_mod_2_eq_one)

lemma tr_loop_even:
  "1 < num \<Longrightarrow> rk < num \<Longrightarrow> even rk \<Longrightarrow> tr_loop rk num od depth =
     (if rk \<noteq> num - 1 then [TRecv ((rk + 1) * depth)] else []) @
     tr_loop (rk div 2) (num div 2 + num mod 2) (num mod 2) (depth * 2)"
  by (subst tr_loop.simps) (auto simp: Let_def even_iff_mod_2_eq_zero)

lemma tr_loop_recv:
  "rk < num \<Longrightarrow> (num - 1) * depth < n \<Longrightarrow> 0 < depth \<Longrightarrow> TRecv s \<in> set (tr_loop rk num od depth) \<Longrightarrow>
     rk * depth < s \<and> s < n"
proof (induction rk num od depth rule: tr_loop.induct)
  case (1 rk num od depth)
  let ?num = "num div 2 + num mod 2"
  have big: "1 < num" using "1.prems"(4) tr_loop_end [of num] by fastforce
  have ev: "even rk" using "1.prems"(1,4) big tr_loop_odd [of num rk] by fastforce
  have mem: "rk \<noteq> num - 1 \<and> s = (rk + 1) * depth \<or>
      TRecv s \<in> set (tr_loop (rk div 2) ?num (num mod 2) (depth * 2))"
    using "1.prems"(4) unfolding tr_loop_even [OF big "1.prems"(1) ev] by (auto split: if_splits)
  then show ?case
  proof
    assume s: "rk \<noteq> num - 1 \<and> s = (rk + 1) * depth"
    then have "rk + 1 \<le> num - 1" using "1.prems"(1) by linarith
    then have "s \<le> (num - 1) * depth" using s mult_le_mono1 by blast
    then show ?thesis using s "1.prems"(2,3) by simp
  next
    assume s: "TRecv s \<in> set (tr_loop (rk div 2) ?num (num mod 2) (depth * 2))"
    have "2 * (num div 2) + num mod 2 = num" "2 * (rk div 2) + rk mod 2 = rk" by simp_all
    then have half: "(?num - 1) * 2 \<le> num - 1" "rk div 2 < ?num" using big "1.prems"(1) by linarith+
    have "(?num - 1) * (depth * 2) \<le> (num - 1) * depth"
      using mult_le_mono1 [OF half(1), of depth] by (simp add: ac_simps)
    then have "(?num - 1) * (depth * 2) < n" using "1.prems"(2) by linarith
    then have "rk div 2 * (depth * 2) < s \<and> s < n"
      using "1.IH"(1) [OF _ "1.prems"(1) refl] big ev half(2) "1.prems"(3) s by (auto simp: mod_2_eq_odd)
    moreover have "rk div 2 * (depth * 2) = rk * depth" using ev by (auto elim!: evenE)
    ultimately show ?thesis by simp
  qed
qed

text \<open>
  The data of a rank when its loop ends: the values received, each the data of its sender when
  that sender's loop ended (a rank sends last), are folded in by \<open>func(recvbuf, data)\<close>.
\<close>

function tr_data :: "('a \<Rightarrow> 'a \<Rightarrow> 'a) \<Rightarrow> 'a list \<Rightarrow> nat \<Rightarrow> 'a" where
  "tr_data func datas r =
     (if r < length datas
      then fold (\<lambda>op data. case op of TRecv s \<Rightarrow> func (tr_data func datas s) data | TSend _ \<Rightarrow> data)
             (tr_loop r (length datas) 0 1) (datas ! r)
      else datas ! r)"
  by pat_completeness auto
termination
proof (relation "measure (\<lambda>(func, datas, r). length datas - r)")
  fix func :: "'a \<Rightarrow> 'a \<Rightarrow> 'a" and datas :: "'a list" and r op data s
  assume "r < length datas" "op \<in> set (tr_loop r (length datas) 0 1)" "op = TRecv s"
  then have "r < s \<and> s < length datas"
    using tr_loop_recv [of r "length datas" 1 "length datas" s 0] by simp
  then show "((func, datas, s), (func, datas, r)) \<in> measure (\<lambda>(func, datas, r). length datas - r)"
    by auto
qed auto

declare tr_data.simps [simp del]

text \<open>The result rank 0 holds is handed to \<open>rank\<close>; the other ranks return a default \<open>T\<close>.\<close>

definition treereduce :: "('a \<Rightarrow> 'a \<Rightarrow> 'a) \<Rightarrow> 'a \<Rightarrow> 'a list \<Rightarrow> nat \<Rightarrow> nat \<Rightarrow> 'a" where
  "treereduce func dflt datas rank me =
     (let r = (if me = 0 then tr_data func datas 0 else dflt)
      in if rank \<noteq> 0 \<and> me = rank then tr_data func datas 0 else r)"

section \<open>The contract of an encoding, and the collectives over it\<close>

locale wire =
  fixes isend :: "'a \<Rightarrow> 'p list"
    and recv :: "'p list \<Rightarrow> ('a \<times> 'p list) res"
    and ok :: "'a \<Rightarrow> bool"
    and norm :: "'a \<Rightarrow> 'a"
  assumes recv_isend: "ok x \<Longrightarrow> recv (isend x @ ps) = Inr (norm x, ps)"
begin

lemma recv_only: "ok x \<Longrightarrow> recv (isend x) = Inr (norm x, [])"
  using recv_isend [of x "[]"] by simp

lemma rfold_recv:
  "distinct (map g is) \<Longrightarrow> \<forall>i \<in> set is. chans (g i) = isend (x i) \<and> ok (x i) \<Longrightarrow>
     \<exists>chans'. rfold (\<lambda>i (s, chans). rbind (recv (chans (g i))) (\<lambda>(x, ps).
         Inr (func i x s, chans(g i := ps)))) is (s, chans) =
       Inr (fold (\<lambda>i. func i (norm (x i))) is s, chans')"
proof (induction "is" arbitrary: s chans)
  case (Cons i "is")
  have "\<exists>chans'. rfold (\<lambda>i (s, chans). rbind (recv (chans (g i))) (\<lambda>(x, ps).
         Inr (func i x s, chans(g i := ps)))) is (func i (norm (x i)) s, chans(g i := [])) =
       Inr (fold (\<lambda>i. func i (norm (x i))) is (func i (norm (x i)) s), chans')"
    using Cons.prems by (intro Cons.IH) (auto simp: image_iff)
  then show ?case using Cons.prems(2) by (simp add: recv_only del: fun_upd_apply)
qed simp

end

section \<open>Lemmas on the ring schedule\<close>

lemma concat_single:
  "distinct xs \<Longrightarrow> concat (map (\<lambda>i. if i = j then y else []) xs) = (if j \<in> set xs then y else [])"
  by (induction xs) auto

lemma ring_to_inverse:
  assumes "s < n" "d < n" "i < n"
  shows "ring_to n s i = d \<longleftrightarrow> i = (s + n - d) mod n"
proof -
  have a: "(s + n - i) mod n = (if i \<le> s then s - i else s + n - i)" for i
  proof (cases "i \<le> s")
    case True
    then have "s + n - i = (s - i) + n" by simp
    then have "(s + n - i) mod n = (s - i) mod n" by (simp only: mod_add_self2)
    then show ?thesis using True assms(1) by simp
  next
    case False
    then show ?thesis using assms(1) by simp
  qed
  show ?thesis unfolding ring_to_def a using assms by (auto split: if_splits)
qed

lemma ring_sent_single:
  assumes "s < n" "d < n" "s \<noteq> d"
  shows "ring_sent isend n s out d = isend (out d)"
proof -
  have "map (\<lambda>i. if ring_to n s i = d then isend (out (ring_to n s i)) else []) [1..<n] =
      map (\<lambda>i. if i = (s + n - d) mod n then isend (out d) else []) [1..<n]"
    by (intro map_cong [OF refl]) (use ring_to_inverse [OF assms(1,2)] in fastforce)
  moreover have "(s + n - d) mod n \<in> set [1..<n]"
  proof (cases "d \<le> s")
    case True
    then have "s + n - d = (s - d) + n" by simp
    then have "(s + n - d) mod n = (s - d) mod n" by (simp only: mod_add_self2)
    then show ?thesis using True assms by auto
  next
    case False
    then show ?thesis using assms by (auto simp: less_eq_Suc_le)
  qed
  ultimately show ?thesis by (simp only: ring_sent_def concat_single [OF distinct_upt] if_True)
qed

lemma ring_from_props:
  assumes "r < n" "1 \<le> i" "i < n"
  shows "ring_from n r i < n" "ring_from n r i \<noteq> r"
  using assms by (auto simp: ring_from_def mod_if)

lemma ring_from_distinct: "r < n \<Longrightarrow> distinct (map (ring_from n r) [1..<n])"
  by (auto simp: distinct_map inj_on_def ring_from_def mod_if split: if_splits)

lemma ring_to_props:
  assumes "r < n" "1 \<le> i" "i < n"
  shows "ring_to n r i < n" "ring_to n r i \<noteq> r"
  using assms by (auto simp: ring_to_def mod_if)

lemma ring_to_distinct: "r < n \<Longrightarrow> distinct (map (ring_to n r) [1..<n])"
  by (auto simp: distinct_map inj_on_def ring_to_def mod_if split: if_splits)

context wire
begin

text \<open>A rank's receives see exactly what every other rank has for it, each once.\<close>

lemma ring_recv_all:
  assumes "r < n" "\<forall>f < n. f \<noteq> r \<longrightarrow> ok (out f r)"
    and "\<forall>f < n. f \<noteq> r \<longrightarrow> chans f = ring_sent isend n f (out f) r"
  shows "ring_recv recv n r func chans s =
    Inr (fold (\<lambda>i. func i (norm (out (ring_from n r i) r))) [1..<n] s)"
proof -
  have "\<forall>i \<in> set [1..<n]. chans (ring_from n r i) = isend (out (ring_from n r i) r) \<and>
      ok (out (ring_from n r i) r)"
    using assms ring_from_props [OF assms(1)] by (auto simp: ring_sent_single)
  from rfold_recv [OF ring_from_distinct [OF assms(1)] this, of func s] show ?thesis
    by (auto simp: ring_recv_def)
qed

lemma fold_list_update:
  "distinct (map t is) \<Longrightarrow> \<forall>i \<in> set is. t i < length xs \<Longrightarrow>
     length (fold (\<lambda>i xs. xs[t i := xs ! t i @ y i]) is xs) = length xs \<and>
     (\<forall>i \<in> set is. fold (\<lambda>i xs. xs[t i := xs ! t i @ y i]) is xs ! t i = xs ! t i @ y i) \<and>
     (\<forall>j. j \<notin> t ` set is \<longrightarrow> fold (\<lambda>i xs. xs[t i := xs ! t i @ y i]) is xs ! j = xs ! j)"
proof (induction "is" arbitrary: xs)
  case (Cons i "is")
  let ?xs = "xs[t i := xs ! t i @ y i]"
  note IH = Cons.IH [of ?xs]
  have "\<forall>k \<in> set is. t k \<noteq> t i" using Cons.prems(1) by (auto simp: image_iff)
  then show ?case using IH Cons.prems by (auto simp: image_iff)
qed simp

end

context wire
begin

lemma bcastring_all:
  assumes "r < length datas" "\<forall>d \<in> set datas. ok d"
  shows "bcastring isend recv func s datas r =
    Inr (fold func (datas ! r # map (\<lambda>i. norm (datas ! ring_from (length datas) r i)) [1..<length datas]) s)"
proof (cases "length datas = 1")
  case True
  then show ?thesis by (simp add: bcastring_def Let_def)
next
  case False
  have "ring_recv recv (length datas) r (\<lambda>_. func)
      (\<lambda>f. ring_sent isend (length datas) f (\<lambda>_. datas ! f) r) (func (datas ! r) s) =
    Inr (fold (\<lambda>i. func (norm (datas ! ring_from (length datas) r i))) [1..<length datas] (func (datas ! r) s))"
    using ring_recv_all [of r "length datas" "\<lambda>f _. datas ! f"
        "\<lambda>f. ring_sent isend (length datas) f (\<lambda>_. datas ! f) r"] assms by simp
  then show ?thesis using False by (simp add: bcastring_def Let_def fold_map comp_def)
qed

end

locale list_wire = wire isend recv ok norm
    for isend :: "'a list \<Rightarrow> 'p list" and recv :: "'p list \<Rightarrow> ('a list \<times> 'p list) res"
    and ok :: "'a list \<Rightarrow> bool" and norm :: "'a list \<Rightarrow> 'a list"
begin

text \<open>What rank \<open>r\<close> ends with: the data for it from every rank, mirrored around \<open>r\<close>.\<close>

lemma alltoall_positions:
  assumes "r < length sbufs" "length (sbufs ! r) = length sbufs"
    and "\<forall>f < length sbufs. f \<noteq> r \<longrightarrow> ok (sbufs ! f ! r)"
  shows "alltoall isend recv sbufs r =
    Inr (map (\<lambda>j. if j = r then sbufs ! r ! r else norm (sbufs ! ((2 * r + length sbufs - j) mod length sbufs) ! r))
      [0..<length sbufs])"
proof -
  let ?n = "length sbufs" and ?t = "ring_to (length sbufs) r" and ?f = "ring_from (length sbufs) r"
  let ?y = "\<lambda>i. norm (sbufs ! ?f i ! r)"
  define rbuf where "rbuf = (replicate ?n [])[r := sbufs ! r ! r]"
  define res where "res = fold (\<lambda>i xs. xs[?t i := xs ! ?t i @ ?y i]) [1..<?n] rbuf"
  have run: "alltoall isend recv sbufs r = Inr res"
    using ring_recv_all [OF assms(1), of "\<lambda>f t. sbufs ! f ! t"
        "\<lambda>f. ring_sent isend ?n f (\<lambda>t. sbufs ! f ! t) r"] assms(2,3)
    by (simp add: alltoall_def Let_def rbuf_def res_def)
  have "\<forall>i \<in> set [1..<?n]. ?t i < length rbuf" using ring_to_props [OF assms(1)] by (auto simp: rbuf_def)
  from fold_list_update [OF ring_to_distinct [OF assms(1)] this, of ?y]
  have res: "length res = ?n" "\<And>i. 1 \<le> i \<Longrightarrow> i < ?n \<Longrightarrow> res ! ?t i = rbuf ! ?t i @ ?y i"
    "\<And>j. j \<notin> ?t ` {1..<?n} \<Longrightarrow> res ! j = rbuf ! j"
    by (simp_all add: res_def rbuf_def)
  have "res ! j = (if j = r then sbufs ! r ! r else norm (sbufs ! ((2 * r + ?n - j) mod ?n) ! r))"
    if j: "j < ?n" for j
  proof (cases "j = r")
    case True
    then have "j \<notin> ?t ` {1..<?n}" using ring_to_props(2) [OF assms(1)] by fastforce
    then show ?thesis using True res(3) assms(1) by (simp add: rbuf_def)
  next
    case False
    define i where "i = (r + ?n - j) mod ?n"
    have i: "i < ?n" unfolding i_def by (rule mod_less_divisor) (use assms(1) in linarith)
    then have tj: "?t i = j" using ring_to_inverse [OF assms(1) j i] by (simp add: i_def)
    then have "1 \<le> i" using False assms(1) by (cases "i = 0") (auto simp: ring_to_def)
    then have "res ! j = rbuf ! j @ ?y i" using res(2) [of i] tj i by simp
    moreover have "?f i = (2 * r + ?n - j) mod ?n"
      using j assms(1) by (simp add: ring_from_def i_def mod_add_right_eq mult_2 add.assoc)
    moreover have "rbuf ! j = []" using False j by (simp add: rbuf_def)
    ultimately show ?thesis using False by simp
  qed
  then have "res = map (\<lambda>j. if j = r then sbufs ! r ! r else norm (sbufs ! ((2 * r + ?n - j) mod ?n) ! r)) [0..<?n]"
    using res(1) by (intro nth_equalityI) auto
  with run show ?thesis by simp
qed

text \<open>Concatenated, that is the data of all ranks for \<open>r\<close>, each once.\<close>

lemma alltoall_exchange:
  assumes "r < length sbufs" "length (sbufs ! r) = length sbufs"
    and "\<forall>f < length sbufs. f \<noteq> r \<longrightarrow> ok (sbufs ! f ! r)"
  shows "\<exists>rbuf. alltoall isend recv sbufs r = Inr rbuf \<and>
    mset (concat rbuf) = (\<Sum>f \<in> {0..<length sbufs}. mset (if f = r then sbufs ! r ! r else norm (sbufs ! f ! r)))"
proof -
  let ?n = "length sbufs" and ?g = "\<lambda>f. if f = r then sbufs ! r ! r else norm (sbufs ! f ! r)"
  let ?m = "\<lambda>j. (2 * r + ?n - j) mod ?n"
  have m: "int (?m j) = (2 * int r - int j) mod int ?n" if "j < ?n" for j
  proof -
    have "int (2 * r + ?n - j) = (2 * int r - int j) + int ?n" using that by simp
    then show ?thesis by (simp add: zmod_int)
  qed
  have inv: "?m (?m j) = j" if j: "j < ?n" for j
  proof -
    have "?m j < ?n" using j by (intro mod_less_divisor) linarith
    then have "int (?m (?m j)) = (2 * int r - (2 * int r - int j) mod int ?n) mod int ?n"
      by (simp only: m j)
    also have "\<dots> = int j mod int ?n" by (simp add: mod_diff_right_eq)
    finally show ?thesis using j by simp
  qed
  have "?m r = r"
    using m [OF assms(1)] assms(1) by simp
  then have mr: "?m j = r \<longleftrightarrow> j = r" if j: "j < ?n" for j
    using inv [OF j] by metis
  have bij: "bij_betw ?m {0..<?n} {0..<?n}"
  proof (rule bij_betw_byWitness [of _ ?m])
    have "?m j < ?n" for j using assms(1) by (intro mod_less_divisor) linarith
    then show "?m ` {0..<?n} \<subseteq> {0..<?n}" "?m ` {0..<?n} \<subseteq> {0..<?n}" by auto
  qed (use inv in auto)
  have "mset (concat (map (\<lambda>j. if j = r then sbufs ! r ! r else norm (sbufs ! ?m j ! r)) [0..<?n])) =
      mset (concat (map (\<lambda>j. ?g (?m j)) [0..<?n]))"
    using mr by (intro arg_cong [where f = "\<lambda>xs. mset (concat xs)"] map_cong) auto
  also have "\<dots> = (\<Sum>j \<in> {0..<?n}. mset (?g (?m j)))"
    by (simp add: mset_concat sum_list_distinct_conv_sum_set comp_def)
  also have "\<dots> = (\<Sum>f \<in> {0..<?n}. mset (?g f))"
    using sum.reindex_bij_betw [OF bij, of "\<lambda>f. mset (?g f)"] .
  finally show ?thesis using alltoall_positions [OF assms] by blast
qed

end

section \<open>The encodings keep their contract\<close>

lemma recv_str_isend [simp]:
  "length s < 2 ^ 31 \<Longrightarrow> recv_str [] (isend_str s @ ps) = Inr (s, ps)"
  by (cases s) (auto simp: recv_str_def isend_str_def fill_buffer_def resize_list_def Let_def)

lemma isend_str_append: "isend_str s @ ps = PInt (int_of_size (length s)) # PStr s # ps"
  by (simp add: isend_str_def)

lemma store_pieces_all: "length xs = n \<Longrightarrow> store_pieces (int n) dflt [] xs = Inr xs"
  by (cases n) (auto simp: store_pieces_def Let_def)

text \<open>A final empty string is cut off by the splitter, and put back by the default of the list.\<close>

definition strlst_ok :: "(string \<Rightarrow> string \<Rightarrow> string list) \<Rightarrow> string list \<Rightarrow> bool" where
  "strlst_ok rx strs \<longleftrightarrow> literal_split rx seperator \<and> (\<forall>s \<in> set strs. clean seperator s) \<and>
     length strs < 2 ^ 31 \<and> length (join_words seperator strs) < 2 ^ 31"

lemma seperator_nonempty' [simp]: "seperator \<noteq> []" "seperator_inner \<noteq> []"
  by (simp_all add: seperator_def seperator_inner_def)

lemma split_empty: "literal_split rx sep \<Longrightarrow> str_split_by_word rx [] sep = Inr []"
  by (simp add: str_split_by_word_def literal_split_def)

lemma store_pieces_last:
  assumes "xs \<noteq> []"
  shows "store_pieces (int (length xs)) [] [] (if last xs = [] then butlast xs else xs) = Inr xs"
proof (cases "last xs = []")
  case True
  have "butlast xs @ [[]] = xs" using append_butlast_last_id [OF assms] True by simp
  moreover have n: "length xs - (length xs - 1) = 1" using assms by (cases xs) auto
  ultimately have "butlast xs @ replicate (length xs - (length xs - 1)) [] = xs" by simp
  then show ?thesis
    using True assms by (simp add: store_pieces_def Let_def resize_list_def)
qed (simp add: store_pieces_all)

lemma recv_strlst_isend:
  assumes "strlst_ok rx strs"
  shows "recv_strlst rx [] (isend_strlst strs @ ps) = Inr (strs, ps)"
proof -
  have ok: "literal_split rx seperator" "\<forall>s \<in> set strs. clean seperator s" "length strs < 2 ^ 31"
    "length (join_words seperator strs) < 2 ^ 31"
    using assms unfolding strlst_ok_def by blast+
  show ?thesis
  proof (cases "strs = []")
    case True
    then show ?thesis
      using split_empty [OF ok(1)] by (simp add: recv_strlst_def isend_strlst_def store_pieces_def)
  next
    case False
    show ?thesis
      using str_split_by_word_join [OF ok(1) _ False ok(2)] store_pieces_last [OF False] ok(3,4)
      by (simp add: recv_strlst_def isend_strlst_def)
  qed
qed

interpretation strlst: wire isend_strlst "recv_strlst rx []" "strlst_ok rx" id
  for rx
  by unfold_locales (simp add: recv_strlst_isend)

text \<open>Lists of packed records, for any record whose packed form unpacks.\<close>

definition rec_list_ok ::
  "(string \<Rightarrow> string \<Rightarrow> string list) \<Rightarrow> ('a \<Rightarrow> string) \<Rightarrow> (string \<Rightarrow> 'a res) \<Rightarrow> ('a \<Rightarrow> 'a) \<Rightarrow> 'a list \<Rightarrow> bool"
where
  "rec_list_ok rx pack unpack norm ts \<longleftrightarrow> literal_split rx seperator \<and>
     (\<forall>t \<in> set ts. clean seperator (pack t) \<and> pack t \<noteq> [] \<and> unpack (pack t) = Inr (norm t)) \<and>
     length ts < 2 ^ 31 \<and> length (pack_all pack ts) < 2 ^ 31"

lemma pack_all_split:
  assumes "literal_split rx seperator" "\<forall>t \<in> set ts. clean seperator (pack t) \<and> pack t \<noteq> []"
  shows "str_split_by_word rx (pack_all pack ts) seperator = Inr (map pack ts)"
proof (cases ts rule: list.exhaust [case_names Nil Cons])
  case Nil
  then show ?thesis using split_empty [OF assms(1)] by (simp add: pack_all_def)
next
  case (Cons t ts')
  show ?thesis
  proof (cases "ts' = []")
    case True
    have "str_split_by_word rx (join_words seperator [pack t, []]) seperator = Inr [pack t]"
      using assms Cons by (subst str_split_by_word_join) auto
    then show ?thesis using True Cons by (simp add: pack_all_def)
  next
    case False
    have "last (map pack ts) \<noteq> []" using assms(2) Cons by (auto simp: last_map)
    moreover have "pack_all pack ts = join_words seperator (map pack ts)"
      using False Cons by (cases ts') (auto simp: pack_all_def)
    ultimately show ?thesis
      using str_split_by_word_join [OF assms(1), of "map pack ts"] assms(2) Cons by simp
  qed
qed

lemma recv_list_isend:
  assumes "rec_list_ok rx pack unpack norm ts"
  shows "recv_list unpack dflt rx [] (isend_list pack ts @ ps) = Inr (map norm ts, ps)"
proof -
  have ok: "literal_split rx seperator" "\<forall>t \<in> set ts. clean seperator (pack t) \<and> pack t \<noteq> []"
    "\<forall>t \<in> set ts. unpack (pack t) = Inr (norm t)" "length ts < 2 ^ 31" "length (pack_all pack ts) < 2 ^ 31"
    using assms unfolding rec_list_ok_def by blast+
  have "rmapM unpack (map pack ts) = Inr (map norm ts)"
    using ok(3) by (induction ts) auto
  then show ?thesis
    using pack_all_split [OF ok(1,2)] store_pieces_all [of "map norm ts" "length ts" dflt] ok(4,5)
    by (simp add: recv_list_def isend_list_def)
qed

interpretation records: list_wire "isend_list pack" "recv_list unpack dflt rx []"
    "rec_list_ok rx pack unpack norm" "map norm"
  for pack unpack dflt rx norm
  by unfold_locales (rule recv_list_isend)

text \<open>
  Doubles that survive: the printed number is not empty, has none of the letters of the
  separators and reads back (as the number with the six decimals that were printed).
\<close>

definition dbl_ok :: "'d dbl \<Rightarrow> 'd \<Rightarrow> bool" where
  "dbl_ok D x \<longleftrightarrow> dshow D x \<noteq> [] \<and> CHR ''P'' \<notin> set (dshow D x) \<and> CHR ''p'' \<notin> set (dshow D x) \<and>
     dread D (dshow D x) \<noteq> None"

definition reread :: "'d dbl \<Rightarrow> 'd \<Rightarrow> 'd" where
  "reread D x = (case dread D (dshow D x) of Some y \<Rightarrow> y | None \<Rightarrow> x)"

lemma clean_letter:
  assumes "sep = CHR ''_'' # c # cs" "c \<noteq> CHR ''_''" "c \<notin> set tok"
  shows "clean sep tok"
  using assms(3)
proof (induction tok)
  case (Cons x tok)
  then have "\<not> prefix sep (x # tok @ sep)"
    using assms(1,2) by (cases tok) auto
  then show ?case using Cons by (simp add: clean_Cons)
qed simp

lemma clean_no_P: "CHR ''P'' \<notin> set tok \<Longrightarrow> clean seperator tok"
  by (rule clean_letter [of _ "CHR ''P''" "''ARACEL_''"]) (simp_all add: seperator_def)

lemma clean_no_p: "CHR ''p'' \<notin> set tok \<Longrightarrow> clean seperator_inner tok"
  by (rule clean_letter [of _ "CHR ''p''" "''s_''"]) (simp_all add: seperator_inner_def)

lemma to_string_letters:
  "CHR ''P'' \<notin> set (to_string n)" "CHR ''p'' \<notin> set (to_string n)"
  using to_string_digits [of n] by (auto simp: is_digit_def)

lemma stoull_to_string:
  assumes "n < 2 ^ 64"
  shows "stoull (to_string n) = Inr (word_of_nat n)"
proof -
  obtain c cs where c: "to_string n = c # cs" by (cases "to_string n") auto
  have digits: "\<forall>x \<in> set (to_string n). is_digit x" by (rule to_string_digits)
  then have "\<not> is_space c" "c \<noteq> CHR ''-''" "c \<noteq> CHR ''+''"
    using c by (auto simp: is_digit_def is_space_def)
  moreover have "takeWhile is_digit (to_string n) = to_string n"
    using digits by (simp add: takeWhile_eq_all_conv)
  ultimately show ?thesis
    using assms digits_val_to_string [of n] c by (simp add: stoull_def Let_def)
qed

lemma stoull_word: "stoull (to_string (unat (w :: u64))) = Inr w"
proof -
  have "unat w < 2 ^ LENGTH(64)" by (rule unsigned_less)
  then show ?thesis using stoull_to_string [of "unat w"] by simp
qed

lemma unpack_join:
  assumes "literal_split rx seperator_inner" "clean seperator_inner a" "clean seperator_inner b"
    "clean seperator_inner x" "x \<noteq> []"
  shows "str_split_by_word rx (a @ seperator_inner @ b @ seperator_inner @ x) seperator_inner = Inr [a, b, x]"
  using str_split_by_word_join [OF assms(1), of "[a, b, x]"] assms(2-5) by simp

lemma unpack_compact_pack:
  assumes "literal_split rx seperator_inner" "dbl_ok D x"
  shows "unpack_compact D rx (pack_compact D (a, b, x)) = Inr (a, b, reread D x)"
proof -
  have "str_split_by_word rx (pack_compact D (a, b, x)) seperator_inner =
      Inr [to_string (unat a), to_string (unat b), dshow D x]"
    using assms unfolding pack_compact_def prod.case
    by (intro unpack_join) (auto intro!: clean_no_p simp: to_string_letters dbl_ok_def)
  then show ?thesis
    using assms(2) by (auto simp: unpack_compact_def stoull_word dbl_ok_def reread_def)
qed

lemma unpack_triple_pack:
  assumes "literal_split rx seperator_inner" "dbl_ok D x" "clean seperator_inner a" "clean seperator_inner b"
  shows "unpack_triple D rx (pack_triple D (a, b, x)) = Inr (a, b, reread D x)"
proof -
  have "str_split_by_word rx (pack_triple D (a, b, x)) seperator_inner = Inr [a, b, dshow D x]"
    using assms unfolding pack_triple_def prod.case
    by (intro unpack_join) (auto intro!: clean_no_p simp: dbl_ok_def)
  then show ?thesis
    using assms(2) by (auto simp: unpack_triple_def dbl_ok_def reread_def)
qed

definition compacts_ok ::
  "'d dbl \<Rightarrow> (string \<Rightarrow> string \<Rightarrow> string list) \<Rightarrow> 'd compact_triple list \<Rightarrow> bool"
where
  "compacts_ok D rx ts \<longleftrightarrow> literal_split rx seperator \<and> literal_split rx seperator_inner \<and>
     (\<forall>(a, b, x) \<in> set ts. dbl_ok D x) \<and>
     length ts < 2 ^ 31 \<and> length (pack_all (pack_compact D) ts) < 2 ^ 31"

lemma compacts_rec_ok:
  assumes "compacts_ok D rx ts"
  shows "rec_list_ok rx (pack_compact D) (unpack_compact D rx) (\<lambda>(a, b, x). (a, b, reread D x)) ts"
proof -
  have "clean seperator (pack_compact D t) \<and> pack_compact D t \<noteq> [] \<and>
      unpack_compact D rx (pack_compact D t) = Inr ((\<lambda>(a, b, x). (a, b, reread D x)) t)"
    if t: "t \<in> set ts" for t
  proof -
    obtain a b x where t': "t = (a, b, x)" by (cases t)
    then have "dbl_ok D x" "literal_split rx seperator_inner"
      using assms t unfolding compacts_ok_def by fastforce+
    moreover have "CHR ''P'' \<notin> set (pack_compact D t)"
      using \<open>dbl_ok D x\<close> by (simp add: t' pack_compact_def to_string_letters dbl_ok_def seperator_inner_def)
    ultimately show ?thesis
      using unpack_compact_pack [of rx D x a b] by (auto simp: t' pack_compact_def intro: clean_no_P)
  qed
  then show ?thesis using assms by (simp add: compacts_ok_def rec_list_ok_def)
qed

section \<open>The tree\<close>

text \<open>\<open>low s\<close> is the greatest power of two that divides \<open>s\<close>: the depth at which rank \<open>s\<close> sends.\<close>

fun low :: "nat \<Rightarrow> nat" where
  "low s = (if s = 0 \<or> odd s then 1 else 2 * low (s div 2))"

declare low.simps [simp del]

lemma low_shift: "odd m \<Longrightarrow> low (m * 2 ^ j) = 2 ^ j"
proof (induction j)
  case 0
  then show ?case by (simp add: low.simps)
next
  case (Suc j)
  moreover have "m * 2 ^ Suc j div 2 = m * 2 ^ j" by simp
  moreover have "0 < m" using Suc.prems by (cases m) auto
  ultimately show ?case by (subst low.simps) simp
qed

lemma low_odd_part: "0 < s \<Longrightarrow> \<exists>m j. s = m * 2 ^ j \<and> odd m \<and> low s = 2 ^ j"
proof (induction s rule: low.induct)
  case (1 s)
  show ?case
  proof (cases "odd s")
    case True
    then show ?thesis by (intro exI [of _ s] exI [of _ 0]) (simp add: low.simps)
  next
    case False
    then obtain m j where "s div 2 = m * 2 ^ j" "odd m" "low (s div 2) = 2 ^ j"
      using 1 by (auto elim!: evenE)
    moreover have "s = 2 * (s div 2)" using False by simp
    ultimately have "s = m * 2 ^ Suc j" "odd m" by simp_all
    then have "s = m * 2 ^ Suc j \<and> odd m \<and> low s = 2 ^ Suc j" using low_shift [of m "Suc j"] by blast
    then show ?thesis by blast
  qed
qed

lemma low_le: "0 < s \<Longrightarrow> low s \<le> s"
  using low_odd_part [of s] by (auto simp: Suc_le_eq odd_pos)

text \<open>The invariant of the loop: \<open>num\<close> is what is left of \<open>n\<close> ranks at this depth.\<close>

definition tr_level :: "nat \<Rightarrow> nat \<Rightarrow> nat \<Rightarrow> nat \<Rightarrow> bool" where
  "tr_level n rk num depth \<longleftrightarrow> n \<le> num * depth \<and> (num - 1) * depth < n \<and> rk < num"

lemma tr_level_start: "r < n \<Longrightarrow> tr_level n r n 1"
  by (simp add: tr_level_def)

lemma tr_level_next:
  assumes "tr_level n rk num depth" "1 < num"
  shows "tr_level n (rk div 2) (num div 2 + num mod 2) (depth * 2)"
proof -
  let ?num = "num div 2 + num mod 2"
  have "2 * (num div 2) + num mod 2 = num" "2 * (rk div 2) + rk mod 2 = rk" by simp_all
  then have h: "(?num - 1) * 2 \<le> num - 1" "num \<le> ?num * 2" "rk div 2 < ?num"
    using assms by (simp_all add: tr_level_def, linarith+)
  have "num * depth \<le> ?num * (depth * 2)" "(?num - 1) * (depth * 2) \<le> (num - 1) * depth"
    using mult_le_mono1 [OF h(1), of depth] mult_le_mono1 [OF h(2), of depth] by (simp_all add: ac_simps)
  then show ?thesis using assms h(3) unfolding tr_level_def by linarith
qed

lemma tr_level_top: "tr_level n rk num depth \<Longrightarrow> \<not> 1 < num \<Longrightarrow> rk = 0 \<and> n \<le> depth"
  by (cases num) (auto simp: tr_level_def)

lemma tr_sends:
  "tr_level n rk num depth \<Longrightarrow> depth = 2 ^ j \<Longrightarrow>
     filter is_send (tr_loop rk num od depth) =
       (if rk = 0 then [] else [TSend (rk * depth - low (rk * depth))])"
proof (induction rk num od depth arbitrary: j rule: tr_loop.induct)
  case (1 rk num od depth)
  have rk: "rk < num" using "1.prems"(1) by (simp add: tr_level_def)
  consider "\<not> 1 < num" | "1 < num" "odd rk" | "1 < num" "even rk" by blast
  then show ?case
  proof cases
    case 1
    then show ?thesis using tr_level_top [OF "1.prems"(1)] tr_loop_end by simp
  next
    case 2
    then have "low (rk * depth) = depth" "rk \<noteq> 0" using "1.prems"(2) by (auto simp: low_shift odd_pos)
    then show ?thesis using tr_loop_odd [OF 2(1) rk 2(2)] by (simp add: diff_mult_distrib)
  next
    case 3
    let ?num = "num div 2 + num mod 2"
    have rec: "filter is_send (tr_loop (rk div 2) ?num (num mod 2) (depth * 2)) =
        (if rk div 2 = 0 then [] else [TSend (rk div 2 * (depth * 2) - low (rk div 2 * (depth * 2)))])"
      using "1.IH"(1) [OF _ rk refl _ tr_level_next [OF "1.prems"(1) 3(1)], of "Suc j"] 3 "1.prems"(2)
      by (auto simp: mod_2_eq_odd)
    have same: "rk div 2 * (depth * 2) = rk * depth" "rk div 2 = 0 \<longleftrightarrow> rk = 0"
      using 3(2) by (auto elim!: evenE)
    show ?thesis unfolding tr_loop_even [OF 3(1) rk 3(2)] filter_append rec same by simp
  qed
qed

text \<open>A rank at a depth receives from those whose own depth is at least this one.\<close>

lemma tr_recvs:
  "tr_level n rk num depth \<Longrightarrow> depth = 2 ^ j \<Longrightarrow>
     TRecv s \<in> set (tr_loop rk num od depth) \<longleftrightarrow>
       rk * depth < s \<and> s < n \<and> s - low s = rk * depth \<and> depth \<le> low s"
proof (induction rk num od depth arbitrary: j rule: tr_loop.induct)
  case (1 rk num od depth)
  have rk: "rk < num" using "1.prems"(1) by (simp add: tr_level_def)
  consider "\<not> 1 < num" | "1 < num" "odd rk" | "1 < num" "even rk" by blast
  then show ?case
  proof cases
    case 1
    have "\<not> (0 < s \<and> s < n \<and> s - low s = 0 \<and> depth \<le> low s)" if n: "n \<le> depth"
    proof
      assume s: "0 < s \<and> s < n \<and> s - low s = 0 \<and> depth \<le> low s"
      then obtain m i where m: "s = m * 2 ^ i" "odd m" "low s = 2 ^ i" using low_odd_part [of s] by blast
      then have "2 ^ i \<le> s" by (cases m) auto
      then show False using s m(3) n by linarith
    qed
    then show ?thesis using 1 tr_level_top [OF "1.prems"(1) 1] tr_loop_end by auto
  next
    case 2
    have False if s: "rk * depth < s" "s - low s = rk * depth" "depth \<le> low s"
    proof -
      obtain m i where m: "s = m * 2 ^ i" "odd m" "low s = 2 ^ i" using low_odd_part [of s] s(1) by auto
      then have "j \<le> i" using s(3) "1.prems"(2) by simp
      then have "(2 :: nat) ^ i = 2 ^ (i - j) * 2 ^ j" by (simp flip: power_add)
      moreover have "(m - 1) * 2 ^ i = rk * 2 ^ j" using m s(2) "1.prems"(2) by (simp add: diff_mult_distrib)
      ultimately have "rk * 2 ^ j = (m - 1) * 2 ^ (i - j) * 2 ^ j" by simp
      then have "rk = (m - 1) * 2 ^ (i - j)" by simp
      then show False using 2(2) m(2) by (simp add: odd_pos)
    qed
    then show ?thesis using tr_loop_odd [OF 2(1) rk 2(2)] by auto
  next
    case 3
    let ?num = "num div 2 + num mod 2"
    have rec: "TRecv s \<in> set (tr_loop (rk div 2) ?num (num mod 2) (depth * 2)) \<longleftrightarrow>
        rk div 2 * (depth * 2) < s \<and> s < n \<and> s - low s = rk div 2 * (depth * 2) \<and> depth * 2 \<le> low s"
      using "1.IH"(1) [OF _ rk refl _ tr_level_next [OF "1.prems"(1) 3(1)], of "Suc j"] 3 "1.prems"(2)
      by (auto simp: mod_2_eq_odd)
    have same: "rk div 2 * (depth * 2) = rk * depth" using 3(2) by (auto elim!: evenE)
    have own: "rk \<noteq> num - 1 \<and> s = (rk + 1) * depth \<longleftrightarrow>
        rk * depth < s \<and> s < n \<and> s - low s = rk * depth \<and> low s = depth"
    proof
      assume s: "rk \<noteq> num - 1 \<and> s = (rk + 1) * depth"
      then have "rk + 1 \<le> num - 1" using rk by linarith
      then have "s \<le> (num - 1) * depth" using s mult_le_mono1 by blast
      moreover have "low s = depth" using s "1.prems"(2) 3(2) low_shift [of "rk + 1" j] by simp
      ultimately show "rk * depth < s \<and> s < n \<and> s - low s = rk * depth \<and> low s = depth"
        using s "1.prems" by (simp add: tr_level_def)
    next
      assume s: "rk * depth < s \<and> s < n \<and> s - low s = rk * depth \<and> low s = depth"
      then have "depth \<le> s" using low_le [of s] by simp
      then have "s = rk * depth + depth" using s by linarith
      then have e: "s = (rk + 1) * depth" by simp
      moreover have "rk \<noteq> num - 1"
      proof
        assume "rk = num - 1"
        then have "rk + 1 = num" using 3(1) by linarith
        then show False using s "1.prems"(1) e by (simp only: tr_level_def) linarith
      qed
      ultimately show "rk \<noteq> num - 1 \<and> s = (rk + 1) * depth" by blast
    qed
    have pow: "depth \<le> low s \<longleftrightarrow> low s = depth \<or> depth * 2 \<le> low s" if s: "0 < s"
    proof -
      obtain i where "low s = 2 ^ i" using low_odd_part [OF s] by blast
      moreover have "(2 :: nat) ^ j * 2 = 2 ^ Suc j" by simp
      ultimately show ?thesis
        using "1.prems"(2) by (auto simp: power_increasing_iff le_less Suc_le_eq simp del: power_Suc)
    qed
    have "TRecv s \<in> set (tr_loop rk num od depth) \<longleftrightarrow>
        rk \<noteq> num - 1 \<and> s = (rk + 1) * depth \<or> TRecv s \<in> set (tr_loop (rk div 2) ?num (num mod 2) (depth * 2))"
      unfolding tr_loop_even [OF 3(1) rk 3(2)] by auto
    then show ?thesis unfolding rec own same using pow by (cases "0 < s") auto
  qed
qed

text \<open>The values: products over ranges of ranks.\<close>

definition rng :: "('a \<Rightarrow> 'a \<Rightarrow> 'a) \<Rightarrow> 'a list \<Rightarrow> nat \<Rightarrow> nat \<Rightarrow> 'a" where
  "rng op d a b = foldl op (d ! a) (map ((!) d) [Suc a..<b])"

lemma foldl_assoc:
  "(\<And>x y z. op (op x y) z = op x (op y z)) \<Longrightarrow> foldl op (op x y) zs = op x (foldl op y zs)"
  by (induction zs arbitrary: y) simp_all

lemma rng_append:
  assumes "\<And>x y z. op (op x y) z = op x (op y z)" "a < b" "b < c"
  shows "op (rng op d a b) (rng op d b c) = rng op d a c"
proof -
  have "[Suc a..<c] = [Suc a..<b] @ b # [Suc b..<c]"
    using assms(2,3) by (metis Suc_leI less_imp_le_nat upt_conv_Cons upt_split)
  then show ?thesis by (simp add: rng_def foldl_assoc [OF assms(1)])
qed

abbreviation tr_step :: "('a \<Rightarrow> 'a \<Rightarrow> 'a) \<Rightarrow> (nat \<Rightarrow> 'a) \<Rightarrow> tr_op \<Rightarrow> 'a \<Rightarrow> 'a" where
  "tr_step func tr \<equiv> (\<lambda>op data. case op of TRecv s \<Rightarrow> func (tr s) data | TSend _ \<Rightarrow> data)"

lemma tr_fold:
  assumes assoc: "\<And>x y z. op (op x y) z = op x (op y z)"
  shows "tr_level n rk num depth \<Longrightarrow> depth = 2 ^ j \<Longrightarrow>
     (\<And>s. rk * depth < s \<Longrightarrow> s < n \<Longrightarrow> tr s = rng op d s (min (s + low s) n)) \<Longrightarrow>
     fold (tr_step (\<lambda>y x. op x y) tr) (tr_loop rk num od depth)
       (rng op d (rk * depth) (min ((rk + 1) * depth) n)) =
     rng op d (rk * depth) (if rk = 0 then n else min (rk * depth + low (rk * depth)) n)"
proof (induction rk num od depth arbitrary: j rule: tr_loop.induct)
  case (1 rk num od depth)
  have rk: "rk < num" using "1.prems"(1) by (simp add: tr_level_def)
  consider "\<not> 1 < num" | "1 < num" "odd rk" | "1 < num" "even rk" by blast
  then show ?case
  proof cases
    case 1
    then show ?thesis using tr_level_top [OF "1.prems"(1) 1] tr_loop_end by (simp add: min_absorb2)
  next
    case 2
    then have "low (rk * depth) = depth" "rk \<noteq> 0" using "1.prems"(2) by (auto simp: low_shift odd_pos)
    then show ?thesis using tr_loop_odd [OF 2(1) rk 2(2)] by (simp add: add.commute)
  next
    case 3
    let ?num = "num div 2 + num mod 2" and ?R = "rk * depth" and ?f = "tr_step (\<lambda>y x. op x y) tr"
    have same: "rk div 2 * (depth * 2) = ?R" "(rk div 2 + 1) * (depth * 2) = (rk + 2) * depth"
      "rk div 2 = 0 \<longleftrightarrow> rk = 0"
      using 3(2) by (auto elim!: evenE simp: algebra_simps)
    have rec: "fold ?f (tr_loop (rk div 2) ?num (num mod 2) (depth * 2)) (rng op d ?R (min ((rk + 2) * depth) n)) =
        rng op d ?R (if rk = 0 then n else min (?R + low ?R) n)"
      using "1.IH"(1) [OF _ rk refl _ tr_level_next [OF "1.prems"(1) 3(1)], of "Suc j"] 3 "1.prems"(2,3)
      unfolding same by (simp add: mod_2_eq_odd)
    have "fold ?f (if rk \<noteq> num - 1 then [TRecv ((rk + 1) * depth)] else [])
        (rng op d ?R (min ((rk + 1) * depth) n)) = rng op d ?R (min ((rk + 2) * depth) n)"
    proof (cases "rk = num - 1")
      case True
      then have "rk + 1 = num" using 3(1) by linarith
      then have "n \<le> (rk + 1) * depth" using "1.prems"(1) by (simp only: tr_level_def)
      then show ?thesis using True by (simp add: min_absorb2)
    next
      case False
      let ?s = "(rk + 1) * depth"
      have "rk + 1 \<le> num - 1" using False rk by linarith
      then have "?s \<le> (num - 1) * depth" by (rule mult_le_mono1)
      then have s: "?R < ?s" "?s < n" using "1.prems"(1,2) by (auto simp: tr_level_def)
      moreover have "low ?s = depth" using "1.prems"(2) 3(2) low_shift [of "rk + 1" j] by simp
      ultimately have "tr ?s = rng op d ?s (min (?s + depth) n)" using "1.prems"(3) [of ?s] by simp
      then have "op (rng op d ?R ?s) (tr ?s) = rng op d ?R (min (?s + depth) n)"
        using rng_append [OF assoc, of ?R ?s "min (?s + depth) n"] s "1.prems"(2) by simp
      then show ?thesis using False s(2) by (simp add: min_absorb1 algebra_simps)
    qed
    then show ?thesis unfolding tr_loop_even [OF 3(1) rk 3(2)] fold_append comp_apply by (simp only: rec)
  qed
qed

lemma tr_data_range:
  assumes assoc: "\<And>x y z. op (op x y) z = op x (op y z)"
  shows "r < length datas \<Longrightarrow> tr_data (\<lambda>y x. op x y) datas r =
    rng op datas r (if r = 0 then length datas else min (r + low r) (length datas))"
proof (induction "length datas - r" arbitrary: r rule: less_induct)
  case less
  have "tr_data (\<lambda>y x. op x y) datas s = rng op datas s (min (s + low s) (length datas))"
    if "r * 1 < s" "s < length datas" for s
    using less.hyps [of s] that less.prems by simp
  from tr_fold [where j = 0, OF assoc tr_level_start [OF less.prems] _ this]
  have "fold (tr_step (\<lambda>y x. op x y) (tr_data (\<lambda>y x. op x y) datas)) (tr_loop r (length datas) 0 1)
      (rng op datas r (min (r + 1) (length datas))) =
    rng op datas r (if r = 0 then length datas else min (r + low r) (length datas))" by simp
  moreover have "rng op datas r (min (r + 1) (length datas)) = datas ! r"
    using less.prems by (simp add: rng_def)
  ultimately show ?case using less.prems by (simp add: tr_data.simps [of _ datas r])
qed

section \<open>Properties\<close>

text \<open>For concrete runs: numbers printed in decimal, the literal splitter.\<close>

definition nat_dbl :: "nat dbl" where
  "nat_dbl = \<lparr>dshow = to_string, dread = (\<lambda>s. if s \<noteq> [] \<and> (\<forall>c \<in> set s. is_digit c) then Some (digits_val s) else None)\<rparr>"

lemma dshow_nat_dbl [simp]: "dshow nat_dbl = to_string"
  by (simp add: nat_dbl_def)

lemma nat_dbl_ok: "dbl_ok nat_dbl x" "reread nat_dbl x = x"
  using to_string_digits [of x]
  by (auto simp: nat_dbl_def dbl_ok_def reread_def to_string_letters digits_val_to_string)

lemma literal_plain: "literal_split (\<lambda>s sep. word_split sep s) sep"
  by (simp add: literal_split_def)

text \<open>
  C31: the container \<open>alltoall\<close> delivers to every rank exactly what every rank had for
  it, but files it under mirrored indices: what comes from rank \<open>f\<close> is appended to the slot of
  the rank sent to in the same round. Slot \<open>j\<close> of rank \<open>r\<close> holds the data of rank
  \<open>(2 r - j) mod n\<close>, so it is the sender's only for \<open>j = r\<close> and the rank opposite. The values
  of the triples cross as the six printed decimals.
\<close>

theorem alltoall_mirrored:
  assumes "r < length sbufs" "length (sbufs ! r) = length sbufs"
    and "\<forall>f < length sbufs. f \<noteq> r \<longrightarrow> compacts_ok D rx (sbufs ! f ! r)"
  shows "alltoall (isend_list (pack_compact D)) (recv_list (unpack_compact D rx) dflt rx []) sbufs r =
    Inr (map (\<lambda>j. if j = r then sbufs ! r ! r
      else map (\<lambda>(a, b, x). (a, b, reread D x)) (sbufs ! ((2 * r + length sbufs - j) mod length sbufs) ! r))
      [0..<length sbufs])"
  using records.alltoall_positions [OF assms(1,2)] assms(3) compacts_rec_ok by blast

theorem alltoall_mirrored_witness:
  "alltoall (isend_list (pack_compact nat_dbl))
     (recv_list (unpack_compact nat_dbl (\<lambda>s sep. word_split sep s)) (0, 0, 0) (\<lambda>s sep. word_split sep s) [])
     [[[(1, 1, 5)], [], []], [[], [], []], [[(2, 2, 7)], [], []]] 0 =
   Inr [[(1, 1, 5)], [(2, 2, 7)], []]"
proof -
  let ?sb = "[[[(1, 1, 5)], [], []], [[], [], []], [[(2, 2, 7)], [], []]] :: nat compact_triple list list list"
  have "compacts_ok nat_dbl (\<lambda>s sep. word_split sep s) (?sb ! f ! 0)" if "f < 3" "f \<noteq> 0" for f
  proof -
    have "f = 1 \<or> f = 2" using that by linarith
    then show ?thesis
      by (auto simp: compacts_ok_def literal_plain nat_dbl_ok pack_all_def pack_compact_def
          to_string.simps seperator_def seperator_inner_def)
  qed
  then have "alltoall (isend_list (pack_compact nat_dbl))
      (recv_list (unpack_compact nat_dbl (\<lambda>s sep. word_split sep s)) (0, 0, 0) (\<lambda>s sep. word_split sep s) [])
      ?sb 0 = Inr (map (\<lambda>j. if j = 0 then ?sb ! 0 ! 0
        else map (\<lambda>(a, b, x). (a, b, reread nat_dbl x)) (?sb ! ((2 * 0 + length ?sb - j) mod length ?sb) ! 0))
        [0..<length ?sb])"
    by (intro alltoall_mirrored) auto
  then show ?thesis by (simp add: upt_rec nat_dbl_ok)
qed

text \<open>
  In \<open>treereduce\<close> no message is lost and no rank waits in vain: every rank but 0
  sends exactly one message, rank 0 none, and a rank receives from another exactly when that
  one sends to it.
\<close>

theorem treereduce_matched:
  assumes "s < n" "t < n"
  shows "length (filter is_send (tr_loop s n 0 1)) = (if s = 0 then 0 else 1) \<and>
    (TRecv s \<in> set (tr_loop t n 0 1) \<longleftrightarrow> TSend t \<in> set (tr_loop s n 0 1))"
proof -
  note s = tr_sends [OF tr_level_start [OF assms(1)], of 0 0, simplified]
  have "TSend t \<in> set (tr_loop s n 0 1) \<longleftrightarrow> TSend t \<in> set (filter is_send (tr_loop s n 0 1))" by simp
  also have "\<dots> \<longleftrightarrow> s \<noteq> 0 \<and> t = s - low s" using s by simp
  also have "\<dots> \<longleftrightarrow> TRecv s \<in> set (tr_loop t n 0 1)"
  proof -
    have "1 \<le> low s" using low_odd_part [of s] by (cases "s = 0") (auto simp: low.simps [of 0])
    then show ?thesis
      using tr_recvs [OF tr_level_start [OF assms(2)], of 0 s 0] assms(1) low_le [of s] by auto
  qed
  finally show ?thesis using s by simp
qed

theorem treereduce_matched_witness:
  "length (filter is_send (tr_loop 6 7 0 1)) = 1 \<and>
   (TRecv 6 \<in> set (tr_loop 4 7 0 1) \<longleftrightarrow> TSend 4 \<in> set (tr_loop 6 7 0 1)) \<and> TSend 4 \<in> set (tr_loop 6 7 0 1)"
  using treereduce_matched [of 6 7 4] by (simp add: tr_loop.simps)

text \<open>
  C15: for any number of ranks, a power of two or not, \<open>treereduce\<close> with an associative
  combination leaves at the requested rank the combination of the data of all ranks in rank
  order. It need not be commutative.
\<close>

theorem treereduce_correct:
  assumes "\<And>x y z. op (op x y) z = op x (op y z)" "rank < length datas"
  shows "treereduce (\<lambda>recvbuf data. op data recvbuf) dflt datas rank rank = foldl op (hd datas) (tl datas)"
proof -
  have ne: "0 < length datas" using assms(2) by linarith
  have "map ((!) datas) [Suc 0..<length datas] = tl datas"
    by (rule nth_equalityI) (auto simp: nth_tl)
  moreover have "datas ! 0 = hd datas" using ne by (simp add: hd_conv_nth)
  ultimately have "tr_data (\<lambda>recvbuf data. op data recvbuf) datas 0 = foldl op (hd datas) (tl datas)"
    using tr_data_range [OF assms(1) ne] by (simp add: rng_def)
  then show ?thesis by (simp add: treereduce_def Let_def)
qed

theorem treereduce_correct_witness:
  "treereduce (\<lambda>recvbuf data. data @ recvbuf) [] [''a'', ''b'', ''c'', ''d'', ''e''] 3 3 = ''abcde''"
  using treereduce_correct [of "(@)" 3 "[''a'', ''b'', ''c'', ''d'', ''e'']" "[]"] by simp

text \<open>
  \<open>bcastring\<close> hands the callback of every rank the data of all ranks, each once,
  starting with its own and going round the ring.
\<close>

theorem bcastring_covers:
  assumes "r < length datas" "\<forall>d \<in> set datas. strlst_ok rx d"
  shows "bcastring isend_strlst (recv_strlst rx []) (\<lambda>d ds. ds @ [d]) [] datas r = Inr (rotate r datas)"
proof -
  have upt: "[0..<length datas] = 0 # [1..<length datas]" by (subst upt_conv_Cons) (use assms(1) in linarith, simp)
  have "fold (\<lambda>d ds. ds @ [d]) xs ys = ys @ xs" for xs ys :: "string list list"
    by (induction xs arbitrary: ys) auto
  moreover have "datas ! r # map (\<lambda>i. datas ! ring_from (length datas) r i) [1..<length datas] =
      map (\<lambda>i. datas ! ring_from (length datas) r i) [0..<length datas]"
    using assms(1) unfolding upt by (simp add: ring_from_def)
  moreover have "\<dots> = rotate r datas"
    using assms(1) by (intro nth_equalityI) (simp_all add: nth_rotate ring_from_def)
  ultimately show ?thesis
    using strlst.bcastring_all [OF assms, of "\<lambda>d ds. ds @ [d]" "[]"] by simp
qed

theorem bcastring_covers_witness:
  "bcastring isend_strlst (recv_strlst (\<lambda>s sep. word_split sep s) []) (\<lambda>d ds. ds @ [d]) []
     [[''a''], [''b'', ''''], []] 1 = Inr [[''b'', ''''], [], [''a'']]"
proof -
  have "\<forall>d \<in> set [[''a''], [''b'', ''''], []]. strlst_ok (\<lambda>s sep. word_split sep s) d"
    by (auto simp: strlst_ok_def literal_plain seperator_def intro!: clean_no_P [unfolded seperator_def])
  from bcastring_covers [OF _ this, of 1] show ?thesis by (simp add: rotate1_def)
qed

text \<open>
  The blocking \<open>send\<close> of a list of strings and the \<open>recv\<close> of one do not fit: the
  receiver gets the first string only, the other positions stay empty, and the remaining
  messages are left on the channel for whoever receives next.
\<close>

theorem send_strlst_mismatch:
  assumes "literal_split rx seperator" "clean seperator a" "a \<noteq> []" "length a < 2 ^ 31" "length ss < 2 ^ 30"
  shows "recv_strlst rx [] (send_strlst (a # ss)) = Inr (a # replicate (length ss) [], concat (map isend_str ss))"
proof -
  have "str_split_by_word rx a seperator = Inr [a]"
    using str_split_by_word_join [OF assms(1), of "[a]"] assms(2,3) by simp
  then show ?thesis
    using assms(4,5) by (simp add: recv_strlst_def send_strlst_def store_pieces_def resize_list_def Let_def)
qed

theorem send_strlst_mismatch_witness:
  "recv_strlst (\<lambda>s sep. word_split sep s) [] (send_strlst [''ab'', ''c'']) =
     Inr ([''ab'', []], [PInt 1, PStr ''c''])"
  using send_strlst_mismatch [of "\<lambda>s sep. word_split sep s" "''ab''" "[''c'']"] literal_plain
    clean_no_P [of "''ab''"]
  by (simp add: isend_str_def)

lemma recv_entries_2: "recv_entries rk rv 2 tk tv d ps =
    rbind (rk tk ps) (\<lambda>(tk, ps). rbind (rv tv ps) (\<lambda>(tv, ps).
    rbind (rk tk ps) (\<lambda>(tk', ps). rbind (rv tv ps) (\<lambda>(tv', ps).
    Inr (dict_set tk' tv' (dict_set tk tv d), ps)))))"
  unfolding numeral_2_eq_2 recv_entries.simps ..

text \<open>
  A dictionary of vectors does not survive an empty vector behind a full one: the
  receiver does not resize its buffer to zero, so the empty entry arrives as the previous one.
\<close>

theorem recv_dict_stale_value:
  assumes "xs \<noteq> []" "length xs < 2 ^ 31" "k \<noteq> l" "k \<noteq> []" "l \<noteq> []" "length k < 2 ^ 31" "length l < 2 ^ 31"
  shows "recv_dict recv_str (recv_dbls zero) [] [] [] (isend_dict isend_str isend_dbls [(k, xs), (l, [])]) =
    Inr ([(k, xs), (l, xs)], [])"
  using assms
  by (simp add: recv_dict_def isend_dict_def isend_str_def isend_dbls_def recv_str_def recv_dbls_def
      fill_buffer_def Let_def recv_entries_2 dict_set_def)

theorem recv_dict_stale_value_witness:
  "recv_dict recv_str (recv_dbls 0) [] [] [] (isend_dict isend_str isend_dbls [(''a'', [1, 2 :: nat]), (''b'', [])]) =
     Inr ([(''a'', [1, 2]), (''b'', [1, 2])], [])"
  using recv_dict_stale_value [of "[1, 2 :: nat]" "''a''" "''b''" 0] by simp

end
