(* ===== verification/Decomp.thy ===== *)
theory Decomp
  imports Prelude
begin

text \<open>
  \<open>include/utils/decomp.hpp\<close>: the factorisations of the number of processes into a grid
  \<open>nx\<close> by \<open>ny\<close>, used to place the parts of a matrix. \<open>(int)sqrt(np)\<close> is the integer square
  root, which the conversion from double gives exactly for every \<open>int\<close>.
\<close>

section \<open>Definitions\<close>

definition npfactx :: "nat \<Rightarrow> nat \<times> nat" where
  "npfactx np = (np, 1)"

definition npfacty :: "nat \<Rightarrow> nat \<times> nat" where
  "npfacty np = (1, np)"

fun isqrt :: "nat \<Rightarrow> nat" where
  "isqrt 0 = 0"
| "isqrt (Suc n) = (let r = isqrt n in if Suc r * Suc r \<le> Suc n then Suc r else r)"

text \<open>The loop \<open>while(upbnd - 1)\<close>; a start at 0 (no process) divides by zero.\<close>

fun npfact2d_loop :: "nat \<Rightarrow> bool \<Rightarrow> nat \<Rightarrow> (nat \<times> nat) res" where
  "npfact2d_loop np row_master 0 = Inl DivByZero"
| "npfact2d_loop np row_master (Suc u) =
     (if u = 0 then Inr (if row_master then (np, 1) else (1, np))
      else if np mod Suc u = 0
           then Inr (if row_master then (Suc u, np div Suc u) else (np div Suc u, Suc u))
      else npfact2d_loop np row_master u)"

definition npfact2d :: "nat \<Rightarrow> bool \<Rightarrow> (nat \<times> nat) res" where
  "npfact2d np row_master = npfact2d_loop np row_master (isqrt np)"

section \<open>Lemmas\<close>

lemma isqrt_bounds: "isqrt n * isqrt n \<le> n \<and> n < Suc (isqrt n) * Suc (isqrt n)"
  by (induction n) (auto simp: Let_def)

lemma isqrt_pos: "0 < n \<Longrightarrow> 0 < isqrt n"
  using isqrt_bounds [of n] by (cases "isqrt n") auto

lemma isqrt_greatest: "d * d \<le> n \<Longrightarrow> d \<le> isqrt n"
  using isqrt_bounds [of n] mult_le_mono [of "Suc (isqrt n)" d "Suc (isqrt n)" d]
  by fastforce

text \<open>The loop stops at the largest divisor not above its start, put first or second.\<close>

lemma npfact2d_loop_divisor:
  "0 < np \<Longrightarrow> 0 < u \<Longrightarrow> \<exists>m. m dvd np \<and> 0 < m \<and> m \<le> u \<and>
     (\<forall>d. d dvd np \<and> d \<le> u \<longrightarrow> d \<le> m) \<and>
     npfact2d_loop np rm u = Inr (if m = 1 then (if rm then (np, 1) else (1, np))
       else if rm then (m, np div m) else (np div m, m))"
proof (induction np rm u rule: npfact2d_loop.induct)
  case (1 np rm)
  then show ?case by simp
next
  case (2 np rm u)
  consider "u = 0" | "u \<noteq> 0" "Suc u dvd np" | "u \<noteq> 0" "\<not> Suc u dvd np" by blast
  then show ?case
  proof cases
    case 1
    then show ?thesis by (intro exI [of _ 1]) auto
  next
    case 2
    then show ?thesis by (intro exI [of _ "Suc u"]) (auto simp: dvd_eq_mod_eq_0)
  next
    case 3
    then have mod: "np mod Suc u \<noteq> 0" by (simp add: dvd_eq_mod_eq_0)
    with "2.IH" "2.prems" 3 obtain m where m: "m dvd np" "0 < m" "m \<le> u"
      "\<forall>d. d dvd np \<and> d \<le> u \<longrightarrow> d \<le> m"
      "npfact2d_loop np rm u = Inr (if m = 1 then (if rm then (np, 1) else (1, np))
        else if rm then (m, np div m) else (np div m, m))"
      by blast
    moreover from m(4) 3 have "\<forall>d. d dvd np \<and> d \<le> Suc u \<longrightarrow> d \<le> m"
      by (metis le_Suc_eq)
    ultimately show ?thesis using mod 3 by (intro exI [of _ m]) simp
  qed
qed

lemma npfact2d_grid: "0 < np \<Longrightarrow> \<exists>nx ny. npfact2d np rm = Inr (nx, ny) \<and> nx * ny = np"
proof -
  assume np: "0 < np"
  obtain m where m: "m dvd np" "npfact2d np rm = Inr (if m = 1 then (if rm then (np, 1) else (1, np))
      else if rm then (m, np div m) else (np div m, m))"
    using npfact2d_loop_divisor [OF np isqrt_pos [OF np]] unfolding npfact2d_def by blast
  then have "m * (np div m) = np" "np div m * m = np" by simp_all
  then show ?thesis using m(2) by (cases "m = 1"; cases rm) simp_all
qed

section \<open>Properties\<close>

text \<open>
  For every positive number of processes the two-dimensional factorisation
  returns a grid that uses all of them, and the most nearly square one: its smaller side is
  the largest divisor whose square does not exceed the number. Without a process it divides
  by zero.
\<close>

theorem npfact2d_most_square:
  assumes "0 < np"
  shows "npfact2d 0 row_master = Inl DivByZero \<and>
    (\<exists>nx ny. npfact2d np row_master = Inr (nx, ny) \<and> nx * ny = np \<and>
       min nx ny * min nx ny \<le> np \<and> (\<forall>d. d dvd np \<and> d * d \<le> np \<longrightarrow> d \<le> min nx ny))"
proof -
  obtain m where m: "m dvd np" "0 < m" "m \<le> isqrt np"
    "\<forall>d. d dvd np \<and> d \<le> isqrt np \<longrightarrow> d \<le> m"
    "npfact2d np row_master = Inr (if m = 1 then (if row_master then (np, 1) else (1, np))
      else if row_master then (m, np div m) else (np div m, m))"
    using npfact2d_loop_divisor [OF assms isqrt_pos [OF assms]] by (auto simp: npfact2d_def)
  have sq: "m * m \<le> np"
    using isqrt_bounds [of np] mult_le_mono [OF m(3) m(3)] by linarith
  then have "m \<le> np div m" using m(2) by (simp add: less_eq_div_iff_mult_less_eq)
  then have "\<exists>nx ny. npfact2d np row_master = Inr (nx, ny) \<and> nx * ny = np \<and> min nx ny = m"
    using m(1,2,5) assms by (cases row_master) (auto simp: min_def)
  then show ?thesis
    using sq m(4) isqrt_greatest [of _ np] by (auto simp: npfact2d_def)
qed

theorem npfact2d_most_square_witness:
  "npfact2d 12 True = Inr (3, 4) \<and> npfact2d 12 False = Inr (4, 3) \<and> npfact2d 7 True = Inr (7, 1) \<and>
   (\<exists>nx ny. npfact2d 12 True = Inr (nx, ny) \<and> nx * ny = 12)"
proof -
  have "\<exists>nx ny. npfact2d 12 True = Inr (nx, ny) \<and> nx * ny = 12"
    using npfact2d_most_square [of 12 True] by auto
  moreover have "npfact2d 12 True = Inr (3, 4)" "npfact2d 12 False = Inr (4, 3)" "npfact2d 7 True = Inr (7, 1)"
    by code_simp+
  ultimately show ?thesis by simp
qed

end
