(* ===== verification/Slots.thy ===== *)
theory Slots
  imports Comm Decomp "HOL-Library.List_Lexorder" "HOL-Library.Char_ord"
begin

text \<open>
  The exchange half of \<open>include/load/scheduler.hpp\<close> and the parsers of
  \<open>include/load/parser.hpp\<close>: lines become triples, a triple is hashed to the rank that owns its
  part of the matrix (\<open>lines_organize\<close>), the ranks exchange the triples (\<open>exchange\<close>), and the
  identifiers of a block are numbered consistently over its row and column of the process grid
  (\<open>index_mapping\<close>).

  The two overloads of every operation, over strings and over 64-bit identifiers, are one
  definition over a conversion: the identity, or \<open>std::stoull\<close>. Numbers are a type with the
  library's conversions as in \<open>Comm\<close>, \<open>one\<close> is the literal \<open>1.\<close>, \<open>std::hash\<close> the argument \<open>hf\<close>.
\<close>

section \<open>Parsers\<close>

definition parser_a :: "string \<Rightarrow> char \<Rightarrow> string list res" where
  "parser_a line sep = Inr (str_split line sep)"

definition parser_b :: "string \<Rightarrow> char \<Rightarrow> char \<Rightarrow> string list res" where
  "parser_b line sep1 sep2 =
     (let tmp = str_split line sep1
      in rbind (nth_res tmp 1) (\<lambda>t. rbind (nth_res tmp 0) (\<lambda>a. Inr (a # str_split t sep2))))"

text \<open>\<open>std::stoi\<close>: as \<open>stoull\<close>, in the range of \<open>int\<close>.\<close>

definition stoi :: "string \<Rightarrow> int res" where
  "stoi s =
     (let s = dropWhile is_space s;
          (neg, s) = (if s \<noteq> [] \<and> hd s = CHR ''-'' then (True, tl s)
                      else if s \<noteq> [] \<and> hd s = CHR ''+'' then (False, tl s) else (False, s));
          ds = takeWhile is_digit s;
          v = (if neg then - int (digits_val ds) else int (digits_val ds))
      in if ds = [] then Inl InvalidArgument
         else if v < - (2 ^ 31) \<or> 2 ^ 31 \<le> v then Inl OutOfRange else Inr v)"

definition parser_a_int :: "string \<Rightarrow> char \<Rightarrow> int list res" where
  "parser_a_int line sep = rmapM stoi (str_split line sep)"

section \<open>Slots\<close>

text \<open>\<open>h\<close>: the rank of the block that holds row \<open>i\<close> and column \<open>j\<close>; \<open>select\<close> is the same.\<close>

definition h_slot :: "('i \<Rightarrow> u64) \<Rightarrow> 'i \<Rightarrow> 'i \<Rightarrow> nat \<Rightarrow> nat \<Rightarrow> nat" where
  "h_slot hf i j nx ny = (unat (hf i) mod nx) * ny + unat (hf j) mod ny"

definition select_slot :: "('a \<Rightarrow> u64) \<Rightarrow> ('b \<Rightarrow> u64) \<Rightarrow> nat \<times> nat \<Rightarrow> 'a \<Rightarrow> 'b \<Rightarrow> nat" where
  "select_slot hf1 hf2 = (\<lambda>(npx, npy) i j. (unat (hf1 i) mod npx) * npy + unat (hf2 j) mod npy)"

definition select_row :: "('a \<Rightarrow> u64) \<Rightarrow> nat \<times> nat \<Rightarrow> 'a \<Rightarrow> nat" where
  "select_row hf = (\<lambda>(npx, npy) i. unat (hf i) mod npx)"

text \<open>
  One item next to its row: \<open>b\<close>, or \<open>b:0.2\<close> with a value. The delimiter reads as a regular
  expression, but the splitter takes it as a set of six characters. An item of delimiters only
  has no \<open>tmp[0]\<close>.
\<close>

definition item_delimiter :: string where
  "item_delimiter = ''[:| ]*''"

definition stod :: "'d dbl \<Rightarrow> string \<Rightarrow> 'd res" where
  "stod D s = of_opt InvalidArgument (dread D s)"

definition item_triple ::
  "'d dbl \<Rightarrow> 'd \<Rightarrow> (string \<Rightarrow> 'i res) \<Rightarrow> string \<Rightarrow> string \<Rightarrow> ('i \<times> 'i \<times> 'd) res"
where
  "item_triple D one cvt a item =
     (case str_split_any item item_delimiter of
        [] \<Rightarrow> Inl UndefinedRead
      | [_] \<Rightarrow> rbind (cvt a) (\<lambda>i. rbind (cvt item) (\<lambda>j. Inr (i, j, one)))
      | b # v # _ \<Rightarrow> rbind (cvt a) (\<lambda>i. rbind (cvt b) (\<lambda>j. rbind (stod D v) (\<lambda>x. Inr (i, j, x)))))"

text \<open>The triples of one parsed line; the format depends on its length and on \<open>mix\<close>.\<close>

definition line_triples ::
  "'d dbl \<Rightarrow> 'd \<Rightarrow> (string \<Rightarrow> 'i res) \<Rightarrow> bool \<Rightarrow> string list \<Rightarrow> ('i \<times> 'i \<times> 'd) list res"
where
  "line_triples D one cvt mix stf =
     (if length stf = 2 then rbind (item_triple D one cvt (stf ! 0) (stf ! 1)) (\<lambda>t. Inr [t])
      else if mix then rmapM (item_triple D one cvt (stf ! 0)) (drop 1 stf)
      else if length stf \<noteq> 3 then Inl RuntimeError
      else rbind (cvt (stf ! 0)) (\<lambda>i. rbind (cvt (stf ! 1)) (\<lambda>j.
           rbind (stod D (stf ! 2)) (\<lambda>x. Inr [(i, j, x)]))))"

definition push_slot ::
  "('i \<Rightarrow> u64) \<Rightarrow> nat \<times> nat \<Rightarrow> 'i \<times> 'i \<times> 'd \<Rightarrow> ('i \<times> 'i \<times> 'd) list list \<Rightarrow> ('i \<times> 'i \<times> 'd) list list res"
where
  "push_slot hf = (\<lambda>(npx, npy) (i, j, x) slots.
     let k = h_slot hf i j npx npy
     in if k < length slots then Inr (slots[k := slots ! k @ [(i, j, x)]]) else Inl UndefinedRead)"

definition lines_organize ::
  "'d dbl \<Rightarrow> 'd \<Rightarrow> (string \<Rightarrow> 'i res) \<Rightarrow> ('i \<Rightarrow> u64) \<Rightarrow> bool \<Rightarrow> nat \<times> nat \<Rightarrow> nat \<Rightarrow>
     (string \<Rightarrow> string list res) \<Rightarrow> string list \<Rightarrow> ('i \<times> 'i \<times> 'd) list list res"
where
  "lines_organize D one cvt hf mix grid sz parser lines =
     rfold (\<lambda>line slots.
         rbind (parser line) (\<lambda>stf. rbind (line_triples D one cvt mix stf) (\<lambda>ts.
         rfold (push_slot hf grid) ts slots)))
       lines (replicate sz [])"

text \<open>The overload with identifiers converts them by \<open>stoull\<close>; the one with strings keeps them.\<close>

definition lines_organize_u64 ::
  "'d dbl \<Rightarrow> 'd \<Rightarrow> (u64 \<Rightarrow> u64) \<Rightarrow> bool \<Rightarrow> nat \<times> nat \<Rightarrow> nat \<Rightarrow> (string \<Rightarrow> string list res) \<Rightarrow> string list \<Rightarrow>
     'd compact_triple list list res"
where
  "lines_organize_u64 D one = lines_organize D one stoull"

definition lines_organize_str ::
  "'d dbl \<Rightarrow> 'd \<Rightarrow> (string \<Rightarrow> u64) \<Rightarrow> bool \<Rightarrow> nat \<times> nat \<Rightarrow> nat \<Rightarrow> (string \<Rightarrow> string list res) \<Rightarrow> string list \<Rightarrow>
     'd triple list list res"
where
  "lines_organize_str D one = lines_organize D one Inr"

text \<open>\<open>exchange\<close>: all to all, then the received lists one after the other.\<close>

definition exchange ::
  "('t list \<Rightarrow> 'p list) \<Rightarrow> ('p list \<Rightarrow> ('t list \<times> 'p list) res) \<Rightarrow> 't list list list \<Rightarrow> nat \<Rightarrow> 't list res"
where
  "exchange isend recv slotss rk = rbind (alltoall isend recv slotss rk) (\<lambda>recv_lsl. Inr (concat recv_lsl))"

definition exchange_u64 ::
  "'d dbl \<Rightarrow> (string \<Rightarrow> string \<Rightarrow> string list) \<Rightarrow> 'd compact_triple \<Rightarrow> 'd compact_triple list list list \<Rightarrow>
     nat \<Rightarrow> 'd compact_triple list res"
where
  "exchange_u64 D rx dflt =
     exchange (isend_compacts D) (recv_compacts D rx dflt [])"

definition exchange_str ::
  "'d dbl \<Rightarrow> (string \<Rightarrow> string \<Rightarrow> string list) \<Rightarrow> 'd triple \<Rightarrow> 'd triple list list list \<Rightarrow> nat \<Rightarrow> 'd triple list res"
where
  "exchange_str D rx dflt =
     exchange (isend_triples D) (recv_triples D rx dflt [])"

lemmas exchange_defs = exchange_u64_def exchange_str_def isend_compacts_def isend_triples_def
  recv_compacts_def recv_triples_def

section \<open>index_mapping\<close>

text \<open>
  The communicators of a row and of a column: \<open>split\<close> keeps the order of the ranks. A set is a
  sorted list without repetition. \<open>nar\<close> is the conversion to the element type of \<open>rows\<close> and
  \<open>cols\<close>, and \<open>wid\<close> the one back; for 64-bit identifiers that type is \<open>int\<close>.
\<close>

definition row_group :: "nat \<Rightarrow> nat \<Rightarrow> nat \<Rightarrow> nat list" where
  "row_group npy n rk = filter (\<lambda>q. q div npy = rk div npy) [0..<n]"

definition col_group :: "nat \<Rightarrow> nat \<Rightarrow> nat \<Rightarrow> nat list" where
  "col_group npy n rk = filter (\<lambda>q. q mod npy = rk mod npy) [0..<n]"

definition group_rank :: "nat list \<Rightarrow> nat \<Rightarrow> nat" where
  "group_rank grp rk = length (takeWhile (\<lambda>q. q \<noteq> rk) grp)"

definition union_func :: "'k :: linorder list \<Rightarrow> 'k list \<Rightarrow> 'k list" where
  "union_func tmp new = fold insort_insert tmp new"

fun number_items ::
  "('k \<Rightarrow> 'i) \<Rightarrow> 'k list \<Rightarrow> u64 \<Rightarrow> (u64, 'i) dict \<Rightarrow> ('i, u64) dict \<Rightarrow> (u64, 'i) dict \<times> ('i, u64) dict"
where
  "number_items wid [] indx rm dct = (rm, dct)"
| "number_items wid (item # items) indx rm dct =
     number_items wid items (indx + 1) (dict_set indx (wid item) rm) (dict_set (wid item) indx dct)"

text \<open>\<open>operator[]\<close> of a missing key inserts and returns 0.\<close>

definition rev_at :: "('i, u64) dict \<Rightarrow> 'i \<Rightarrow> u64" where
  "rev_at dct i = (case dict_get dct i of Some k \<Rightarrow> k | None \<Rightarrow> 0)"

definition index_mapping ::
  "('k :: linorder list \<Rightarrow> 'p list) \<Rightarrow> ('p list \<Rightarrow> ('k list \<times> 'p list) res) \<Rightarrow> ('i \<Rightarrow> 'k) \<Rightarrow> ('k \<Rightarrow> 'i) \<Rightarrow>
     nat \<Rightarrow> ('i \<times> 'i \<times> 'd) list list \<Rightarrow> nat \<Rightarrow> (u64, 'i) dict \<Rightarrow> (u64, 'i) dict \<Rightarrow>
     ('d compact_triple list \<times> (u64, 'i) dict \<times> (u64, 'i) dict) res"
where
  "index_mapping isend recv nar wid npy slotss rk rm cm =
     (let row_comm = row_group npy (length slotss) rk; col_comm = col_group npy (length slotss) rk
      in rbind (bcastring isend recv union_func [] (map (\<lambda>q. map (\<lambda>(i, j, x). nar i) (slotss ! q)) row_comm)
            (group_rank row_comm rk)) (\<lambda>new_rows.
         rbind (bcastring isend recv union_func [] (map (\<lambda>q. map (\<lambda>(i, j, x). nar j) (slotss ! q)) col_comm)
            (group_rank col_comm rk)) (\<lambda>new_cols.
         let (rm, rev_rm) = number_items wid new_rows 0 rm [];
             (cm, rev_cm) = number_items wid new_cols 0 cm []
         in Inr (map (\<lambda>(i, j, x). (rev_at rev_rm i, rev_at rev_cm j, x)) (slotss ! rk), rm, cm))))"

text \<open>The two instances: lists of strings, and lists of 32-bit integers.\<close>

definition to_int32 :: "u64 \<Rightarrow> int" where
  "to_int32 w = signed_take_bit 31 (uint w)"

definition isend_ints :: "int list \<Rightarrow> int packet list" where
  "isend_ints = isend_dbls"

definition recv_ints :: "int packet list \<Rightarrow> (int list \<times> int packet list) res" where
  "recv_ints = recv_dbls 0 []"

definition index_mapping_str ::
  "(string \<Rightarrow> string \<Rightarrow> string list) \<Rightarrow> nat \<Rightarrow> 'd triple list list \<Rightarrow> nat \<Rightarrow> (u64, string) dict \<Rightarrow>
     (u64, string) dict \<Rightarrow> ('d compact_triple list \<times> (u64, string) dict \<times> (u64, string) dict) res"
where
  "index_mapping_str rx =
     index_mapping (isend_strlst :: string list \<Rightarrow> int packet list) (recv_strlst rx []) id id"

definition index_mapping_u64 ::
  "nat \<Rightarrow> 'd compact_triple list list \<Rightarrow> nat \<Rightarrow> (u64, u64) dict \<Rightarrow> (u64, u64) dict \<Rightarrow>
     ('d compact_triple list \<times> (u64, u64) dict \<times> (u64, u64) dict) res"
where
  "index_mapping_u64 = index_mapping isend_ints recv_ints to_int32 word_of_int"

section \<open>Lemmas: slots\<close>

lemma h_slot_less: "0 < nx \<Longrightarrow> 0 < ny \<Longrightarrow> h_slot hf i j nx ny < nx * ny"
proof -
  assume n: "0 < nx" "0 < ny"
  let ?a = "unat (hf i) mod nx" and ?b = "unat (hf j) mod ny"
  have "?a * ny + ?b < ?a * ny + ny" using n by simp
  also have "\<dots> = Suc ?a * ny" by simp
  also have "\<dots> \<le> nx * ny" using n by (intro mult_le_mono) (auto simp: Suc_le_eq)
  finally show ?thesis by (simp add: h_slot_def)
qed

text \<open>The triples of a list of lines, without the slots.\<close>

definition triples_of ::
  "'d dbl \<Rightarrow> 'd \<Rightarrow> (string \<Rightarrow> 'i res) \<Rightarrow> bool \<Rightarrow> (string \<Rightarrow> string list res) \<Rightarrow> string list \<Rightarrow>
     ('i \<times> 'i \<times> 'd) list res"
where
  "triples_of D one cvt mix parser lines =
     rbind (rmapM (\<lambda>line. rbind (parser line) (line_triples D one cvt mix)) lines) (\<lambda>tss. Inr (concat tss))"

abbreviation slot_is :: "('i \<Rightarrow> u64) \<Rightarrow> nat \<times> nat \<Rightarrow> nat \<Rightarrow> 'i \<times> 'i \<times> 'd \<Rightarrow> bool" where
  "slot_is hf grid k t \<equiv> h_slot hf (fst t) (fst (snd t)) (fst grid) (snd grid) = k"

lemma push_slots:
  assumes "0 < nx" "0 < ny" "length slots = nx * ny"
  shows "rfold (push_slot hf (nx, ny)) ts slots =
    Inr (map (\<lambda>k. slots ! k @ filter (slot_is hf (nx, ny) k) ts) [0..<nx * ny])"
  using assms(3)
proof (induction ts arbitrary: slots)
  case Nil
  then show ?case by (simp add: map_nth flip: Nil)
next
  case (Cons t ts)
  obtain i j x where t: "t = (i, j, x)" by (cases t)
  let ?k = "h_slot hf i j nx ny"
  have k: "?k < length slots" using h_slot_less [OF assms(1,2)] Cons.prems by simp
  then show ?case
    using Cons.IH [of "slots[?k := slots ! ?k @ [t]]"] Cons.prems
    by (auto simp: t push_slot_def Let_def nth_list_update)
qed

lemma lines_organize_triples:
  assumes "0 < nx" "0 < ny"
  shows "lines_organize D one cvt hf mix (nx, ny) (nx * ny) parser lines =
    rbind (triples_of D one cvt mix parser lines) (\<lambda>ts.
      Inr (map (\<lambda>k. filter (slot_is hf (nx, ny) k) ts) [0..<nx * ny]))"
proof -
  let ?line = "\<lambda>line. rbind (parser line) (line_triples D one cvt mix)"
  let ?body = "\<lambda>line slots. rbind (parser line) (\<lambda>stf. rbind (line_triples D one cvt mix stf) (\<lambda>ts.
    rfold (push_slot hf (nx, ny)) ts slots))"
  have body: "?body line slots = rbind (?line line) (\<lambda>ts. Inr (map (\<lambda>k. slots ! k @
      filter (slot_is hf (nx, ny) k) ts) [0..<nx * ny]))" if "length slots = nx * ny" for line slots
    by (simp only: push_slots [OF assms that] rbind_assoc)
  have "length slots = nx * ny \<Longrightarrow> rfold ?body lines slots =
      rbind (rmapM ?line lines) (\<lambda>tss. Inr (map (\<lambda>k. slots ! k @
        filter (slot_is hf (nx, ny) k) (concat tss)) [0..<nx * ny]))" for slots
  proof (induction lines arbitrary: slots)
    case Nil
    then show ?case by (simp add: map_nth flip: Nil)
  next
    case (Cons line lines)
    show ?case
    proof (cases "?line line")
      case (Inl e)
      then show ?thesis using body [OF Cons.prems, of line] by simp
    next
      case (Inr ts)
      let ?s = "map (\<lambda>k. slots ! k @ filter (slot_is hf (nx, ny) k) ts) [0..<nx * ny]"
      have "?body line slots = Inr ?s" using body [OF Cons.prems, of line] Inr by simp
      then have "rfold ?body (line # lines) slots = rfold ?body lines ?s" by simp
      also have "\<dots> = rbind (rmapM ?line lines) (\<lambda>tss. Inr (map (\<lambda>k. ?s ! k @
          filter (slot_is hf (nx, ny) k) (concat tss)) [0..<nx * ny]))"
        by (rule Cons.IH) simp
      also have "\<dots> = rbind (rmapM ?line (line # lines)) (\<lambda>tss. Inr (map (\<lambda>k. slots ! k @
          filter (slot_is hf (nx, ny) k) (concat tss)) [0..<nx * ny]))"
        using Inr by (auto simp: rbind_assoc intro!: rbind_cong)
      finally show ?thesis .
    qed
  qed
  from this [of "replicate (nx * ny) []"] show ?thesis
    by (auto simp: lines_organize_def triples_of_def rbind_assoc intro!: rbind_cong)
qed

lemma rmapM_rbind_Inr: "rmapM (\<lambda>x. rbind (f x) (\<lambda>y. Inr (g y))) xs = rbind (rmapM f xs) (\<lambda>ys. Inr (map g ys))"
  by (induction xs) (auto simp: rbind_assoc)

text \<open>What every rank holds after the exchange.\<close>

definition held :: "nat \<Rightarrow> nat \<Rightarrow> ('d \<Rightarrow> 'd) \<Rightarrow> 'i \<times> 'i \<times> 'd \<Rightarrow> 'i \<times> 'i \<times> 'd" where
  "held r f norm = (\<lambda>(i, j, x). (i, j, if f = r then x else norm x))"

lemma exchange_slots:
  fixes D :: "'d dbl"
  assumes "0 < nx" "0 < ny" "length lnss = nx * ny" "r < nx * ny"
    and "rmapM (lines_organize D one cvt hf mix (nx, ny) (nx * ny) parser) lnss = Inr sbufs"
    and "\<forall>f < nx * ny. rec_list_ok rx pack unpack (\<lambda>(a, b, x). (a, b, reread D x)) (sbufs ! f ! r)"
  shows "\<exists>tss stf. rmapM (triples_of D one cvt mix parser) lnss = Inr tss \<and>
    exchange (isend_list pack :: _ \<Rightarrow> 'd packet list) (recv_list unpack dflt rx []) sbufs r = Inr stf \<and>
    mset stf = (\<Sum>f \<in> {0..<nx * ny}. mset (map (held r f (reread D)) (filter (slot_is hf (nx, ny) r) (tss ! f))))"
proof -
  let ?n = "nx * ny"
  obtain tss where tss: "rmapM (triples_of D one cvt mix parser) lnss = Inr tss"
    "sbufs = map (\<lambda>ts. map (\<lambda>k. filter (slot_is hf (nx, ny) k) ts) [0..<?n]) tss"
    using assms(5) unfolding lines_organize_triples [OF assms(1,2)] rmapM_rbind_Inr
    by (auto simp: rbind_eq_Inr)
  have len: "length tss = ?n" using rmapM_length [OF tss(1)] assms(3) by simp
  then have sb: "sbufs ! f ! r = filter (slot_is hf (nx, ny) r) (tss ! f)" if "f < ?n" for f
    using that assms(4) tss(2) by simp
  have "r < length sbufs" "length (sbufs ! r) = length sbufs"
    "\<forall>f < length sbufs. f \<noteq> r \<longrightarrow> rec_list_ok rx pack unpack
      (\<lambda>(a, b, x). (a, b, reread D x)) (sbufs ! f ! r)"
    using tss(2) len assms(4,6) by auto
  from records.alltoall_exchange [OF this, of dflt]
  obtain rbuf where r:
    "alltoall (isend_list pack :: _ \<Rightarrow> 'd packet list) (recv_list unpack dflt rx []) sbufs r = Inr rbuf"
    "mset (concat rbuf) = (\<Sum>f \<in> {0..<?n}. mset (if f = r then sbufs ! r ! r
      else map (\<lambda>(a, b, x). (a, b, reread D x)) (sbufs ! f ! r)))"
    using tss(2) len by auto
  have "mset (if f = r then sbufs ! r ! r else map (\<lambda>(a, b, x). (a, b, reread D x)) (sbufs ! f ! r)) =
      mset (map (held r f (reread D)) (filter (slot_is hf (nx, ny) r) (tss ! f)))" if "f < ?n" for f
    using sb [OF that] by (cases "f = r") (simp_all add: held_def case_prod_unfold)
  then have "mset (concat rbuf) = (\<Sum>f \<in> {0..<?n}. mset (map (held r f (reread D)) (filter (slot_is hf (nx, ny) r) (tss ! f))))"
    unfolding r(2) by (intro sum.cong) auto
  then show ?thesis using tss(1) r(1) by (auto simp: exchange_def)
qed

text \<open>Triples of strings that survive the encoding.\<close>

definition triples_ok ::
  "'d dbl \<Rightarrow> (string \<Rightarrow> string \<Rightarrow> string list) \<Rightarrow> 'd triple list \<Rightarrow> bool"
where
  "triples_ok D rx ts \<longleftrightarrow> literal_split rx seperator \<and> literal_split rx seperator_inner \<and>
     (\<forall>(a, b, x) \<in> set ts. clean seperator_inner a \<and> clean seperator_inner b \<and>
        clean seperator (pack_triple D (a, b, x)) \<and> dbl_ok D x) \<and>
     length ts < 2 ^ 31 \<and> length (pack_all (pack_triple D) ts) < 2 ^ 31"

lemma triples_rec_ok:
  "triples_ok D rx ts \<Longrightarrow>
     rec_list_ok rx (pack_triple D) (unpack_triple D rx) (\<lambda>(a, b, x). (a, b, reread D x)) ts"
proof -
  assume ok: "triples_ok D rx ts"
  have "clean seperator (pack_triple D t) \<and> pack_triple D t \<noteq> [] \<and>
      unpack_triple D rx (pack_triple D t) = Inr ((\<lambda>(a, b, x). (a, b, reread D x)) t)"
    if t: "t \<in> set ts" for t
  proof -
    obtain a b x where t': "t = (a, b, x)" by (cases t)
    then have "clean seperator_inner a" "clean seperator_inner b" "clean seperator (pack_triple D t)"
      "dbl_ok D x" "literal_split rx seperator_inner"
      using ok t unfolding triples_ok_def by fastforce+
    moreover have "pack_triple D t \<noteq> []" by (simp add: t' pack_triple_def)
    ultimately show ?thesis using unpack_triple_pack [of rx D x a b] by (simp add: t')
  qed
  then show ?thesis using ok by (simp add: triples_ok_def rec_list_ok_def)
qed

section \<open>Lemmas: index_mapping\<close>

lemma ring_rotate:
  assumes "r < length datas"
  shows "datas ! r # map (\<lambda>i. datas ! ring_from (length datas) r i) [1..<length datas] = rotate r datas"
proof -
  have upt: "[0..<length datas] = 0 # [1..<length datas]"
    by (subst upt_conv_Cons) (use assms in linarith, simp)
  have "datas ! r # map (\<lambda>i. datas ! ring_from (length datas) r i) [1..<length datas] =
      map (\<lambda>i. datas ! ring_from (length datas) r i) [0..<length datas]"
    using assms unfolding upt by (simp add: ring_from_def)
  also have "\<dots> = rotate r datas"
    using assms by (intro nth_equalityI) (simp_all add: nth_rotate ring_from_def)
  finally show ?thesis .
qed

lemma union_func_sorted: "finite A \<Longrightarrow> union_func xs (sorted_list_of_set A) = sorted_list_of_set (A \<union> set xs)"
proof (induction xs arbitrary: A)
  case (Cons x xs)
  have "insort_insert x (sorted_list_of_set A) = sorted_list_of_set (insert x A)"
  proof (rule sorted_distinct_set_unique)
    show "sorted (insort_insert x (sorted_list_of_set A))" by (rule sorted_insort_insert) simp
    show "distinct (insort_insert x (sorted_list_of_set A))" by (rule distinct_insort_insert) simp
    show "sorted (sorted_list_of_set (insert x A))" "distinct (sorted_list_of_set (insert x A))"
      by (rule sorted_sorted_list_of_set, rule distinct_sorted_list_of_set)
    have "set (sorted_list_of_set A) = A" "set (sorted_list_of_set (insert x A)) = insert x A"
      using Cons.prems by (simp_all only: set_sorted_list_of_set finite_insert)
    then show "set (insort_insert x (sorted_list_of_set A)) = set (sorted_list_of_set (insert x A))"
      by (simp only: set_insort_insert)
  qed
  then show ?case using Cons.IH [of "insert x A"] Cons.prems by (simp add: union_func_def)
qed (simp add: union_func_def)

lemma union_all: "finite A \<Longrightarrow>
    fold union_func xss (sorted_list_of_set A) = sorted_list_of_set (A \<union> (\<Union>xs \<in> set xss. set xs))"
  by (induction xss arbitrary: A) (auto simp: union_func_sorted Un_assoc)

lemma group_rank_props:
  assumes "rk \<in> set grp"
  shows "group_rank grp rk < length grp" "grp ! group_rank grp rk = rk"
proof -
  have "grp = takeWhile (\<lambda>q. q \<noteq> rk) grp @ dropWhile (\<lambda>q. q \<noteq> rk) grp"
    "dropWhile (\<lambda>q. q \<noteq> rk) grp \<noteq> []"
    using assms by (simp_all add: dropWhile_eq_Nil_conv)
  then show l: "group_rank grp rk < length grp"
    unfolding group_rank_def by (metis length_append length_greater_0_conv less_add_same_cancel1)
  show "grp ! group_rank grp rk = rk"
    using nth_length_takeWhile [of "\<lambda>q. q \<noteq> rk" grp] l unfolding group_rank_def by simp
qed

lemma number_items_get:
  "s + length items \<le> 2 ^ 64 \<Longrightarrow> distinct (map wid items) \<Longrightarrow>
   number_items wid items (word_of_nat s) rm rv = (rm', rv') \<Longrightarrow>
     (\<forall>i. dict_get rm' i = (if s \<le> unat i \<and> unat i < s + length items
        then Some (wid (items ! (unat i - s))) else dict_get rm i)) \<and>
     (\<forall>k < length items. dict_get rv' (wid (items ! k)) = Some (word_of_nat (s + k))) \<and>
     (\<forall>x. x \<notin> wid ` set items \<longrightarrow> dict_get rv' x = dict_get rv x)"
proof (induction items arbitrary: s rm rv)
  case (Cons item items)
  let ?i = "word_of_nat s :: u64"
  have s: "s < 2 ^ 64" using Cons.prems(1) by simp
  have "Suc s + length items \<le> 2 ^ 64" "distinct (map wid items)" using Cons.prems by simp_all
  from Cons.IH [OF this, of "dict_set ?i (wid item) rm" "dict_set (wid item) ?i rv"]
  have IH: "\<And>i. dict_get rm' i = (if Suc s \<le> unat i \<and> unat i < Suc s + length items
        then Some (wid (items ! (unat i - Suc s))) else dict_get (dict_set ?i (wid item) rm) i)"
    "\<And>k. k < length items \<Longrightarrow> dict_get rv' (wid (items ! k)) = Some (word_of_nat (Suc s + k))"
    "\<And>x. x \<notin> wid ` set items \<Longrightarrow> dict_get rv' x = dict_get (dict_set (wid item) ?i rv) x"
    using Cons.prems(3) by (simp_all add: add.commute)
  have u: "unat i = s \<longleftrightarrow> i = ?i" for i :: u64
    using s by (auto simp: unat_of_nat take_bit_nat_eq_self)
  have "dict_get rm' i = (if s \<le> unat i \<and> unat i < s + length (item # items)
        then Some (wid ((item # items) ! (unat i - s))) else dict_get rm i)" for i
    using IH(1) [of i] u [of i] by (auto simp: nth_Cons' Suc_le_eq)
  moreover have "dict_get rv' (wid ((item # items) ! k)) = Some (word_of_nat (s + k))"
    if "k < length (item # items)" for k
  proof (cases k)
    case 0
    then show ?thesis using IH(3) [of "wid item"] Cons.prems(2) by simp
  next
    case (Suc k')
    then show ?thesis using IH(2) [of k'] that by simp
  qed
  moreover have "dict_get rv' x = dict_get rv x" if "x \<notin> wid ` set (item # items)" for x
    using IH(3) [of x] that by auto
  ultimately show ?case by blast
qed auto

lemma number_items_length:
  "s + length items \<le> 2 ^ 64 \<Longrightarrow> \<forall>k < length items. dict_get rm (word_of_nat (s + k)) = None \<Longrightarrow>
     length (fst (number_items wid items (word_of_nat s) rm rv)) = length rm + length items"
proof (induction items arbitrary: s rm rv)
  case (Cons item items)
  let ?rm = "dict_set (word_of_nat s) (wid item) rm"
  have "dict_get ?rm (word_of_nat (Suc s + k)) = None" if k: "k < length items" for k
  proof -
    have "(word_of_nat (Suc s + k) :: u64) \<noteq> word_of_nat s"
      using k Cons.prems(1) by (simp only: word_of_nat_eq_iff) (simp add: take_bit_nat_eq_self)
    moreover have "dict_get rm (word_of_nat (s + Suc k)) = None" using Cons.prems(2) k by (metis Suc_less_eq length_Cons)
    ultimately show ?thesis by simp
  qed
  then have "length (fst (number_items wid items (word_of_nat (Suc s)) ?rm (dict_set (wid item) (word_of_nat s) rv))) =
      length ?rm + length items"
    using Cons.prems(1) by (intro Cons.IH) auto
  moreover have "dict_get rm (word_of_nat s) = None" using Cons.prems(2) by (metis add_0_right length_Cons zero_less_Suc)
  ultimately show ?case by (simp add: dict_set_new add.commute)
qed simp

text \<open>The members of a group, and the union every member computes.\<close>

lemma row_group_set: "set (row_group npy n rk) = {q. q < n \<and> q div npy = rk div npy}"
  by (auto simp: row_group_def)

lemma col_group_set: "set (col_group npy n rk) = {q. q < n \<and> q mod npy = rk mod npy}"
  by (auto simp: col_group_def)

context wire
begin

lemma bcastring_rotate:
  assumes "r < length datas" "\<forall>d \<in> set datas. ok d \<and> norm d = d"
  shows "bcastring isend recv func s datas r = Inr (fold func (rotate r datas) s)"
proof -
  have "ring_from (length datas) r i < length datas" for i
    unfolding ring_from_def by (rule mod_less_divisor) (use assms(1) in linarith)
  then have "norm (datas ! ring_from (length datas) r i) = datas ! ring_from (length datas) r i" for i
    using assms(2) by simp
  then show ?thesis
    using bcastring_all [OF assms(1), of func s] assms(2) by (simp flip: ring_rotate [OF assms(1)])
qed

end

lemma bcastring_union:
  fixes isend :: "'k :: linorder list \<Rightarrow> 'p list"
  assumes "wire isend recv ok id" "rk \<in> set grp" "\<forall>q \<in> set grp. ok (f q)"
  shows "bcastring isend recv union_func [] (map f grp) (group_rank grp rk) =
    Inr (sorted_list_of_set (\<Union>q \<in> set grp. set (f q)))"
proof -
  let ?ds = "map f grp"
  have "bcastring isend recv union_func [] ?ds (group_rank grp rk) =
      Inr (fold union_func (rotate (group_rank grp rk) ?ds) (sorted_list_of_set {}))"
    using wire.bcastring_rotate [OF assms(1), of "group_rank grp rk" ?ds union_func "[]"]
      group_rank_props(1) [OF assms(2)] assms(3) by simp
  then show ?thesis by (simp only: union_all finite.emptyI set_rotate) simp
qed

text \<open>Numbering the identifiers of a group, when the narrowed ones can be widened back.\<close>

definition numbered_by :: "('i \<Rightarrow> 'k :: linorder) \<Rightarrow> ('k \<Rightarrow> 'i) \<Rightarrow> 'i set \<Rightarrow> 'i list" where
  "numbered_by nar wid A = map wid (sorted_list_of_set (nar ` A))"

lemma numbered_by_props:
  assumes "\<forall>a \<in> A. wid (nar a) = a" "finite A"
  shows "set (numbered_by nar wid A) = A" "distinct (numbered_by nar wid A)" "length (numbered_by nar wid A) = card A"
proof -
  have inj: "inj_on nar A" using assms(1) by (intro inj_on_inverseI [of _ wid]) auto
  then show "length (numbered_by nar wid A) = card A"
    using assms(2) by (simp add: numbered_by_def card_image)
  have "wid ` nar ` A = A" using assms(1) by force
  then show "set (numbered_by nar wid A) = A" using assms(2) by (simp add: numbered_by_def)
  have "inj_on wid (nar ` A)" using assms(1) by (intro inj_onI) auto
  then show "distinct (numbered_by nar wid A)" using assms(2) by (simp add: numbered_by_def distinct_map)
qed

lemma number_items_all:
  assumes "\<forall>a \<in> A. wid (nar a) = a" "finite A" "card A \<le> 2 ^ 64"
    and "number_items wid (sorted_list_of_set (nar ` A)) 0 [] [] = (rm, rv)"
  shows "dict_get rm i = (if unat i < card A then Some (numbered_by nar wid A ! unat i) else None)"
    and "a \<in> A \<Longrightarrow> dict_get rm (rev_at rv a) = Some a" and "length rm = card A"
proof -
  let ?items = "sorted_list_of_set (nar ` A)"
  have len: "length ?items = card A" using numbered_by_props(3) [OF assms(1,2)] by (simp add: numbered_by_def)
  have "distinct (map wid ?items)" using numbered_by_props(2) [OF assms(1,2)] by (simp add: numbered_by_def)
  from number_items_get [OF _ this, of 0 "[]" "[]" rm rv]
  have n: "\<And>i. dict_get rm i = (if unat i < card A then Some (wid (?items ! unat i)) else None)"
    "\<And>k. k < card A \<Longrightarrow> dict_get rv (wid (?items ! k)) = Some (word_of_nat k)"
    using assms(3,4) len by simp_all
  then show "dict_get rm i = (if unat i < card A then Some (numbered_by nar wid A ! unat i) else None)"
    using len by (simp add: numbered_by_def)
  show "length rm = card A"
    using number_items_length [of 0 ?items "[]" wid "[]"] assms(3,4) len by simp
  show "dict_get rm (rev_at rv a) = Some a" if "a \<in> A"
  proof -
    have "nar a \<in> set ?items" using that assms(2) by simp
    then obtain k where k: "k < card A" "?items ! k = nar a"
      unfolding in_set_conv_nth len by blast
    then have "rev_at rv a = word_of_nat k" using n(2) [OF k(1)] assms(1) that by (simp add: rev_at_def)
    moreover have "unat (word_of_nat k :: u64) = k"
      using k(1) assms(3) by (simp add: unat_of_nat take_bit_nat_eq_self)
    ultimately show ?thesis using n(1) [of "rev_at rv a"] k assms(1) that by simp
  qed
qed

text \<open>\<open>index_mapping\<close> of one rank, over any encoding that delivers the lists as they are.\<close>

definition ids_rows :: "('i \<times> 'i \<times> 'd) list list \<Rightarrow> nat set \<Rightarrow> 'i set" where
  "ids_rows slotss grp = (\<Union>q \<in> grp. (\<lambda>(i, j, x). i) ` set (slotss ! q))"

definition ids_cols :: "('i \<times> 'i \<times> 'd) list list \<Rightarrow> nat set \<Rightarrow> 'i set" where
  "ids_cols slotss grp = (\<Union>q \<in> grp. (\<lambda>(i, j, x). j) ` set (slotss ! q))"

lemma ids_finite:
  "finite grp \<Longrightarrow> finite (ids_rows slotss grp)" "finite grp \<Longrightarrow> finite (ids_cols slotss grp)"
  by (simp_all add: ids_rows_def ids_cols_def)

lemma index_mapping_result:
  fixes isend :: "'k :: linorder list \<Rightarrow> 'p list" and slotss :: "('i \<times> 'i \<times> 'd) list list"
  defines "R \<equiv> \<lambda>npy rk. ids_rows slotss (set (row_group npy (length slotss) rk))"
    and "C \<equiv> \<lambda>npy rk. ids_cols slotss (set (col_group npy (length slotss) rk))"
  assumes w: "wire isend recv ok id" and rk: "rk < length slotss"
    and ok: "\<forall>q < length slotss. ok (map (\<lambda>(i, j, x). nar i) (slotss ! q)) \<and> ok (map (\<lambda>(i, j, x). nar j) (slotss ! q))"
  shows "index_mapping isend recv nar wid npy slotss rk rm cm =
    (let (rm, rev_rm) = number_items wid (sorted_list_of_set (nar ` R npy rk)) 0 rm [];
         (cm, rev_cm) = number_items wid (sorted_list_of_set (nar ` C npy rk)) 0 cm []
     in Inr (map (\<lambda>(i, j, x). (rev_at rev_rm i, rev_at rev_cm j, x)) (slotss ! rk), rm, cm))"
proof -
  let ?r = "row_group npy (length slotss) rk" and ?c = "col_group npy (length slotss) rk"
  have m: "rk \<in> set ?r" "rk \<in> set ?c" "\<forall>q \<in> set ?r. q < length slotss" "\<forall>q \<in> set ?c. q < length slotss"
    using rk by (auto simp: row_group_set col_group_set)
  have "(\<Union>q \<in> set ?r. set (map (\<lambda>(i, j, x). nar i) (slotss ! q))) = nar ` R npy rk"
    "(\<Union>q \<in> set ?c. set (map (\<lambda>(i, j, x). nar j) (slotss ! q))) = nar ` C npy rk"
    by (auto simp: R_def C_def ids_rows_def ids_cols_def image_iff image_UN case_prod_unfold)
  then have "bcastring isend recv union_func [] (map (\<lambda>q. map (\<lambda>(i, j, x). nar i) (slotss ! q)) ?r) (group_rank ?r rk) =
      Inr (sorted_list_of_set (nar ` R npy rk))"
    "bcastring isend recv union_func [] (map (\<lambda>q. map (\<lambda>(i, j, x). nar j) (slotss ! q)) ?c) (group_rank ?c rk) =
      Inr (sorted_list_of_set (nar ` C npy rk))"
    using bcastring_union [OF w m(1), of "\<lambda>q. map (\<lambda>(i, j, x). nar i) (slotss ! q)"]
      bcastring_union [OF w m(2), of "\<lambda>q. map (\<lambda>(i, j, x). nar j) (slotss ! q)"] m(3,4) ok by auto
  then show ?thesis by (simp add: index_mapping_def Let_def)
qed

lemma index_mapping_numbers:
  fixes isend :: "'k :: linorder list \<Rightarrow> 'p list" and slotss :: "('i \<times> 'i \<times> 'd) list list"
  defines "R \<equiv> \<lambda>npy rk. ids_rows slotss (set (row_group npy (length slotss) rk))"
    and "C \<equiv> \<lambda>npy rk. ids_cols slotss (set (col_group npy (length slotss) rk))"
  assumes w: "wire isend recv ok id" and rk: "rk < length slotss"
    and ok: "\<forall>q < length slotss. ok (map (\<lambda>(i, j, x). nar i) (slotss ! q)) \<and> ok (map (\<lambda>(i, j, x). nar j) (slotss ! q))"
    and wid: "\<forall>a \<in> R npy rk \<union> C npy rk. wid (nar a) = a"
    and small: "card (R npy rk) \<le> 2 ^ 64" "card (C npy rk) \<le> 2 ^ 64"
  shows "\<exists>stf rm cm. index_mapping isend recv nar wid npy slotss rk [] [] = Inr (stf, rm, cm) \<and>
    map (\<lambda>(i, j, x). (dict_get rm i, dict_get cm j, x)) stf =
      map (\<lambda>(a, b, x). (Some a, Some b, x)) (slotss ! rk) \<and>
    (\<forall>i. dict_get rm i = (if unat i < card (R npy rk) then Some (numbered_by nar wid (R npy rk) ! unat i) else None)) \<and>
    (\<forall>i. dict_get cm i = (if unat i < card (C npy rk) then Some (numbered_by nar wid (C npy rk) ! unat i) else None)) \<and>
    length rm = card (R npy rk) \<and> length cm = card (C npy rk)"
proof -
  obtain rm rev_rm where r: "number_items wid (sorted_list_of_set (nar ` R npy rk)) 0 [] [] = (rm, rev_rm)"
    by (rule prod.exhaust)
  obtain cm rev_cm where c: "number_items wid (sorted_list_of_set (nar ` C npy rk)) 0 [] [] = (cm, rev_cm)"
    by (rule prod.exhaust)
  have fin: "finite (R npy rk)" "finite (C npy rk)" by (simp_all add: R_def C_def ids_finite)
  have wid': "\<forall>a \<in> R npy rk. wid (nar a) = a" "\<forall>a \<in> C npy rk. wid (nar a) = a" using wid by blast+
  note nr = number_items_all [OF wid'(1) fin(1) small(1) r]
  note nc = number_items_all [OF wid'(2) fin(2) small(2) c]
  let ?stf = "map (\<lambda>(i, j, x). (rev_at rev_rm i, rev_at rev_cm j, x)) (slotss ! rk)"
  have "index_mapping isend recv nar wid npy slotss rk [] [] = Inr (?stf, rm, cm)"
    using index_mapping_result [OF w rk ok, of wid npy "[]" "[]"] r c unfolding R_def C_def by simp
  moreover have "a \<in> R npy rk \<and> b \<in> C npy rk" if "(a, b, x) \<in> set (slotss ! rk)" for a b x
    using that rk by (force simp: R_def C_def ids_rows_def ids_cols_def row_group_set col_group_set)
  then have "map (\<lambda>(i, j, x). (dict_get rm i, dict_get cm j, x)) ?stf =
      map (\<lambda>(a, b, x). (Some a, Some b, x)) (slotss ! rk)"
    using nr(2) nc(2) by auto
  ultimately show ?thesis using nr(1,3) nc(1,3) by blast
qed

section \<open>The instances\<close>

lemma to_int32_range: "- (2 ^ 31) \<le> to_int32 w" "to_int32 w < 2 ^ 31"
  unfolding to_int32_def by (rule signed_take_bit_int_greater_eq_minus_exp, rule signed_take_bit_int_less_exp)

lemma to_int32_small: "a < 2 ^ 31 \<Longrightarrow> word_of_int (to_int32 a) = a"
proof -
  assume "a < 2 ^ 31"
  then have "uint a < uint (2 ^ 31 :: u64)" by (simp only: word_less_def)
  then have "uint a < 2 ^ 31" by simp
  moreover have "- (2 ^ 31) \<le> uint a" by (rule order_trans [OF _ uint_ge_0]) simp
  ultimately have "to_int32 a = uint a" unfolding to_int32_def by (intro signed_take_bit_int_eq_self)
  then show ?thesis by simp
qed

lemma to_int32_lost:
  assumes "2 ^ 31 \<le> a" "a < - (2 ^ 31)"
  shows "(word_of_int (to_int32 w) :: u64) \<noteq> a"
proof
  assume eq: "word_of_int (to_int32 w) = a"
  have a: "2 ^ 31 \<le> uint a" "uint a < 2 ^ 64 - 2 ^ 31"
    using assms by (simp_all add: word_le_def word_less_def)
  have "uint a = to_int32 w mod 2 ^ 64" using eq by (auto simp: uint_word_of_int)
  moreover have "to_int32 w mod 2 ^ 64 = to_int32 w + 2 ^ 64" if "to_int32 w < 0"
  proof -
    have "(to_int32 w + 2 ^ 64) mod 2 ^ 64 = to_int32 w + 2 ^ 64"
      using that to_int32_range [of w] by (intro mod_pos_pos_trivial) auto
    then show ?thesis by (simp only: mod_add_self2)
  qed
  moreover have "to_int32 w mod 2 ^ 64 = to_int32 w" if "0 \<le> to_int32 w"
    using that to_int32_range [of w] by (intro mod_pos_pos_trivial) auto
  ultimately show False using a to_int32_range [of w] by (cases "0 \<le> to_int32 w") auto
qed

interpretation intlst: wire isend_ints recv_ints "\<lambda>xs. length xs < 2 ^ 31" id
proof
  fix xs :: "int list" and ps
  assume "length xs < 2 ^ 31"
  then show "recv_ints (isend_ints xs @ ps) = Inr (id xs, ps)"
    by (cases xs) (auto simp: recv_ints_def isend_ints_def recv_dbls_def isend_dbls_def fill_buffer_def
        resize_list_def Let_def)
qed

lemma card_union_lists:
  assumes "finite grp" "\<forall>q \<in> grp. length (slotss ! q) < 2 ^ 31" "card grp \<le> 2 ^ 31"
  shows "card (\<Union>q \<in> grp. f ` set (slotss ! q)) \<le> 2 ^ 64"
proof -
  have "card (\<Union>q \<in> grp. f ` set (slotss ! q)) \<le> (\<Sum>q \<in> grp. card (f ` set (slotss ! q)))"
    by (rule card_UN_le [OF assms(1)])
  also have "\<dots> \<le> (\<Sum>q \<in> grp. 2 ^ 31)"
  proof (rule sum_mono)
    fix q assume "q \<in> grp"
    then have "length (slotss ! q) < 2 ^ 31" using assms(2) by blast
    then show "card (f ` set (slotss ! q)) \<le> 2 ^ 31"
      using card_image_le [of "set (slotss ! q)" f] card_length [of "slotss ! q"] by simp
  qed
  also have "\<dots> \<le> 2 ^ 31 * 2 ^ 31" using assms(3) by simp
  finally show ?thesis by simp
qed

lemma card_ids:
  assumes "\<forall>q < length slotss. length (slotss ! q) < 2 ^ 31" "length slotss \<le> 2 ^ 31"
  shows "card (ids_rows slotss (set (row_group npy (length slotss) rk))) \<le> 2 ^ 64"
    "card (ids_cols slotss (set (col_group npy (length slotss) rk))) \<le> 2 ^ 64"
proof -
  have c: "card (set (filter p [0..<length slotss])) \<le> 2 ^ 31" for p
    using card_length [of "filter p [0..<length slotss]"] length_filter_le [of p "[0..<length slotss]"] assms(2)
    by simp
  show "card (ids_rows slotss (set (row_group npy (length slotss) rk))) \<le> 2 ^ 64"
    "card (ids_cols slotss (set (col_group npy (length slotss) rk))) \<le> 2 ^ 64"
    unfolding ids_rows_def ids_cols_def row_group_def col_group_def
    by (rule card_union_lists; use assms(1) c in force)+
qed

section \<open>Properties\<close>

text \<open>
  C16: the exchange puts every triple in its place and loses none. When every rank has
  sorted its lines into slots, rank \<open>r\<close> of the grid ends with exactly the triples, of the lines
  of all ranks, whose row and column hash to \<open>r\<close>. The values of the triples that crossed
  are those read back from the printed six decimals; a rank's own triples keep theirs.
\<close>

theorem exchange_places:
  assumes "0 < nx" "0 < ny" "length lnss = nx * ny" "r < nx * ny"
    and "rmapM (lines_organize_u64 D one hf mix (nx, ny) (nx * ny) parser) lnss = Inr sbufs"
    and "\<forall>f < nx * ny. compacts_ok D rx (sbufs ! f ! r)"
  shows "\<exists>tss stf. rmapM (triples_of D one stoull mix parser) lnss = Inr tss \<and>
    exchange_u64 D rx dflt sbufs r = Inr stf \<and>
    mset stf = (\<Sum>f \<in> {0..<nx * ny}. mset (map (held r f (reread D)) (filter (slot_is hf (nx, ny) r) (tss ! f))))"
  unfolding exchange_defs by (rule exchange_slots [OF assms(1-4) assms(5) [unfolded lines_organize_u64_def]]) (use assms(6) compacts_rec_ok in blast)

text \<open>
  C14: \<open>index_mapping\<close> numbers identifiers reversibly and alike on every rank of a row and
  of a column. The row map of a rank lists, in increasing order, exactly the row identifiers of
  the ranks of its row of the grid, the column map the column identifiers of its column, and the
  numbered triples read back through the maps are the triples of the rank, in order.
\<close>

theorem index_mapping_consistent:
  fixes slotss :: "'d triple list list"
  assumes "0 < npy" "rk < length slotss" "length slotss \<le> 2 ^ 31"
    and "\<forall>q < length slotss. strlst_ok rx (map (\<lambda>(i, j, x). i) (slotss ! q)) \<and>
      strlst_ok rx (map (\<lambda>(i, j, x). j) (slotss ! q))"
  shows "let R = ids_rows slotss {q. q < length slotss \<and> q div npy = rk div npy};
      C = ids_cols slotss {q. q < length slotss \<and> q mod npy = rk mod npy}
    in \<exists>stf rm cm. index_mapping_str rx npy slotss rk [] [] = Inr (stf, rm, cm) \<and>
    map (\<lambda>(i, j, x). (dict_get rm i, dict_get cm j, x)) stf =
      map (\<lambda>(a, b, x). (Some a, Some b, x)) (slotss ! rk) \<and>
    (\<forall>i. dict_get rm i = (if unat i < card R then Some (sorted_list_of_set R ! unat i) else None)) \<and>
    (\<forall>i. dict_get cm i = (if unat i < card C then Some (sorted_list_of_set C ! unat i) else None))"
proof -
  have "\<forall>q < length slotss. length (slotss ! q) < 2 ^ 31"
    using assms(4) by (auto simp: strlst_ok_def)
  note c = card_ids [OF this assms(3), of npy rk]
  have w: "wire (isend_strlst :: string list \<Rightarrow> int packet list) (recv_strlst rx []) (strlst_ok rx) id"
    by (rule strlst.wire_axioms)
  have ok: "\<forall>q < length slotss. strlst_ok rx (map (\<lambda>(i, j, x). id i) (slotss ! q)) \<and>
      strlst_ok rx (map (\<lambda>(i, j, x). id j) (slotss ! q))" using assms(4) by simp
  have sets: "numbered_by (\<lambda>x. x) (\<lambda>x. x) = (sorted_list_of_set :: string set \<Rightarrow> _)" by (simp add: numbered_by_def fun_eq_iff)
  show ?thesis
    using index_mapping_numbers [OF w assms(2) ok _ c, of id]
    unfolding Let_def index_mapping_str_def row_group_set col_group_set id_def sets by blast
qed

text \<open>
  C32: the overload for 64-bit identifiers collects them in lists of 32-bit integers. An
  identifier from \<open>2^31\<close> up (the topmost \<open>2^31\<close> ones apart) is lost: no number of the row
  map stands for it, and its triples are given row 0, which is the row of another identifier.
\<close>

theorem index_mapping_narrows:
  assumes "0 < npy" "rk < length slotss" "\<forall>q < length slotss. length (slotss ! q) < 2 ^ 31"
    and "k < length (slotss ! rk)" "2 ^ 31 \<le> fst (slotss ! rk ! k)" "fst (slotss ! rk ! k) < - (2 ^ 31)"
    and "length slotss \<le> 2 ^ 31"
  shows "\<exists>stf rm cm. index_mapping_u64 npy slotss rk [] [] = Inr (stf, rm, cm) \<and> fst (stf ! k) = 0 \<and>
    (\<forall>i. dict_get rm i \<noteq> Some (fst (slotss ! rk ! k)))"
proof -
  let ?R = "ids_rows slotss (set (row_group npy (length slotss) rk))"
  let ?C = "ids_cols slotss (set (col_group npy (length slotss) rk))"
  let ?items = "sorted_list_of_set (to_int32 ` ?R)"
  let ?wid = "word_of_int :: int \<Rightarrow> u64"
  obtain rm rev_rm where r: "number_items ?wid ?items 0 [] [] = (rm, rev_rm)" by (rule prod.exhaust)
  obtain cm rev_cm where c: "number_items ?wid (sorted_list_of_set (to_int32 ` ?C)) 0 [] [] = (cm, rev_cm)"
    by (rule prod.exhaust)
  have fin: "finite ?R" by (simp add: ids_finite)
  have ran: "x \<noteq> fst (slotss ! rk ! k)" if "x \<in> ?wid ` set ?items" for x
    using that to_int32_lost [OF assms(5,6)] fin by auto
  have inj: "inj_on ?wid (to_int32 ` ?R)"
  proof (rule inj_onI)
    fix x y assume xy: "x \<in> to_int32 ` ?R" "y \<in> to_int32 ` ?R" "?wid x = ?wid y"
    then have "uint (?wid x) = uint (?wid y)" by simp
    then have "x mod 2 ^ 64 = y mod 2 ^ 64" by (simp add: uint_word_of_int)
    then have "(x + 2 ^ 31) mod 2 ^ 64 = (y + 2 ^ 31) mod 2 ^ 64" by (rule mod_add_cong) (rule refl)
    moreover have "- (2 ^ 31) \<le> x" "x < 2 ^ 31" "- (2 ^ 31) \<le> y" "y < 2 ^ 31"
      using xy to_int32_range by auto
    then have "0 \<le> x + 2 ^ 31" "0 \<le> y + 2 ^ 31" "x + 2 ^ 31 < 2 ^ 64" "y + 2 ^ 31 < 2 ^ 64" by auto
    ultimately have "x + 2 ^ 31 = y + 2 ^ 31" by (metis mod_pos_pos_trivial)
    then show "x = y" by simp
  qed
  have "length ?items \<le> card ?R" using fin by (simp add: card_image_le)
  then have "0 + length ?items \<le> 2 ^ 64" "distinct (map ?wid ?items)"
    using card_ids(1) [OF assms(3,7), of npy rk] fin inj by (simp_all add: distinct_map)
  from number_items_get [OF this, of "[]" "[]" rm rev_rm] r
  have n: "\<And>i. dict_get rm i = (if unat i < length ?items then Some (?wid (?items ! unat i)) else None)"
    "\<And>x. x \<notin> ?wid ` set ?items \<Longrightarrow> dict_get rev_rm x = None"
    by simp_all
  have "index_mapping_u64 npy slotss rk [] [] =
      Inr (map (\<lambda>(i, j, x). (rev_at rev_rm i, rev_at rev_cm j, x)) (slotss ! rk), rm, cm)"
    using index_mapping_result [OF intlst.wire_axioms assms(2), of to_int32 ?wid npy "[]" "[]"] r c assms(3)
    by (simp add: index_mapping_u64_def)
  moreover have "rev_at rev_rm (fst (slotss ! rk ! k)) = 0"
    using n(2) [of "fst (slotss ! rk ! k)"] ran unfolding rev_at_def by (metis option.case(1))
  moreover have "dict_get rm i \<noteq> Some (fst (slotss ! rk ! k))" for i
    using n(1) [of i] ran [of "?wid (?items ! unat i)"] by (auto simp del: set_sorted_list_of_set)
  ultimately show ?thesis using assms(4) by (simp add: case_prod_unfold)
qed

text \<open>
  Witnesses: two ranks, one below the other; rows are the even and the odd numbers under an
  identity hash.
\<close>

lemma digits_stoull:
  "stoull ''2'' = Inr 2" "stoull ''3'' = Inr 3" "stoull ''4'' = Inr 4" "stoull ''7'' = Inr 7" "stoull ''9'' = Inr 9"
  by (simp_all add: stoull_def is_space_def is_digit_def digits_val_def digit_val_def)

lemma split_lines:
  "str_split ''2 7 5'' CHR '' '' = [''2'', ''7'', ''5'']" "str_split ''3 7'' CHR '' '' = [''3'', ''7'']"
  "str_split ''4 9:6'' CHR '' '' = [''4'', ''9:6'']"
  "str_split_any ''7'' item_delimiter = [''7'']" "str_split_any ''9:6'' item_delimiter = [''9'', ''6'']"
  "dread nat_dbl ''5'' = Some 5" "dread nat_dbl ''6'' = Some 6"
  by code_simp+

theorem exchange_places_witness:
  "rmapM (lines_organize_u64 nat_dbl 1 id False (2, 1) (2 * 1) (\<lambda>l. parser_a l CHR '' ''))
     [[''2 7 5'', ''3 7''], [''4 9:6'']] = Inr [[[(2, 7, 5)], [(3, 7, 1)]], [[(4, 9, 6)], []]] \<and>
   (\<exists>stf. exchange_u64 nat_dbl (\<lambda>s sep. word_split sep s) (0, 0, 0)
     [[[(2, 7, 5)], [(3, 7, 1)]], [[(4, 9, 6)], []]] 0 = Inr stf \<and>
     mset stf = {#(2, 7, 5), (4, 9, 6)#})"
proof -
  let ?p = "\<lambda>l. parser_a l CHR '' ''"
  let ?lnss = "[[''2 7 5'', ''3 7''], [''4 9:6'']]"
  let ?sb = "[[[(2, 7, 5)], [(3, 7, 1)]], [[(4, 9, 6)], []]] :: nat compact_triple list list list"
  have org: "rmapM (lines_organize_u64 nat_dbl 1 id False (2, 1) (2 * 1) ?p) ?lnss = Inr ?sb"
  proof -
    have "replicate (2 * 1) [] = ([[], []] :: nat compact_triple list list)" by (simp add: numeral_2_eq_2)
    then show ?thesis
      by (simp add: lines_organize_u64_def lines_organize_def parser_a_def split_lines line_triples_def item_triple_def stod_def
          digits_stoull push_slot_def h_slot_def)
  qed
  have tr: "rmapM (triples_of nat_dbl 1 stoull False ?p) ?lnss = Inr [[(2, 7, 5), (3, 7, 1)], [(4, 9, 6)]]"
    by (simp add: triples_of_def parser_a_def split_lines line_triples_def item_triple_def stod_def
        digits_stoull)
  have ok: "\<forall>f < 2 * 1. compacts_ok nat_dbl (\<lambda>s sep. word_split sep s) (?sb ! f ! 0)"
  proof -
    have "compacts_ok nat_dbl (\<lambda>s sep. word_split sep s) [(2, 7, 5)]"
      "compacts_ok nat_dbl (\<lambda>s sep. word_split sep s) [(4, 9, 6)]"
      by (simp_all add: compacts_ok_def literal_plain nat_dbl_ok pack_all_def pack_compact_def
          to_string.simps seperator_def seperator_inner_def)
    then show ?thesis by (auto simp: less_2_cases_iff)
  qed
  have sum: "sum F {0..<2} = F 0 + F 1" for F :: "nat \<Rightarrow> nat compact_triple multiset"
    by (simp add: numeral_2_eq_2)
  obtain tss stf where "rmapM (triples_of nat_dbl 1 stoull False ?p) ?lnss = Inr tss"
    "exchange_u64 nat_dbl (\<lambda>s sep. word_split sep s) (0, 0, 0) ?sb 0 = Inr stf"
    "mset stf = (\<Sum>f \<in> {0..<2 * 1}. mset (map (held 0 f (reread nat_dbl)) (filter (slot_is id (2, 1) 0) (tss ! f))))"
    using exchange_places [OF _ _ _ _ org ok, of "(0, 0, 0)"] by auto
  then have "exchange_u64 nat_dbl (\<lambda>s sep. word_split sep s) (0, 0, 0) ?sb 0 = Inr stf \<and>
      mset stf = {#(2, 7, 5), (4, 9, 6)#}"
    using tr sum by (simp add: held_def h_slot_def nat_dbl_ok)
  then show ?thesis using org by blast
qed

theorem index_mapping_consistent_witness:
  "let slotss = [[(''b'', ''x'', 5 :: nat)], [(''a'', ''y'', 6)]]
   in \<exists>stf rm cm. index_mapping_str (\<lambda>s sep. word_split sep s) 2 slotss 0 [] [] = Inr (stf, rm, cm) \<and>
     map (\<lambda>(i, j, x). (dict_get rm i, dict_get cm j, x)) stf = [(Some ''b'', Some ''x'', 5)] \<and>
     dict_get rm 0 = Some ''a'' \<and> dict_get rm 1 = Some ''b'' \<and> dict_get rm 2 = None"
proof -
  let ?s = "[[(''b'', ''x'', 5)], [(''a'', ''y'', 6)]] :: nat triple list list"
  have "\<forall>q < length ?s. strlst_ok (\<lambda>s sep. word_split sep s) (map (\<lambda>(i, j, x). i) (?s ! q)) \<and>
      strlst_ok (\<lambda>s sep. word_split sep s) (map (\<lambda>(i, j, x). j) (?s ! q))"
    by (simp add: All_less_Suc strlst_ok_def literal_plain clean_no_P)
  note im = index_mapping_consistent [OF _ _ _ this, of 2 0]
  have "{q :: nat. q < length ?s \<and> q div 2 = 0 div 2} = {0, 1}" by auto
  then have R: "ids_rows ?s {q. q < length ?s \<and> q div 2 = 0 div 2} = {''b'', ''a''}"
    by (auto simp: ids_rows_def)
  have srt: "sorted_list_of_set {''b'', ''a''} = [''a'', ''b'']"
    by (rule sorted_distinct_set_unique) (auto simp: list_le_def list_less_def lexord_simps less_char_def)
  obtain stf rm cm where im: "index_mapping_str (\<lambda>s sep. word_split sep s) 2 ?s 0 [] [] = Inr (stf, rm, cm)"
    "map (\<lambda>(i, j, x). (dict_get rm i, dict_get cm j, x)) stf = map (\<lambda>(a, b, x). (Some a, Some b, x)) (?s ! 0)"
    "\<forall>i. dict_get rm i = (if unat i < card {''b'', ''a''} then Some ([''a'', ''b''] ! unat i) else None)"
    using im unfolding Let_def R srt by auto
  have "dict_get rm 0 = Some ''a''" "dict_get rm 1 = Some ''b''" "dict_get rm 2 = None"
    using im(3) by simp_all
  moreover have "map (\<lambda>(i, j, x). (dict_get rm i, dict_get cm j, x)) stf = [(Some ''b'', Some ''x'', 5)]"
    using im(2) by simp
  ultimately show ?thesis using im(1) unfolding Let_def
    by - (rule exI [of _ stf], rule exI [of _ rm], rule exI [of _ cm], intro conjI)
qed

theorem index_mapping_narrows_witness:
  "\<exists>stf rm cm. index_mapping_u64 1 [[(5, 1, 7 :: nat), (2147483648, 1, 8)]] 0 [] [] = Inr (stf, rm, cm) \<and>
     fst (stf ! 1) = 0 \<and> (\<forall>i. dict_get rm i \<noteq> Some 2147483648)"
  using index_mapping_narrows [of 1 0 "[[(5, 1, 7 :: nat), (2147483648, 1, 8)]]" 1] by simp

end
