(* ===== verification/Partition.thy ===== *)
theory Partition
  imports Prelude "HOL-Library.Signed_Division"
begin

text \<open>
  \<open>include/load/partition.hpp\<close>: the input files, taken one behind the other, are cut into
  \<open>np * blk_sz\<close> blocks of bytes, and the lines of a block are those that start in it: a
  reader skips the rest of a line it falls into and finishes the last line it started.

  The file system is the argument \<open>fs\<close>; a missing file has size -1 (\<open>tellg\<close>) and reads as
  empty. A stream is the text it has not read yet. Offsets are \<open>long\<close>; files are far below
  2^63 bytes, so they are integers here.
\<close>

section \<open>Reading lines\<close>

abbreviation newline :: char where
  "newline \<equiv> CHR 0x0A"

text \<open>\<open>std::getline\<close>: the line without its newline, and the stream behind it.\<close>

definition getline :: "string \<Rightarrow> string \<times> string" where
  "getline s = (takeWhile (\<lambda>c. c \<noteq> newline) s, drop 1 (dropWhile (\<lambda>c. c \<noteq> newline) s))"

lemma getline_Nil [simp]: "getline [] = ([], [])"
  by (simp add: getline_def)

lemma getline_length:
  assumes "getline s = (l, s')" "s \<noteq> []"
  shows "length s' < length s" "length s \<le> length l + 1 + length s'"
    "length l + length s' \<le> length s" "s' \<noteq> [] \<Longrightarrow> length s = length l + 1 + length s'"
proof -
  let ?d = "dropWhile (\<lambda>c. c \<noteq> newline) s"
  have s: "length s = length l + length ?d"
    using assms(1) by (metis Pair_inject getline_def length_append takeWhile_dropWhile_id)
  have s': "length s' = length ?d - 1" using assms(1) by (auto simp: getline_def)
  have "0 < length s" using assms(2) by simp
  then show "length s' < length s" "length s \<le> length l + 1 + length s'"
    "length l + length s' \<le> length s"
    using s s' by linarith+
  assume "s' \<noteq> []"
  then have "0 < length s'" by simp
  with s s' show "length s = length l + 1 + length s'" by linarith
qed

text \<open>The loops \<open>while(offset < en)\<close> and \<open>while(1)\<close> up to an empty line.\<close>

function load_until :: "string \<Rightarrow> int \<Rightarrow> int \<Rightarrow> string list" where
  "load_until s offset en =
     (if offset < en
      then let (l, s') = getline s in l # load_until s' (offset + int (length l) + 1) en
      else [])"
  by pat_completeness auto
termination
  by (relation "measure (\<lambda>(s, offset, en). nat (en - offset))") auto

function load_rest :: "string \<Rightarrow> string list" where
  "load_rest s = (let (l, s') = getline s in if l = [] then [] else l # load_rest s')"
  by pat_completeness auto
termination
proof (relation "measure length", goal_cases)
  case (2 s x l s')
  then have "s \<noteq> []" by auto
  with 2 getline_length(1) [of s l s'] show ?case by simp
qed auto

declare load_until.simps [simp del] load_rest.simps [simp del]

section \<open>partition\<close>

type_synonym files = "string \<Rightarrow> string option"

record partition =
  namelst :: "string list"
  np :: int
  pattern :: string
  slst :: "int list"
  elst :: "int list"
  displs :: "int list"

definition file_size :: "files \<Rightarrow> string \<Rightarrow> int" where
  "file_size fs name = (case fs name of None \<Rightarrow> -1 | Some c \<Rightarrow> int (length c))"

definition file_text :: "files \<Rightarrow> string \<Rightarrow> string" where
  "file_text fs name = (case fs name of None \<Rightarrow> [] | Some c \<Rightarrow> c)"

definition new_partition :: "string list \<Rightarrow> int \<Rightarrow> string \<Rightarrow> partition" where
  "new_partition names n pat =
     \<lparr>namelst = names, np = n, pattern = pat, slst = [], elst = [], displs = []\<rparr>"

text \<open>\<open>file_partition\<close> cuts one file; \<open>files_partition\<close> the concatenation of all of them.\<close>

definition block_bounds :: "int \<Rightarrow> int \<Rightarrow> int \<Rightarrow> int \<Rightarrow> int \<times> int" where
  "block_bounds sz nbk bk_sz i = (i * bk_sz, if i = nbk - 1 then sz else (i + 1) * bk_sz)"

definition block_list :: "int \<Rightarrow> int \<Rightarrow> (int \<times> int) list" where
  "block_list sz nbk = map (\<lambda>i. block_bounds sz nbk (sz sdiv nbk) (int i)) [0..<nat nbk]"

definition file_partition ::
  "files \<Rightarrow> string \<Rightarrow> int list \<Rightarrow> int list \<Rightarrow> partition \<Rightarrow> (int list \<times> int list) res"
where
  "file_partition fs fname ss ee P =
     (let sz = file_size fs fname; nbk = np P
      in if nbk = 0 then Inl DivByZero
         else let bs = block_list sz nbk
              in Inr (ss @ map fst bs, ee @ map snd bs))"

fun add_displs :: "files \<Rightarrow> int \<Rightarrow> string list \<Rightarrow> int list" where
  "add_displs fs d [] = [d]"
| "add_displs fs d (n # ns) = d # add_displs fs (d + file_size fs n) ns"

text \<open>The number of blocks: one per process under the line patterns, \<open>blk_sz\<close> otherwise.\<close>

definition blocks_wanted :: "int \<Rightarrow> partition \<Rightarrow> int" where
  "blocks_wanted blk_sz P =
     np P * (if pattern P = ''linesplit'' \<or> pattern P = ''fvec'' then 1 else blk_sz)"

definition files_partition :: "files \<Rightarrow> int \<Rightarrow> partition \<Rightarrow> partition res" where
  "files_partition fs blk_sz P =
     (let ds = add_displs fs 0 (namelst P); sz = last ds; nbk = blocks_wanted blk_sz P
      in if nbk = 0 then Inl DivByZero
         else rbind (rmapM (\<lambda>b. if fst b < snd b then Inr b else Inl AssertFailed)
                (block_list sz nbk)) (\<lambda>bs.
              Inr (P\<lparr>slst := map fst bs, elst := map snd bs, displs := ds\<rparr>)))"

text \<open>\<open>file_load_lines_impl\<close>: the lines of one file that start in \<open>[st, en)\<close>.\<close>

definition skip_to :: "string \<Rightarrow> int \<Rightarrow> int \<times> string" where
  "skip_to s offset =
     (if offset \<noteq> 0
      then let (l, s') = getline (drop (nat (offset - 1)) s) in (offset + int (length l), s')
      else (offset, s))"

definition file_load_lines_impl :: "files \<Rightarrow> string \<Rightarrow> int \<Rightarrow> int \<Rightarrow> string list" where
  "file_load_lines_impl fs fname st en =
     (let (offset, s) = skip_to (file_text fs fname) st in load_until s offset en)"

text \<open>
  \<open>files_load_lines_impl\<close>: locate the first and the last file of the block, then read them in
  turn; \<open>load_step\<close> is the body of the loop over \<open>fi\<close>, on \<open>flag\<close> and the lines so far.
\<close>

definition locate_first :: "partition \<Rightarrow> int \<Rightarrow> nat" where
  "locate_first P st = fold (\<lambda>i f. if displs P ! i \<le> st then i else f) [0..<length (namelst P)] 0"

definition locate_last :: "partition \<Rightarrow> int \<Rightarrow> nat" where
  "locate_last P en =
     fold (\<lambda>i f. if displs P ! (i + 1) < en then i + 1 else f) [0..<length (namelst P)] 0"

definition load_step ::
  "files \<Rightarrow> partition \<Rightarrow> int \<Rightarrow> int \<Rightarrow> nat \<Rightarrow> nat \<Rightarrow> bool \<times> string list \<Rightarrow> (bool \<times> string list) res"
where
  "load_step fs P st en fen fi = (\<lambda>(flag, lines).
     rbind (nth_res (displs P) fi) (\<lambda>d.
     let offset = (if flag then 0 else st - d)
     in if offset < 0 then Inl AssertFailed
        else rbind (nth_res (namelst P) fi) (\<lambda>name.
          let (offset, s) = skip_to (file_text fs name) offset
          in if fi = fen then Inr (flag, lines @ load_until s (offset + d) en)
             else Inr (True, lines @ load_rest s))))"

definition files_load_lines_impl ::
  "files \<Rightarrow> partition \<Rightarrow> int \<Rightarrow> int \<Rightarrow> string list res"
where
  "files_load_lines_impl fs P st en =
     (let fst_i = locate_first P st; fen = locate_last P en
      in if fen < fst_i then Inl AssertFailed
         else rbind (rfold (load_step fs P st en fen) [fst_i..<fen + 1] (False, []))
                (\<lambda>(flag, lines). Inr lines))"

text \<open>The overload that hands each line to a function instead of collecting them.\<close>

definition files_load_lines_handle ::
  "files \<Rightarrow> partition \<Rightarrow> int \<Rightarrow> int \<Rightarrow> (string \<Rightarrow> 's \<Rightarrow> 's) \<Rightarrow> 's \<Rightarrow> 's res"
where
  "files_load_lines_handle fs P st en func s =
     rbind (files_load_lines_impl fs P st en) (\<lambda>lines. Inr (fold func lines s))"

section \<open>Lemmas: lines and where they start\<close>

text \<open>The lines of a text, each with the offset of its first byte; the text starts at \<open>off\<close>.\<close>

function numbered :: "int \<Rightarrow> string \<Rightarrow> (int \<times> string) list" where
  "numbered off s =
     (if s = [] then []
      else let (l, s') = getline s in (off, l) # numbered (off + int (length l) + 1) s')"
  by pat_completeness auto
termination
proof (relation "measure (length \<circ> snd)", goal_cases)
  case (2 off s x l s')
  then show ?case using getline_length(1) [of s l s'] by simp
qed simp

declare numbered.simps [simp del]

lemma numbered_Nil [simp]: "numbered off [] = []"
  by (simp add: numbered.simps)

lemma numbered_step:
  "s \<noteq> [] \<Longrightarrow> getline s = (l, s') \<Longrightarrow>
     numbered off s = (off, l) # numbered (off + int (length l) + 1) s'"
  by (simp add: numbered.simps [of off s])

lemma numbered_induct [case_names Nil line]:
  assumes "\<And>off. P off []"
    and "\<And>off s l s'. s \<noteq> [] \<Longrightarrow> getline s = (l, s') \<Longrightarrow> length s' < length s \<Longrightarrow>
      P (off + int (length l) + 1) s' \<Longrightarrow> P off s"
  shows "P off s"
proof (induction s arbitrary: off rule: length_induct)
  case (1 s)
  show ?case
  proof (cases "s = []")
    case False
    obtain l s' where g: "getline s = (l, s')" by fastforce
    with False getline_length(1) 1 assms(2) [OF False g] show ?thesis by blast
  qed (simp add: assms(1))
qed

lemma numbered_bounds: "(o', l) \<in> set (numbered off s) \<Longrightarrow> off \<le> o' \<and> o' < off + int (length s)"
proof (induction off s rule: numbered_induct)
  case (line off s l1 s')
  then show ?case
    using getline_length(4) [OF line(2,1)] by (cases "s' = []") (auto simp: numbered_step [OF line(1,2)])
qed simp

lemma numbered_sorted: "sorted_wrt (<) (map fst (numbered off s))"
proof (induction off s rule: numbered_induct)
  case (line off s l s')
  then show ?case by (auto simp: numbered_step [OF line(1,2)] dest: numbered_bounds)
qed simp

text \<open>Reading up to \<open>en\<close> gives the lines that start before it; skipping to \<open>k\<close> leaves those
  that start at \<open>k\<close> or later.\<close>

lemma load_until_numbered:
  "en \<le> off + int (length s) \<Longrightarrow>
     load_until s off en = map snd (filter (\<lambda>(o', l). o' < en) (numbered off s))"
proof (induction off s rule: numbered_induct)
  case (Nil off)
  then show ?case by (simp add: load_until.simps)
next
  case (line off s l s')
  have "en \<le> off + int (length l) + 1 + int (length s')"
    using line.prems getline_length(2) [OF line(2,1)] by linarith
  with line have IH: "load_until s' (off + int (length l) + 1) en =
      map snd (filter (\<lambda>(o', l). o' < en) (numbered (off + int (length l) + 1) s'))"
    by blast
  show ?case
  proof (cases "off < en")
    case True
    with IH line(1,2) show ?thesis by (simp add: load_until.simps [of s] numbered_step)
  next
    case False
    then have "filter (\<lambda>(o', l). o' < en) (numbered off s) = []"
      by (auto simp: filter_empty_conv dest: numbered_bounds)
    with False show ?thesis by (simp add: load_until.simps)
  qed
qed

lemma getline_drop:
  assumes "getline s = (l, s')" "k \<le> length l"
  shows "getline (drop k s) = (drop k l, s')"
proof -
  have l: "l = takeWhile (\<lambda>c. c \<noteq> newline) s" "s' = drop 1 (dropWhile (\<lambda>c. c \<noteq> newline) s)"
    using assms(1) by (auto simp: getline_def)
  then have "s = l @ dropWhile (\<lambda>c. c \<noteq> newline) s" by simp
  then have d: "drop k s = drop k l @ dropWhile (\<lambda>c. c \<noteq> newline) s"
    using assms(2) by (metis append_Nil diff_is_0_eq drop0 drop_append)
  have all: "\<forall>c \<in> set (drop k l). c \<noteq> newline"
    using l(1) by (metis in_set_dropD set_takeWhileD)
  have "takeWhile (\<lambda>c. c \<noteq> newline) (dropWhile (\<lambda>c. c \<noteq> newline) s) = []"
    by (induction s) auto
  then show ?thesis using all l(2) by (simp add: getline_def d takeWhile_append2 dropWhile_append2)
qed

lemma getline_drop_past:
  assumes "getline s = (l, s')" "s \<noteq> []" "length l < k"
  shows "drop k s = drop (k - (length l + 1)) s'"
proof -
  have l: "l = takeWhile (\<lambda>c. c \<noteq> newline) s" "s' = drop 1 (dropWhile (\<lambda>c. c \<noteq> newline) s)"
    using assms(1) by (auto simp: getline_def)
  then have "s = l @ dropWhile (\<lambda>c. c \<noteq> newline) s" by simp
  then have "drop k s = drop (k - length l) (dropWhile (\<lambda>c. c \<noteq> newline) s)"
    using assms(3) by (metis append_Nil drop_all drop_append less_imp_le)
  also have "\<dots> = drop (k - (length l + 1)) s'" using assms(3) l(2) by (simp add: Suc_diff_Suc)
  finally show ?thesis .
qed

lemma skip_numbered:
  "0 < k \<Longrightarrow> getline (drop (k - 1) s) = (l', r) \<Longrightarrow>
     numbered (off + int k + int (length l')) r =
       filter (\<lambda>(o', l). off + int k \<le> o') (numbered off s)"
proof (induction off s arbitrary: k rule: numbered_induct)
  case (line off s l s')
  have past: "filter (\<lambda>(o', l). off + int k \<le> o') (numbered off s) =
      filter (\<lambda>(o', l). off + int k \<le> o') (numbered (off + int (length l) + 1) s')"
    using line.prems(1) by (simp add: numbered_step [OF line(1,2)])
  show ?case
  proof (cases "k - 1 \<le> length l")
    case True
    then have "l' = drop (k - 1) l" "r = s'"
      using getline_drop [OF line(2) True] line.prems(2) by auto
    then have "off + int k + int (length l') = off + int (length l) + 1" "r = s'"
      using True line.prems(1) by auto
    moreover have "filter (\<lambda>(o', l). off + int k \<le> o') (numbered (off + int (length l) + 1) s') =
        numbered (off + int (length l) + 1) s'"
      using True line.prems(1) by (auto simp: filter_id_conv dest!: numbered_bounds)
    ultimately show ?thesis by (simp only: past)
  next
    case False
    define k' where "k' = k - (length l + 1)"
    have k': "0 < k'" "off + int (length l) + 1 + int k' = off + int k"
      using False line.prems(1) by (auto simp: k'_def)
    have "drop (k - 1) s = drop (k' - 1) s'"
      using False getline_drop_past [OF line(2,1), of "k - 1"] by (simp add: k'_def diff_commute)
    with line.prems(2) have "getline (drop (k' - 1) s') = (l', r)" by simp
    from line(4) [OF k'(1) this] show ?thesis by (simp only: k'(2) past)
  qed
qed auto

lemma load_rest_numbered:
  "\<forall>(o', l) \<in> set (numbered off s). l \<noteq> [] \<Longrightarrow> load_rest s = map snd (numbered off s)"
proof (induction off s rule: numbered_induct)
  case (Nil off)
  then show ?case by (simp add: load_rest.simps)
next
  case (line off s l s')
  then show ?case by (simp add: numbered_step [OF line(1,2)] load_rest.simps [of s])
qed

text \<open>\<open>skip_to\<close> in one statement, for an offset inside the text.\<close>

lemma skip_to_numbered:
  assumes "0 \<le> k" "skip_to s k = (k', r)"
  shows "numbered (off + k') r = filter (\<lambda>(o', l). off + k \<le> o') (numbered off s)"
    and "int (length s) \<le> k' + int (length r)"
proof -
  have "numbered (off + k') r = filter (\<lambda>(o', l). off + k \<le> o') (numbered off s) \<and>
    int (length s) \<le> k' + int (length r)"
  proof (cases "k = 0")
    case True
    then show ?thesis
      using assms(2) by (auto simp: skip_to_def intro!: filter_True [symmetric] dest: numbered_bounds)
  next
    case False
    obtain l' where g: "getline (drop (nat (k - 1)) s) = (l', r)" "k' = k + int (length l')"
      using assms(2) False by (auto simp: skip_to_def split: prod.splits)
    have nk: "nat (k - 1) = nat k - 1" using assms(1) by simp
    have "drop (nat (k - 1)) s \<noteq> [] \<Longrightarrow>
        length (drop (nat (k - 1)) s) \<le> length l' + 1 + length r"
      using getline_length(2) [OF g(1)] by blast
    then have "int (length s) \<le> k' + int (length r)"
      using g(2) assms(1) False by (cases "drop (nat (k - 1)) s = []") auto
    moreover have "numbered (off + k') r = filter (\<lambda>(o', l). off + k \<le> o') (numbered off s)"
      using skip_numbered [of "nat k" s l' r off] g assms(1) False by (simp add: nk add.assoc)
    ultimately show ?thesis by simp
  qed
  then show "numbered (off + k') r = filter (\<lambda>(o', l). off + k \<le> o') (numbered off s)"
    and "int (length s) \<le> k' + int (length r)" by auto
qed

section \<open>Lemmas: the files one behind the other\<close>

fun all_lines :: "files \<Rightarrow> int \<Rightarrow> string list \<Rightarrow> (int \<times> string) list" where
  "all_lines fs d [] = []"
| "all_lines fs d (n # ns) = numbered d (file_text fs n) @ all_lines fs (d + file_size fs n) ns"

lemma length_add_displs [simp]: "length (add_displs fs d names) = Suc (length names)"
  by (induction fs d names rule: add_displs.induct) auto

lemma add_displs_0 [simp]: "add_displs fs d names ! 0 = d"
  by (cases names) auto

lemma add_displs_Suc:
  "i < length names \<Longrightarrow>
     add_displs fs d names ! Suc i = add_displs fs d names ! i + file_size fs (names ! i)"
proof (induction fs d names arbitrary: i rule: add_displs.induct)
  case (2 fs d n ns)
  then show ?case by (cases i) auto
qed simp

lemma all_lines_concat:
  "all_lines fs d names =
     concat (map (\<lambda>i. numbered (add_displs fs d names ! i) (file_text fs (names ! i)))
       [0..<length names])"
proof (induction fs d names rule: all_lines.induct)
  case (2 fs d n ns)
  then show ?case by (simp add: upt_conv_Cons map_Suc_upt [symmetric] comp_def del: upt_Suc)
qed simp

lemma fold_last:
  "(\<exists>i < n. Q i \<and> fold (\<lambda>i f. if Q i then g i else f) [0..<n] z = g i \<and>
      (\<forall>j. i < j \<and> j < n \<longrightarrow> \<not> Q j)) \<or>
   (\<forall>j < n. \<not> Q j) \<and> fold (\<lambda>i f. if Q i then g i else f) [0..<n] z = z"
  by (induction n) (auto simp: less_Suc_eq)

text \<open>A partition of existing files whose displacements are computed.\<close>

definition placed :: "files \<Rightarrow> partition \<Rightarrow> bool" where
  "placed fs P \<longleftrightarrow> (\<forall>n \<in> set (namelst P). fs n \<noteq> None) \<and> displs P = add_displs fs 0 (namelst P)"

lemma file_size_text: "fs n \<noteq> None \<Longrightarrow> file_size fs n = int (length (file_text fs n))"
  by (auto simp: file_size_def file_text_def)

lemma placed_Suc:
  "placed fs P \<Longrightarrow> i < length (namelst P) \<Longrightarrow>
     displs P ! Suc i = displs P ! i + int (length (file_text fs (namelst P ! i)))"
  by (simp add: placed_def add_displs_Suc file_size_text)

lemma placed_mono:
  assumes "placed fs P" "i \<le> j" "j \<le> length (namelst P)"
  shows "displs P ! i \<le> displs P ! j"
  using assms(2,3)
proof (induction rule: dec_induct)
  case (step k)
  then show ?case using placed_Suc [OF assms(1), of k] by simp
qed simp

lemma placed_last:
  assumes "placed fs P"
  shows "last (displs P) = displs P ! length (namelst P)"
proof -
  have "length (displs P) = Suc (length (namelst P))" using assms by (simp add: placed_def)
  then show ?thesis by (cases "displs P" rule: rev_cases) (auto simp: nth_append)
qed

text \<open>The files a block touches.\<close>

lemma locate_files:
  assumes "placed fs P" "0 \<le> st" "st < en" "en \<le> last (displs P)"
  shows "locate_first P st \<le> locate_last P en" "locate_last P en < length (namelst P)"
    "displs P ! locate_first P st \<le> st"
    "\<And>i. locate_first P st < i \<Longrightarrow> i < length (namelst P) \<Longrightarrow> st < displs P ! i"
    "\<And>i. i \<le> locate_last P en \<Longrightarrow> displs P ! i < en"
    "en \<le> displs P ! Suc (locate_last P en)"
proof -
  let ?n = "length (namelst P)" and ?f = "locate_first P st" and ?l = "locate_last P en"
  have d0: "displs P ! 0 = 0" using assms(1) by (simp add: placed_def)
  have n: "0 < ?n"
    using assms d0 placed_last [OF assms(1)] by (cases "?n = 0") auto
  have f: "?f < ?n" "displs P ! ?f \<le> st" "\<And>i. ?f < i \<Longrightarrow> i < ?n \<Longrightarrow> st < displs P ! i"
    using fold_last [of ?n "\<lambda>i. displs P ! i \<le> st" "\<lambda>i. i" 0] n d0 assms(2)
    unfolding locate_first_def by fastforce+
  have "displs P ! ?l < en \<and> ?l \<le> ?n \<and> (\<forall>i. ?l \<le> i \<and> i < ?n \<longrightarrow> en \<le> displs P ! Suc i)"
    using fold_last [of ?n "\<lambda>i. displs P ! (i + 1) < en" "\<lambda>i. i + 1" 0]
    unfolding locate_last_def [symmetric]
  proof (elim disjE exE conjE)
    fix i
    assume "i < ?n" "displs P ! (i + 1) < en" "?l = i + 1"
      "\<forall>j. i < j \<and> j < ?n \<longrightarrow> \<not> displs P ! (j + 1) < en"
    then show ?thesis by (auto simp: Suc_le_eq not_less)
  next
    assume "\<forall>j < ?n. \<not> displs P ! (j + 1) < en" "?l = 0"
    then show ?thesis using d0 assms(2,3) by (auto simp: not_less)
  qed
  then have l: "displs P ! ?l < en" "?l \<le> ?n" "\<And>i. ?l \<le> i \<Longrightarrow> i < ?n \<Longrightarrow> en \<le> displs P ! Suc i"
    by auto
  show ln: "?l < ?n"
    using l(1,2) assms(4) placed_last [OF assms(1)] by (cases "?l = ?n") auto
  show "en \<le> displs P ! Suc ?l" by (rule l(3) [OF order.refl ln])
  show below: "displs P ! i < en" if "i \<le> ?l" for i
    using placed_mono [OF assms(1) that] l(1,2) by linarith
  show "?f \<le> ?l"
  proof (rule ccontr)
    assume "\<not> ?f \<le> ?l"
    then have "displs P ! Suc ?l \<le> displs P ! ?f"
      using placed_mono [OF assms(1), of "Suc ?l" ?f] f(1) by simp
    with \<open>en \<le> displs P ! Suc ?l\<close> f(2) assms(3) show False by linarith
  qed
  show "displs P ! ?f \<le> st" "\<And>i. ?f < i \<Longrightarrow> i < ?n \<Longrightarrow> st < displs P ! i" by (fact f)+
qed

text \<open>The lines of file \<open>i\<close> that start in the block, and the loop that collects them.\<close>

abbreviation file_lines :: "files \<Rightarrow> partition \<Rightarrow> nat \<Rightarrow> (int \<times> string) list" where
  "file_lines fs P i \<equiv> numbered (displs P ! i) (file_text fs (namelst P ! i))"

definition no_blank :: "files \<Rightarrow> partition \<Rightarrow> bool" where
  "no_blank fs P \<longleftrightarrow> (\<forall>i. Suc i < length (namelst P) \<longrightarrow> (\<forall>(o', l) \<in> set (file_lines fs P i). l \<noteq> []))"

lemma load_step_last:
  assumes "placed fs P" "fen < length (namelst P)" "en \<le> displs P ! Suc fen"
    and "if flag then st < displs P ! fen else displs P ! fen \<le> st"
  shows "load_step fs P st en fen fen (flag, ls) = Inr (flag, ls @
    map snd (filter (\<lambda>(o', l). st \<le> o' \<and> o' < en) (file_lines fs P fen)))"
proof -
  let ?d = "displs P ! fen" and ?s = "file_text fs (namelst P ! fen)"
  define k where "k = (if flag then 0 else st - ?d)"
  have k: "0 \<le> k" using assms(4) by (auto simp: k_def split: if_splits)
  obtain k' r where sk: "skip_to ?s k = (k', r)" by fastforce
  have "en \<le> ?d + k' + int (length r)"
    using skip_to_numbered(2) [OF k sk] placed_Suc [OF assms(1,2)] assms(3) by linarith
  from load_until_numbered [OF this]
  have "load_until r (k' + ?d) en = map snd (filter (\<lambda>(o', l). o' < en) (numbered (?d + k') r))"
    by (simp only: add.commute)
  also have "\<dots> = map snd (filter (\<lambda>(o', l). st \<le> o' \<and> o' < en) (file_lines fs P fen))"
    unfolding skip_to_numbered(1) [OF k sk] filter_filter
    by (rule arg_cong [where f = "map snd"], rule filter_cong)
      (use assms(4) in \<open>auto simp: k_def dest!: numbered_bounds split: if_splits\<close>)
  finally have L: "load_until r (k' + ?d) en =
      map snd (filter (\<lambda>(o', l). st \<le> o' \<and> o' < en) (file_lines fs P fen))" .
  have "fen < length (displs P)" using assms(1,2) by (simp add: placed_def)
  then show ?thesis
    using k sk L assms(2) by (simp add: load_step_def nth_res_def flip: k_def)
qed

lemma load_step_inner:
  assumes "placed fs P" "fi < fen" "fen < length (namelst P)" "displs P ! Suc fi < en"
    and "if flag then st < displs P ! fi else displs P ! fi \<le> st" "no_blank fs P"
  shows "load_step fs P st en fen fi (flag, ls) = Inr (True, ls @
    map snd (filter (\<lambda>(o', l). st \<le> o' \<and> o' < en) (file_lines fs P fi)))"
proof -
  let ?d = "displs P ! fi" and ?s = "file_text fs (namelst P ! fi)"
  define k where "k = (if flag then 0 else st - ?d)"
  have k: "0 \<le> k" using assms(5) by (auto simp: k_def split: if_splits)
  obtain k' r where sk: "skip_to ?s k = (k', r)" by fastforce
  have fi: "fi < length (namelst P)" using assms(2,3) by simp
  have "Suc fi < length (namelst P)" using assms(2,3) by simp
  with assms(6) have "\<forall>(o', l) \<in> set (file_lines fs P fi). l \<noteq> []"
    unfolding no_blank_def by blast
  then have nb: "\<forall>(o', l) \<in> set (numbered (?d + k') r). l \<noteq> []"
    by (auto simp: skip_to_numbered(1) [OF k sk])
  have "load_rest r = map snd (numbered (?d + k') r)" by (rule load_rest_numbered [OF nb])
  also have "\<dots> = map snd (filter (\<lambda>(o', l). st \<le> o' \<and> o' < en) (file_lines fs P fi))"
    unfolding skip_to_numbered(1) [OF k sk]
    by (rule arg_cong [where f = "map snd"], rule filter_cong)
      (use assms(4,5) placed_Suc [OF assms(1) fi]
       in \<open>auto simp: k_def dest!: numbered_bounds split: if_splits\<close>)
  finally have L: "load_rest r =
      map snd (filter (\<lambda>(o', l). st \<le> o' \<and> o' < en) (file_lines fs P fi))" .
  have "fi < length (displs P)" using assms(1) fi by (simp add: placed_def)
  then show ?thesis
    using k sk L assms(2) fi by (simp add: load_step_def nth_res_def flip: k_def)
qed

lemma load_loop:
  assumes "placed fs P" "fen < length (namelst P)" "en \<le> displs P ! Suc fen" "no_blank fs P"
    and "\<forall>i \<le> fen. displs P ! i < en" "a \<le> fen"
  shows "(if flag then st < displs P ! a else displs P ! a \<le> st) \<Longrightarrow>
    \<forall>i. a < i \<and> i \<le> fen \<longrightarrow> st < displs P ! i \<Longrightarrow>
    \<exists>fl. rfold (load_step fs P st en fen) [a..<Suc fen] (flag, ls) = Inr (fl, ls @
      concat (map (\<lambda>i. map snd (filter (\<lambda>(o', l). st \<le> o' \<and> o' < en) (file_lines fs P i)))
        [a..<Suc fen]))"
  using assms(6)
proof (induction a arbitrary: flag ls rule: inc_induct)
  case base
  then show ?case using load_step_last [OF assms(1-3)] by simp
next
  case (step a)
  have "load_step fs P st en fen a (flag, ls) = Inr (True, ls @
      map snd (filter (\<lambda>(o', l). st \<le> o' \<and> o' < en) (file_lines fs P a)))"
    using step.hyps step.prems assms(1,2,4,5) by (intro load_step_inner) auto
  moreover have "[a..<Suc fen] = a # [Suc a..<Suc fen]"
    using step.hyps by (simp add: upt_conv_Cons)
  moreover have "\<exists>fl. rfold (load_step fs P st en fen) [Suc a..<Suc fen] (True, ls @
      map snd (filter (\<lambda>(o', l). st \<le> o' \<and> o' < en) (file_lines fs P a))) = Inr (fl, (ls @
      map snd (filter (\<lambda>(o', l). st \<le> o' \<and> o' < en) (file_lines fs P a))) @
      concat (map (\<lambda>i. map snd (filter (\<lambda>(o', l). st \<le> o' \<and> o' < en) (file_lines fs P i)))
        [Suc a..<Suc fen]))"
    using step.hyps step.prems by (intro step.IH) auto
  ultimately show ?case by (simp del: upt_Suc)
qed

lemma file_lines_bounds:
  "placed fs P \<Longrightarrow> i < length (namelst P) \<Longrightarrow> (o', l) \<in> set (file_lines fs P i) \<Longrightarrow>
     displs P ! i \<le> o' \<and> o' < displs P ! Suc i"
  using placed_Suc numbered_bounds by fastforce

text \<open>A block loads exactly the lines that start in it.\<close>

lemma files_load_lines_block:
  assumes "placed fs P" "no_blank fs P" "0 \<le> st" "st < en" "en \<le> last (displs P)"
  shows "files_load_lines_impl fs P st en =
    Inr (map snd (filter (\<lambda>(o', l). st \<le> o' \<and> o' < en) (all_lines fs 0 (namelst P))))"
proof -
  let ?f = "locate_first P st" and ?l = "locate_last P en" and ?n = "length (namelst P)"
  let ?g = "\<lambda>i. map snd (filter (\<lambda>(o', l). st \<le> o' \<and> o' < en) (file_lines fs P i))"
  note loc = locate_files [OF assms(1,3-5)]
  have mid: "\<exists>fl. rfold (load_step fs P st en ?l) [?f..<Suc ?l] (False, []) =
      Inr (fl, [] @ concat (map ?g [?f..<Suc ?l]))"
    using assms(1,2) loc by (intro load_loop) auto
  have out: "?g i = []" if "i < ?n" "i < ?f \<or> ?l < i" for i
  proof -
    have "displs P ! Suc i \<le> st \<or> en \<le> displs P ! i"
      using that placed_mono [OF assms(1), of "Suc i" ?f] placed_mono [OF assms(1), of "Suc ?l" i]
        loc(1,2,3,6) by fastforce
    then show ?thesis
      using file_lines_bounds [OF assms(1) that(1)] by (fastforce simp: filter_empty_conv)
  qed
  have "[0..<?n] = [0..<?f] @ [?f..<Suc ?l] @ [Suc ?l..<?n]"
    using loc(1,2) upt_split [of 0 ?f ?n] upt_split [of ?f "Suc ?l" ?n] by (simp del: upt_Suc)
  moreover have "concat (map ?g [0..<?f]) = []" "concat (map ?g [Suc ?l..<?n]) = []"
    using out loc(1,2) by (intro concat_map_Nil; simp)+
  ultimately have "concat (map ?g [0..<?n]) = concat (map ?g [?f..<Suc ?l])"
    by (simp only: map_append concat_append append_Nil append_Nil2)
  moreover have "map snd (filter (\<lambda>(o', l). st \<le> o' \<and> o' < en) (all_lines fs 0 (namelst P)))
      = concat (map ?g [0..<?n])"
    using assms(1) by (simp add: placed_def all_lines_concat filter_concat map_concat comp_def)
  ultimately show ?thesis
    using mid loc(1) by (auto simp: files_load_lines_impl_def Let_def simp del: upt_Suc)
qed

lemma add_displs_last: "\<forall>n \<in> set names. fs n \<noteq> None \<Longrightarrow> d \<le> last (add_displs fs d names)"
proof (induction fs d names rule: add_displs.induct)
  case (2 fs d n ns)
  then have "d + file_size fs n \<le> last (add_displs fs (d + file_size fs n) ns)" by simp
  moreover have "add_displs fs (d + file_size fs n) ns \<noteq> []" by (cases ns) auto
  ultimately show ?case using "2.prems" by (simp add: file_size_text)
qed simp

lemma all_lines_sorted: "\<forall>n \<in> set names. fs n \<noteq> None \<Longrightarrow>
    sorted_wrt (<) (map fst (all_lines fs d names)) \<and>
    (\<forall>(o', l) \<in> set (all_lines fs d names). d \<le> o' \<and> o' < last (add_displs fs d names))"
proof (induction fs d names rule: all_lines.induct)
  case (2 fs d n ns)
  have sz: "file_size fs n = int (length (file_text fs n))" using "2.prems" by (simp add: file_size_text)
  have "add_displs fs (d + file_size fs n) ns \<noteq> []" by (cases ns) auto
  moreover have "d + file_size fs n \<le> last (add_displs fs (d + file_size fs n) ns)"
    using "2.prems" by (intro add_displs_last) simp
  ultimately show ?case using 2 sz numbered_sorted [of d "file_text fs n"]
    by (fastforce simp: sorted_wrt_append dest: numbered_bounds)
qed simp

text \<open>Consecutive ranges of a sorted list put together.\<close>

lemma filter_ranges:
  "sorted_wrt (<) (map fst xs) \<Longrightarrow> (s :: int) \<le> e \<Longrightarrow> e \<le> z \<Longrightarrow>
     filter (\<lambda>(o', l). s \<le> o' \<and> o' < e) xs @ filter (\<lambda>(o', l). e \<le> o' \<and> o' < z) xs =
     filter (\<lambda>(o', l). s \<le> o' \<and> o' < z) xs"
proof (induction xs)
  case (Cons x xs)
  obtain o' l where x: "x = (o', l)" by (cases x)
  show ?case
  proof (cases "e \<le> o'")
    case True
    have "filter (\<lambda>(o', l). s \<le> o' \<and> o' < e) xs = []"
      using Cons.prems(1) x True by (fastforce simp: filter_empty_conv)
    with Cons x True show ?thesis by auto
  next
    case False
    with Cons x show ?thesis by auto
  qed
qed simp

text \<open>A list of blocks without gaps, from \<open>s\<close> to \<open>z\<close>.\<close>

fun tiles :: "int \<Rightarrow> int \<Rightarrow> (int \<times> int) list \<Rightarrow> bool" where
  "tiles s z [] \<longleftrightarrow> s = z"
| "tiles s z ((s', e) # bs) \<longleftrightarrow> s' = s \<and> s < e \<and> tiles e z bs"

lemma tiles_le: "tiles s z bs \<Longrightarrow> s \<le> z"
  by (induction s z bs rule: tiles.induct) auto

lemma tiles_bounds: "tiles s z bs \<Longrightarrow> (a, b) \<in> set bs \<Longrightarrow> s \<le> a \<and> a < b \<and> b \<le> z"
  by (induction s z bs rule: tiles.induct) (auto dest: tiles_le)

lemma tiles_append: "tiles s z (bs @ [(a, b)]) \<longleftrightarrow> tiles s a bs \<and> a < b \<and> b = z"
  by (induction s z bs rule: tiles.induct) auto

lemma filter_tiles:
  assumes "sorted_wrt (<) (map fst xs)"
  shows "tiles s z bs \<Longrightarrow>
    concat (map (\<lambda>(a, b). filter (\<lambda>(o', l). a \<le> o' \<and> o' < b) xs) bs) =
    filter (\<lambda>(o', l). s \<le> o' \<and> o' < z) xs"
proof (induction s z bs rule: tiles.induct)
  case (1 s z)
  then show ?case by (simp add: case_prod_unfold)
next
  case (2 s z s' e bs)
  then show ?case using filter_ranges [OF assms, of s e z] tiles_le [of e z bs] by auto
qed

lemma block_bounds_tiles:
  assumes "0 < nbk" "int nbk \<le> sz" "k \<le> nbk"
  shows "tiles 0 (if k = nbk then sz else int k * (sz div int nbk))
    (map (\<lambda>i. block_bounds sz (int nbk) (sz div int nbk) (int i)) [0..<k])"
  using assms(3)
proof (induction k)
  case (Suc k)
  have b: "0 < sz div int nbk" using assms(1,2) by (simp add: pos_imp_zdiv_pos_iff)
  have "int k * (sz div int nbk) < sz" if "Suc k = nbk"
  proof -
    have "int nbk * (sz div int nbk) \<le> sz" by (metis mult_div_mod_eq le_add_same_cancel1
      pos_mod_sign assms(1) of_nat_0_less_iff)
    moreover have "int nbk = int k + 1" using that by simp
    ultimately show ?thesis using b by (simp add: distrib_right)
  qed
  then show ?case
    using Suc b by (auto simp: tiles_append block_bounds_def algebra_simps)
qed (use assms in simp)

text \<open>The lines of a text as \<open>while(std::getline(f, l))\<close> reads them.\<close>

function read_lines :: "string \<Rightarrow> string list" where
  "read_lines s = (if s = [] then [] else let (l, s') = getline s in l # read_lines s')"
  by pat_completeness auto
termination
proof (relation "measure length", goal_cases)
  case (2 s x l s')
  then show ?case using getline_length(1) [of s l s'] by simp
qed simp

declare read_lines.simps [simp del]

lemma read_lines_numbered: "read_lines s = map snd (numbered off s)"
proof (induction off s rule: numbered_induct)
  case (line off s l s')
  then show ?case by (simp add: read_lines.simps [of s] numbered_step [OF line(1,2)])
qed (simp add: read_lines.simps)

lemma read_lines_all: "map snd (all_lines fs d names) = concat (map (\<lambda>n. read_lines (file_text fs n)) names)"
  by (induction fs d names rule: all_lines.induct) (auto simp: read_lines_numbered [symmetric])

lemma load_rest_read: "load_rest s = takeWhile (\<lambda>l. l \<noteq> []) (read_lines s)"
proof (induction s rule: read_lines.induct)
  case (1 s)
  obtain l s' where g: "getline s = (l, s')" by fastforce
  show ?case
  proof (cases "s = []")
    case True
    then show ?thesis by (simp add: read_lines.simps [of "[]"] load_rest.simps [of "[]"])
  next
    case False
    with 1 g show ?thesis by (simp add: read_lines.simps [of s] load_rest.simps [of s])
  qed
qed

lemma rmapM_assert:
  "rmapM (\<lambda>b. if Q b then Inr b else Inl e) xs = (if \<forall>b \<in> set xs. Q b then Inr xs else Inl e)"
  by (induction xs) auto

lemma files_partition_placed:
  assumes "files_partition fs blk P = Inr P'" "\<forall>n \<in> set (namelst P). fs n \<noteq> None"
  shows "placed fs P'" "namelst P' = namelst P"
  using assms by (auto simp: files_partition_def placed_def res_simps Let_def split: if_splits)

lemma block_list_tiles:
  assumes "0 < nbk" "nbk \<le> sz"
  shows "tiles 0 sz (block_list sz nbk)" "length (block_list sz nbk) = nat nbk"
proof -
  have "sz sdiv nbk = sz div nbk" using assms by (simp add: signed_divide_int_def sgn_if)
  then show "tiles 0 sz (block_list sz nbk)"
    using block_bounds_tiles [of "nat nbk" sz "nat nbk"] assms by (simp add: block_list_def)
qed (simp add: block_list_def)

lemma files_partition_blocks:
  assumes "\<forall>n \<in> set (namelst P). fs n \<noteq> None" "0 < blocks_wanted blk P"
  shows "files_partition fs blk P =
    (let sz = last (add_displs fs 0 (namelst P)); bs = block_list sz (blocks_wanted blk P)
     in if blocks_wanted blk P \<le> sz
        then Inr (P\<lparr>slst := map fst bs, elst := map snd bs, displs := add_displs fs 0 (namelst P)\<rparr>)
        else Inl AssertFailed)"
proof -
  let ?sz = "last (add_displs fs 0 (namelst P))" and ?nbk = "blocks_wanted blk P"
  have sz: "0 \<le> ?sz" by (rule add_displs_last [OF assms(1)])
  have "(\<forall>b \<in> set (block_list ?sz ?nbk). fst b < snd b) \<longleftrightarrow> ?nbk \<le> ?sz"
  proof (cases "?nbk \<le> ?sz")
    case True
    then show ?thesis using tiles_bounds [OF block_list_tiles(1) [OF assms(2) True]] by auto
  next
    case False
    have "0 \<in> {0..<nat ?nbk}" using assms(2) by simp
    then have "block_bounds ?sz ?nbk (?sz sdiv ?nbk) (int 0) \<in> set (block_list ?sz ?nbk)"
      unfolding block_list_def set_map set_upt by (rule imageI)
    moreover have "?sz sdiv ?nbk = 0"
      using False sz by (simp add: signed_divide_int_def)
    then have "block_bounds ?sz ?nbk (?sz sdiv ?nbk) (int 0) = (0, 0)"
      using False sz assms(2) by (auto simp: block_bounds_def)
    ultimately have "(0, 0) \<in> set (block_list ?sz ?nbk)" by simp
    then show ?thesis using False by force
  qed
  then show ?thesis
    using assms(2) by (simp add: files_partition_def Let_def rmapM_assert)
qed

text \<open>The blocks of a partition, each loaded on its own, give all lines of all files.\<close>

lemma blocks_load:
  assumes "files_partition fs blk P = Inr P'" "\<forall>n \<in> set (namelst P). fs n \<noteq> None"
    and "0 < blocks_wanted blk P" "no_blank fs P'"
  shows "\<exists>bs. rmapM (\<lambda>(st, en). files_load_lines_impl fs P' st en) (zip (slst P') (elst P')) = Inr bs \<and>
    concat bs = concat (map (\<lambda>n. read_lines (file_text fs n)) (namelst P))"
proof -
  let ?sz = "last (displs P')" and ?all = "all_lines fs 0 (namelst P)"
  let ?g = "\<lambda>(st, en). map snd (filter (\<lambda>(o', l). st \<le> o' \<and> o' < en) ?all)"
  note pl = files_partition_placed [OF assms(1,2)]
  have sz: "?sz = last (add_displs fs 0 (namelst P))" using pl by (simp add: placed_def)
  have tl: "tiles 0 ?sz (zip (slst P') (elst P'))"
    using files_partition_blocks [OF assms(2,3)] assms(1)
      block_list_tiles [OF assms(3), of "last (add_displs fs 0 (namelst P))"]
    by (auto simp: Let_def zip_map_fst_snd sz split: if_splits)
  have "rmapM (\<lambda>(st, en). files_load_lines_impl fs P' st en) (zip (slst P') (elst P')) =
      Inr (map ?g (zip (slst P') (elst P')))"
    using files_load_lines_block [OF pl(1) assms(4)] tiles_bounds [OF tl] pl(2)
    by (intro rmapM_Inr_map) auto
  moreover have "concat (map ?g (zip (slst P') (elst P'))) =
      map snd (concat (map (\<lambda>(a, b). filter (\<lambda>(o', l). a \<le> o' \<and> o' < b) ?all)
        (zip (slst P') (elst P'))))"
    by (simp add: map_concat comp_def case_prod_unfold)
  moreover have "filter (\<lambda>(o', l). 0 \<le> o' \<and> o' < ?sz) ?all = ?all"
    using all_lines_sorted [OF assms(2), of 0] by (auto simp: filter_id_conv sz)
  ultimately show ?thesis
    using filter_tiles [OF _ tl, of ?all] all_lines_sorted [OF assms(2), of 0]
    by (simp flip: read_lines_all [of fs 0])
qed

section \<open>Properties\<close>

text \<open>
  C25: for existing files and a positive number of blocks, the partition succeeds
  exactly when there are at least as many bytes as blocks; then the blocks are as many as
  asked for and tile the bytes of all files without gap or overlap, none of them empty. With
  fewer bytes than blocks the assertion on the first empty block fails.
\<close>

theorem files_partition_tiles:
  assumes "\<forall>n \<in> set (namelst P). fs n \<noteq> None" "0 < blocks_wanted blk P"
  shows "if blocks_wanted blk P \<le> last (add_displs fs 0 (namelst P))
    then \<exists>P'. files_partition fs blk P = Inr P' \<and>
      length (slst P') = nat (blocks_wanted blk P) \<and> length (elst P') = length (slst P') \<and>
      tiles 0 (last (add_displs fs 0 (namelst P))) (zip (slst P') (elst P'))
    else files_partition fs blk P = Inl AssertFailed"
  using files_partition_blocks [OF assms]
    block_list_tiles [OF assms(2), of "last (add_displs fs 0 (namelst P))"]
  by (auto simp: Let_def zip_map_fst_snd)

theorem files_partition_tiles_witness:
  "files_partition (\<lambda>n. Some ''ab'') 1 (new_partition [''x'', ''y''] 2 ''fmap'') =
     Inr \<lparr>namelst = [''x'', ''y''], np = 2, pattern = ''fmap'', slst = [0, 2], elst = [2, 4],
       displs = [0, 2, 4]\<rparr> \<and>
   files_partition (\<lambda>n. Some ''ab'') 5 (new_partition [''x'', ''y''] 2 ''fmap'') = Inl AssertFailed"
proof -
  have "files_partition (\<lambda>n. Some ''ab'') 1 (new_partition [''x'', ''y''] 2 ''fmap'') =
     Inr \<lparr>namelst = [''x'', ''y''], np = 2, pattern = ''fmap'', slst = [0, 2], elst = [2, 4],
       displs = [0, 2, 4]\<rparr>"
    by code_simp
  moreover have "files_partition (\<lambda>n. Some ''ab'') 5 (new_partition [''x'', ''y''] 2 ''fmap'') =
      Inl AssertFailed"
    using files_partition_tiles [of "new_partition [''x'', ''y''] 2 ''fmap''" "\<lambda>n. Some ''ab''" 5]
    by (simp add: new_partition_def blocks_wanted_def file_size_def)
  ultimately show ?thesis by simp
qed

text \<open>
  C19: the parallel load reads every line exactly once and in order. The blocks of a
  successful partition, each loaded on its own, give back the concatenated lines of all
  files, however the block bounds cut the lines, when no file but the last has an empty line.
\<close>

theorem blocks_load_every_line_once:
  assumes "files_partition fs blk P = Inr P'" "\<forall>n \<in> set (namelst P). fs n \<noteq> None"
    and "0 < blocks_wanted blk P" "no_blank fs P'"
  shows "\<exists>bs. rmapM (\<lambda>(st, en). files_load_lines_impl fs P' st en) (zip (slst P') (elst P')) = Inr bs \<and>
    concat bs = concat (map (\<lambda>n. read_lines (file_text fs n)) (namelst P))"
  by (rule blocks_load [OF assms])

theorem blocks_load_every_line_once_witness:
  "files_partition (\<lambda>n. Some [CHR ''a'', newline, CHR ''b'', CHR ''c''])
       1 (new_partition [''x'', ''y''] 3 ''linesplit'') =
     Inr (new_partition [''x'', ''y''] 3 ''linesplit''\<lparr>slst := [0, 2, 4], elst := [2, 4, 8],
       displs := [0, 4, 8]\<rparr>) \<and>
   (\<exists>bs. rmapM (\<lambda>(st, en). files_load_lines_impl (\<lambda>n. Some [CHR ''a'', newline, CHR ''b'', CHR ''c''])
         (new_partition [''x'', ''y''] 3 ''linesplit''\<lparr>slst := [0, 2, 4], elst := [2, 4, 8],
            displs := [0, 4, 8]\<rparr>) st en) (zip [0, 2, 4] [2, 4, 8]) = Inr bs \<and>
      concat bs = [''a'', ''bc'', ''a'', ''bc''])"
proof -
  let ?fs = "\<lambda>n. Some [CHR ''a'', newline, CHR ''b'', CHR ''c'']"
  let ?P = "new_partition [''x'', ''y''] 3 ''linesplit''"
  let ?P' = "?P\<lparr>slst := [0, 2, 4], elst := [2, 4, 8], displs := [0, 4, 8]\<rparr>"
  have p: "files_partition ?fs 1 ?P = Inr ?P'" by code_simp
  have "numbered 0 [CHR ''a'', newline, CHR ''b'', CHR ''c''] = [(0, ''a''), (2, ''bc'')]" by code_simp
  then have nb: "no_blank ?fs ?P'"
    by (simp add: no_blank_def new_partition_def file_text_def)
  have "\<exists>bs. rmapM (\<lambda>(st, en). files_load_lines_impl ?fs ?P' st en) (zip (slst ?P') (elst ?P')) = Inr bs \<and>
      concat bs = concat (map (\<lambda>n. read_lines (file_text ?fs n)) (namelst ?P))"
    by (rule blocks_load_every_line_once [OF p _ _ nb]) (simp_all add: blocks_wanted_def new_partition_def)
  moreover have "concat (map (\<lambda>n. read_lines (file_text ?fs n)) (namelst ?P)) =
      [''a'', ''bc'', ''a'', ''bc'']"
    by code_simp
  ultimately show ?thesis using p by simp
qed

text \<open>
  A file that is not the last of its block is read up to its first empty line only:
  loading two files as one block gives the lines of the first file before its first empty
  line, then all lines of the second, and drops the rest of the first file.
\<close>

theorem blank_line_truncates:
  assumes "fs a = Some ta" "fs b = Some tb" "tb \<noteq> []"
    and "files_partition fs blk (new_partition [a, b] 1 ''linesplit'') = Inr P'"
  shows "files_load_lines_impl fs P' 0 (int (length ta + length tb)) =
    Inr (takeWhile (\<lambda>l. l \<noteq> []) (read_lines ta) @ read_lines tb)"
proof -
  let ?en = "int (length ta + length tb)"
  have ex: "\<forall>n \<in> set (namelst (new_partition [a, b] 1 ''linesplit'')). fs n \<noteq> None"
    using assms(1,2) by (simp add: new_partition_def)
  note pl = files_partition_placed [OF assms(4) ex]
  have nm: "namelst P' = [a, b]" using pl(2) by (simp add: new_partition_def)
  have ds: "displs P' = [0, int (length ta), ?en]"
    using pl(1) nm assms(1,2) by (simp add: placed_def file_size_def)
  have sz: "0 < length tb" using assms(3) by simp
  have loc: "locate_first P' 0 = (if ta = [] then 1 else 0)" "locate_last P' ?en = 1"
    using sz by (simp_all add: locate_first_def locate_last_def nm ds)
  have step: "load_step fs P' 0 ?en 1 0 (False, []) = Inr (True, load_rest ta)"
    by (simp add: load_step_def nth_res_def nm ds skip_to_def file_text_def assms(1))
  have "load_step fs P' 0 ?en 1 1 (fl, ls) = Inr (fl, ls @
      map snd (filter (\<lambda>(o', l). 0 \<le> o' \<and> o' < ?en) (numbered (int (length ta)) tb)))"
    if "if fl then ta \<noteq> [] else ta = []" for fl ls
    using load_step_last [OF pl(1), of 1 ?en fl 0 ls] that
    by (simp add: nm ds file_text_def assms(2) split: if_splits)
  moreover have "filter (\<lambda>(o', l). 0 \<le> o' \<and> o' < ?en) (numbered (int (length ta)) tb) =
      numbered (int (length ta)) tb"
    by (auto simp: filter_id_conv dest: numbered_bounds)
  ultimately have last: "load_step fs P' 0 ?en 1 1 (fl, ls) = Inr (fl, ls @ read_lines tb)"
    if "if fl then ta \<noteq> [] else ta = []" for fl ls
    using that by (simp add: read_lines_numbered [of tb "int (length ta)"])
  have nil: "read_lines [] = []" by (simp add: read_lines.simps)
  show ?thesis
  proof (cases "ta = []")
    case True
    then show ?thesis
      using last [of False "[]"] nil loc by (simp add: files_load_lines_impl_def)
  next
    case False
    then show ?thesis
      using step last [of True "load_rest ta"] loc
      by (simp add: files_load_lines_impl_def load_rest_read)
  qed
qed

theorem blank_line_truncates_witness:
  "files_load_lines_impl
     (\<lambda>n. Some (if n = ''x'' then [CHR ''a'', newline, newline, CHR ''b''] else ''c''))
     (new_partition [''x'', ''y''] 1 ''linesplit''\<lparr>slst := [0], elst := [5], displs := [0, 4, 5]\<rparr>) 0 5
   = Inr [''a'', ''c'']"
proof -
  let ?fs = "\<lambda>n. Some (if n = ''x'' then [CHR ''a'', newline, newline, CHR ''b''] else ''c'')"
  let ?P = "new_partition [''x'', ''y''] 1 ''linesplit''"
  have "files_partition ?fs 1 ?P = Inr (?P\<lparr>slst := [0], elst := [5], displs := [0, 4, 5]\<rparr>)"
    by code_simp
  from blank_line_truncates [of ?fs "''x''" "[CHR ''a'', newline, newline, CHR ''b'']" "''y''" "''c''",
      OF _ _ _ this]
  have "files_load_lines_impl ?fs (?P\<lparr>slst := [0], elst := [5], displs := [0, 4, 5]\<rparr>) 0 5 =
      Inr (takeWhile (\<lambda>l. l \<noteq> []) (read_lines [CHR ''a'', newline, newline, CHR ''b'']) @ read_lines ''c'')"
    by simp
  moreover have "takeWhile (\<lambda>l. l \<noteq> []) (read_lines [CHR ''a'', newline, newline, CHR ''b'']) @
      read_lines ''c'' = [''a'', ''c'']"
    by code_simp
  ultimately show ?thesis by simp
qed

end
