(* ===== verification/Dispatch.thy ===== *)
theory Dispatch
  imports Partition Decomp
begin

text \<open>
  The loading half of \<open>include/load/scheduler.hpp\<close> and \<open>src/scheduler.cpp\<close>: the process grid
  of a pattern, the fixed assignment of blocks to ranks (\<open>structure_load\<close>) and the dynamic one
  (\<open>schedule_load\<close>), where every other rank asks the leader for the next block.

  \<open>schedule_load\<close> is a step relation over the states of all ranks: the messages of one rank
  are a queue, a round of the leader's loop (under the mutex) is one step, and any pending
  request may be the one it receives. Blocks are loaded by an argument \<open>ld\<close>, in the code
  \<open>files_load_lines_impl\<close> on the bounds of the block.
\<close>

section \<open>Patterns\<close>

definition BLK_SZ :: nat where
  "BLK_SZ = 32"

definition dim_init :: "string \<Rightarrow> nat \<Rightarrow> (nat \<times> nat) res" where
  "dim_init pat n =
     (let (x, y) = npfactx n
      in rbind (if pat = ''fsmap'' then npfact2d n True else Inr (x, y)) (\<lambda>(x, y).
         Inr (if pat = ''smap'' then npfacty n else (x, y))))"

definition blk_sz_of :: "string \<Rightarrow> nat" where
  "blk_sz_of pat = (if pat = ''fvec'' \<or> pat = ''linesplit'' then 1 else BLK_SZ)"

lemma blk_sz_pos [simp]: "0 < blk_sz_of pat"
  by (simp add: blk_sz_of_def BLK_SZ_def)

text \<open>\<open>files_load_lines_impl(slst[i], elst[i])\<close>.\<close>

definition load_block :: "files \<Rightarrow> partition \<Rightarrow> nat \<Rightarrow> string list res" where
  "load_block fs P i =
     rbind (nth_res (slst P) i) (\<lambda>st. rbind (nth_res (elst P) i) (\<lambda>en.
     files_load_lines_impl fs P st en))"

section \<open>structure_load\<close>

definition structure_load :: "files \<Rightarrow> partition \<Rightarrow> string \<Rightarrow> nat \<Rightarrow> string list res" where
  "structure_load fs P pat rk =
     rfold (\<lambda>i result. rbind (load_block fs P i) (\<lambda>lines. Inr (result @ lines)))
       [rk * blk_sz_of pat..<(rk + 1) * blk_sz_of pat] []"

definition structure_load_handle ::
  "files \<Rightarrow> partition \<Rightarrow> string \<Rightarrow> nat \<Rightarrow> (string \<Rightarrow> 's \<Rightarrow> 's) \<Rightarrow> 's \<Rightarrow> 's res"
where
  "structure_load_handle fs P pat rk func s =
     rfold (\<lambda>i s. rbind (nth_res (slst P) i) (\<lambda>st. rbind (nth_res (elst P) i) (\<lambda>en.
         files_load_lines_handle fs P st en func s)))
       [rk * blk_sz_of pat..<(rk + 1) * blk_sz_of pat] s"

section \<open>schedule_load\<close>

text \<open>Where a rank is in its loop: at the head, waiting for the count, waiting for the flag, out.\<close>

datatype pc = Top | WaitCnt | WaitFlag | Done

record 'l worker =
  w_pc :: pc
  w_cnt :: nat
  w_flag :: bool
  w_result :: "'l list"
  w_inbox :: "nat list"

record 'l dispatch =
  d_control :: nat
  d_cnt :: nat
  d_flag :: bool
  d_result :: "'l list"
  d_reqs :: "nat list"
  d_workers :: "nat \<Rightarrow> 'l worker"

text \<open>\<open>ntasks\<close> and \<open>bnd\<close>, for \<open>sz\<close> ranks and \<open>blk_sz\<close> blocks each.\<close>

definition ntasks :: "nat \<Rightarrow> nat \<Rightarrow> nat" where
  "ntasks sz blk_sz = sz * blk_sz"

definition bnd :: "nat \<Rightarrow> nat \<Rightarrow> nat" where
  "bnd sz blk_sz = ntasks sz blk_sz + sz - 2"

text \<open>The start of the loops: the leader has loaded the first \<open>blk_sz\<close> blocks.\<close>

definition start_dispatch :: "(nat \<Rightarrow> 'l list res) \<Rightarrow> nat \<Rightarrow> 'l dispatch res" where
  "start_dispatch ld blk_sz =
     rbind (rfold (\<lambda>i result. rbind (ld i) (\<lambda>lines. Inr (result @ lines))) [0..<blk_sz] []) (\<lambda>result.
     Inr \<lparr>d_control = blk_sz, d_cnt = blk_sz - 1, d_flag = False, d_result = result, d_reqs = [],
       d_workers = (\<lambda>_. \<lparr>w_pc = Top, w_cnt = blk_sz - 1, w_flag = False, w_result = [], w_inbox = []\<rparr>)\<rparr>)"

abbreviation upd_worker :: "nat \<Rightarrow> ('l worker \<Rightarrow> 'l worker) \<Rightarrow> 'l dispatch \<Rightarrow> 'l dispatch" where
  "upd_worker i f d \<equiv> d\<lparr>d_workers := (d_workers d)(i := f (d_workers d i))\<rparr>"

text \<open>One round of the leader, for a request from \<open>src\<close>: two sends, the count and the flag.\<close>

definition serve :: "nat \<Rightarrow> nat \<Rightarrow> 'l dispatch \<Rightarrow> 'l dispatch" where
  "serve nt src d =
     (let cnt = (if d_flag d then d_cnt d else d_cnt d + 1)
      in upd_worker src (\<lambda>w. w\<lparr>w_inbox := w_inbox w @ [cnt, of_bool (d_flag d)]\<rparr>)
           (d\<lparr>d_control := d_control d + 1, d_cnt := cnt, d_reqs := remove1 src (d_reqs d),
             d_flag := d_flag d \<or> cnt = nt - 1\<rparr>))"

text \<open>The steps. A rank stays in its loop while neither \<open>flag\<close> nor the last count stops it.\<close>

inductive dstep :: "(nat \<Rightarrow> 'l list res) \<Rightarrow> nat \<Rightarrow> nat \<Rightarrow> nat \<Rightarrow> 'l dispatch \<Rightarrow> 'l dispatch \<Rightarrow> bool"
  for ld :: "nat \<Rightarrow> 'l list res" and sz :: nat and blk_sz :: nat and leader :: nat
where
  leave: "i < sz \<Longrightarrow> i \<noteq> leader \<Longrightarrow> w_pc (d_workers d i) = Top \<Longrightarrow>
    w_flag (d_workers d i) \<or> w_cnt (d_workers d i) = ntasks sz blk_sz - 1 \<Longrightarrow>
    dstep ld sz blk_sz leader d (upd_worker i (w_pc_update (\<lambda>_. Done)) d)"
| ask: "i < sz \<Longrightarrow> i \<noteq> leader \<Longrightarrow> w_pc (d_workers d i) = Top \<Longrightarrow>
    \<not> (w_flag (d_workers d i) \<or> w_cnt (d_workers d i) = ntasks sz blk_sz - 1) \<Longrightarrow>
    dstep ld sz blk_sz leader d
      (upd_worker i (w_pc_update (\<lambda>_. WaitCnt)) (d\<lparr>d_reqs := d_reqs d @ [i]\<rparr>))"
| answer: "d_control d < bnd sz blk_sz \<Longrightarrow> src \<in> set (d_reqs d) \<Longrightarrow>
    dstep ld sz blk_sz leader d (serve (ntasks sz blk_sz) src d)"
| get_cnt: "i < sz \<Longrightarrow> i \<noteq> leader \<Longrightarrow> w_pc (d_workers d i) = WaitCnt \<Longrightarrow>
    w_inbox (d_workers d i) = c # ms \<Longrightarrow>
    dstep ld sz blk_sz leader d
      (upd_worker i (\<lambda>w. w\<lparr>w_pc := WaitFlag, w_cnt := c, w_inbox := ms\<rparr>) d)"
| get_stop: "i < sz \<Longrightarrow> i \<noteq> leader \<Longrightarrow> w_pc (d_workers d i) = WaitFlag \<Longrightarrow>
    w_inbox (d_workers d i) = f # ms \<Longrightarrow> f \<noteq> 0 \<Longrightarrow>
    dstep ld sz blk_sz leader d
      (upd_worker i (\<lambda>w. w\<lparr>w_pc := Top, w_flag := True, w_inbox := ms\<rparr>) d)"
| get_block: "i < sz \<Longrightarrow> i \<noteq> leader \<Longrightarrow> w_pc (d_workers d i) = WaitFlag \<Longrightarrow>
    w_inbox (d_workers d i) = 0 # ms \<Longrightarrow> ld (w_cnt (d_workers d i)) = Inr lines \<Longrightarrow>
    dstep ld sz blk_sz leader d
      (upd_worker i (\<lambda>w. w\<lparr>w_pc := Top, w_flag := False, w_inbox := ms,
         w_result := w_result w @ lines\<rparr>) d)"

inductive dreach :: "(nat \<Rightarrow> 'l list res) \<Rightarrow> nat \<Rightarrow> nat \<Rightarrow> nat \<Rightarrow> 'l dispatch \<Rightarrow> bool"
  for ld :: "nat \<Rightarrow> 'l list res" and sz :: nat and blk_sz :: nat and leader :: nat
where
  start: "start_dispatch ld blk_sz = Inr d \<Longrightarrow> dreach ld sz blk_sz leader d"
| step: "dreach ld sz blk_sz leader d \<Longrightarrow> dstep ld sz blk_sz leader d d' \<Longrightarrow> dreach ld sz blk_sz leader d'"

text \<open>All loops are over; what each rank returns.\<close>

definition finished :: "nat \<Rightarrow> nat \<Rightarrow> nat \<Rightarrow> 'l dispatch \<Rightarrow> bool" where
  "finished sz blk_sz leader d \<longleftrightarrow> bnd sz blk_sz \<le> d_control d \<and>
     (\<forall>i < sz. i \<noteq> leader \<longrightarrow> w_pc (d_workers d i) = Done)"

definition schedule_result :: "nat \<Rightarrow> 'l dispatch \<Rightarrow> nat \<Rightarrow> 'l list" where
  "schedule_result leader d i = (if i = leader then d_result d else w_result (d_workers d i))"

section \<open>The invariant\<close>

text \<open>What a rank has been sent and not yet acted on, and whether it has its last message.\<close>

definition pending :: "'l worker \<Rightarrow> nat multiset" where
  "pending w = (case w_pc w of
      WaitCnt \<Rightarrow> (case w_inbox w of [c, f] \<Rightarrow> if f = 0 then {#c#} else {#} | _ \<Rightarrow> {#})
    | WaitFlag \<Rightarrow> (if w_inbox w = [0] then {#w_cnt w#} else {#})
    | _ \<Rightarrow> {#})"

definition retired :: "nat \<Rightarrow> 'l worker \<Rightarrow> bool" where
  "retired nt w \<longleftrightarrow> w_cnt w = nt - 1 \<or> (w_pc w = WaitCnt \<and> w_inbox w \<noteq> [] \<and> hd (w_inbox w) = nt - 1)"

text \<open>One worker, with its number of requests in the queue.\<close>

definition worker_inv :: "nat \<Rightarrow> nat \<Rightarrow> 'l worker \<Rightarrow> bool" where
  "worker_inv nt reqs w \<longleftrightarrow>
     (w_flag w \<longrightarrow> w_cnt w = nt - 1) \<and>
     (case w_pc w of
        Top \<Rightarrow> w_inbox w = [] \<and> reqs = 0
      | Done \<Rightarrow> w_inbox w = [] \<and> reqs = 0 \<and> w_cnt w = nt - 1
      | WaitCnt \<Rightarrow> \<not> w_flag w \<and> w_cnt w \<noteq> nt - 1 \<and>
          (w_inbox w = [] \<and> reqs = 1 \<or>
           reqs = 0 \<and> (\<exists>c f. w_inbox w = [c, f] \<and> c < nt \<and> (f = 0 \<or> f = 1 \<and> c = nt - 1)))
      | WaitFlag \<Rightarrow> \<not> w_flag w \<and> reqs = 0 \<and> w_cnt w < nt \<and>
          (\<exists>f. w_inbox w = [f] \<and> (f = 0 \<or> f = 1 \<and> w_cnt w = nt - 1)))"

definition block_lines :: "(nat \<Rightarrow> 'l list res) \<Rightarrow> nat \<Rightarrow> 'l multiset" where
  "block_lines ld b = (case ld b of Inr lines \<Rightarrow> mset lines | Inl _ \<Rightarrow> {#})"

definition content :: "(nat \<Rightarrow> 'l list res) \<Rightarrow> 'l worker \<Rightarrow> 'l multiset" where
  "content ld w = mset (w_result w) + (\<Sum>c \<in># pending w. block_lines ld c)"

abbreviation others :: "nat \<Rightarrow> nat \<Rightarrow> nat set" where
  "others sz leader \<equiv> {0..<sz} - {leader}"

text \<open>
  The whole: the leader's variables are determined by the number of rounds, as many workers are
  retired as rounds went beyond the last block, and what is loaded or on its way to be loaded
  are the blocks dealt so far.
\<close>

definition d_inv :: "(nat \<Rightarrow> 'l list res) \<Rightarrow> nat \<Rightarrow> nat \<Rightarrow> nat \<Rightarrow> 'l dispatch \<Rightarrow> bool" where
  "d_inv ld sz blk_sz leader d \<longleftrightarrow>
     (\<forall>i \<in> others sz leader. worker_inv (ntasks sz blk_sz) (count_list (d_reqs d) i) (d_workers d i)) \<and>
     set (d_reqs d) \<subseteq> others sz leader \<and> 0 < d_control d \<and>
     d_cnt d = min (d_control d - 1) (ntasks sz blk_sz - 1) \<and>
     (d_flag d \<longleftrightarrow> ntasks sz blk_sz \<le> d_control d) \<and>
     (\<Sum>i \<in> others sz leader. of_bool (retired (ntasks sz blk_sz) (d_workers d i))) =
       d_control d + 1 - ntasks sz blk_sz \<and>
     mset (d_result d) + (\<Sum>i \<in> others sz leader. content ld (d_workers d i)) =
       (\<Sum>b \<in> {0..<min (d_control d) (ntasks sz blk_sz)}. block_lines ld b)"

lemma sum_upd:
  fixes f :: "'w \<Rightarrow> 'm :: cancel_comm_monoid_add"
  assumes "finite A" "i \<in> A" "f x = f (g i) + e"
  shows "(\<Sum>j \<in> A. f ((g(i := x)) j)) = (\<Sum>j \<in> A. f (g j)) + e"
proof -
  have "(\<Sum>j \<in> A - {i}. f ((g(i := x)) j)) = (\<Sum>j \<in> A - {i}. f (g j))" by (rule sum.cong) auto
  then show ?thesis
    using sum.remove [OF assms(1,2), of "\<lambda>j. f ((g(i := x)) j)"]
      sum.remove [OF assms(1,2), of "\<lambda>j. f (g j)"] assms(3)
    by (simp add: ac_simps)
qed

lemmas sum_upd_same = sum_upd [where e = 0, unfolded add_0_right]

text \<open>A step of one worker that neither loses nor gains work.\<close>

definition quiet :: "(nat \<Rightarrow> 'l list res) \<Rightarrow> nat \<Rightarrow> 'l worker \<Rightarrow> 'l worker \<Rightarrow> bool" where
  "quiet ld nt w w' \<longleftrightarrow> content ld w' = content ld w \<and> retired nt w' = retired nt w"

text \<open>The components of an updated state, as rewrites: the invariant is large for \<open>simp\<close>.\<close>

lemma d_sel:
  "d_workers (d\<lparr>d_workers := a, d_reqs := r\<rparr>) = a" "d_reqs (d\<lparr>d_workers := a, d_reqs := r\<rparr>) = r"
  "d_control (d\<lparr>d_workers := a, d_reqs := r\<rparr>) = d_control d" "d_cnt (d\<lparr>d_workers := a, d_reqs := r\<rparr>) = d_cnt d"
  "d_flag (d\<lparr>d_workers := a, d_reqs := r\<rparr>) = d_flag d" "d_result (d\<lparr>d_workers := a, d_reqs := r\<rparr>) = d_result d"
  "d_workers (e\<lparr>d_control := k, d_cnt := c, d_flag := f\<rparr>) = d_workers e"
  "d_reqs (e\<lparr>d_control := k, d_cnt := c, d_flag := f\<rparr>) = d_reqs e"
  "d_control (e\<lparr>d_control := k, d_cnt := c, d_flag := f\<rparr>) = k"
  "d_cnt (e\<lparr>d_control := k, d_cnt := c, d_flag := f\<rparr>) = c"
  "d_flag (e\<lparr>d_control := k, d_cnt := c, d_flag := f\<rparr>) = f"
  "d_result (e\<lparr>d_control := k, d_cnt := c, d_flag := f\<rparr>) = d_result e"
  by simp_all

lemma d_inv_quiet:
  assumes "d_inv ld sz blk_sz leader d" "i \<in> others sz leader"
    and "quiet ld (ntasks sz blk_sz) (d_workers d i) w'"
    and "worker_inv (ntasks sz blk_sz) (count_list reqs i) w'"
    and "\<forall>j. j \<noteq> i \<longrightarrow> count_list reqs j = count_list (d_reqs d) j" "set reqs \<subseteq> others sz leader"
  shows "d_inv ld sz blk_sz leader (d\<lparr>d_workers := (d_workers d)(i := w'), d_reqs := reqs\<rparr>)"
proof -
  have "(\<Sum>j \<in> others sz leader. content ld (((d_workers d)(i := w')) j)) =
      (\<Sum>j \<in> others sz leader. content ld (d_workers d j))"
    by (rule sum_upd_same) (use assms(2,3) in \<open>auto simp: quiet_def\<close>)
  moreover have "(\<Sum>j \<in> others sz leader. of_bool (retired (ntasks sz blk_sz) (((d_workers d)(i := w')) j)) :: nat) =
      (\<Sum>j \<in> others sz leader. of_bool (retired (ntasks sz blk_sz) (d_workers d j)))"
    by (rule sum_upd_same) (use assms(2,3) in \<open>auto simp: quiet_def\<close>)
  moreover have "\<forall>j \<in> others sz leader.
      worker_inv (ntasks sz blk_sz) (count_list reqs j) (((d_workers d)(i := w')) j)"
    using assms(1,4,5) unfolding d_inv_def by auto
  ultimately show ?thesis
    using assms(1,6) unfolding d_inv_def d_sel by presburger
qed

lemmas worker_defs = worker_inv_def quiet_def content_def pending_def retired_def

lemma count_list_append_one: "count_list (xs @ [y]) x = count_list xs x + (if x = y then 1 else 0)"
  by (induction xs) auto

lemma count_list_remove1: "count_list (remove1 y xs) x = count_list xs x - (if x = y then 1 else 0)"
  by (induction xs) auto

text \<open>A round of the leader.\<close>

lemma d_inv_serve:
  assumes inv: "d_inv ld sz blk_sz leader d" and bnd: "src \<in> set (d_reqs d)" and nt: "1 < ntasks sz blk_sz"
  shows "d_inv ld sz blk_sz leader (serve (ntasks sz blk_sz) src d)"
proof -
  let ?nt = "ntasks sz blk_sz" and ?W = "others sz leader" and ?w = "d_workers d src"
  define cnt where "cnt = (if d_flag d then d_cnt d else d_cnt d + 1)"
  define w' where "w' = ?w\<lparr>w_inbox := w_inbox ?w @ [cnt, of_bool (d_flag d)]\<rparr>"
  have i: "\<And>i. i \<in> ?W \<Longrightarrow> worker_inv ?nt (count_list (d_reqs d) i) (d_workers d i)"
    "set (d_reqs d) \<subseteq> ?W" "0 < d_control d" "d_cnt d = min (d_control d - 1) (?nt - 1)"
    "d_flag d \<longleftrightarrow> ?nt \<le> d_control d"
    "(\<Sum>i \<in> ?W. of_bool (retired ?nt (d_workers d i))) = d_control d + 1 - ?nt"
    "mset (d_result d) + (\<Sum>i \<in> ?W. content ld (d_workers d i)) =
      (\<Sum>b \<in> {0..<min (d_control d) ?nt}. block_lines ld b)"
    using inv unfolding d_inv_def by blast+
  have src: "src \<in> ?W" using bnd i(2) by blast
  have "count_list (d_reqs d) src \<noteq> 0" using bnd by (simp add: count_list_0_iff)
  then have w: "w_pc ?w = WaitCnt" "w_inbox ?w = []" "\<not> w_flag ?w" "w_cnt ?w \<noteq> ?nt - 1"
    "count_list (d_reqs d) src = 1"
    using i(1) [OF src] by (auto simp: worker_inv_def split: pc.splits)
  have cnt: "cnt = min (d_control d) (?nt - 1)" using i(3,4,5) nt by (auto simp: cnt_def)
  have W': "worker_inv ?nt 0 w'"
    using w i(5) cnt nt by (auto simp: worker_inv_def w'_def)
  have ret: "\<not> retired ?nt ?w" "retired ?nt w' \<longleftrightarrow> ?nt \<le> d_control d + 1"
    using w cnt nt by (auto simp: retired_def w'_def)
  have con: "content ld w' = content ld ?w + (if d_control d < ?nt then block_lines ld (d_control d) else {#})"
    using w i(5) cnt by (auto simp: content_def pending_def w'_def)
  have eq: "serve ?nt src d = d\<lparr>d_workers := (d_workers d)(src := w'), d_reqs := remove1 src (d_reqs d),
      d_control := d_control d + 1, d_cnt := cnt, d_flag := d_flag d \<or> cnt = ?nt - 1\<rparr>"
    by (simp add: serve_def Let_def cnt_def w'_def)
  have "(\<Sum>j \<in> ?W. of_bool (retired ?nt (((d_workers d)(src := w')) j))) = d_control d + 2 - ?nt"
    using sum_upd [of ?W src "\<lambda>w. of_bool (retired ?nt w) :: nat" w' "d_workers d" "of_bool (?nt \<le> d_control d + 1)"]
      src i(6) ret by auto
  moreover have "mset (d_result d) + (\<Sum>j \<in> ?W. content ld (((d_workers d)(src := w')) j)) =
      (\<Sum>b \<in> {0..<min (d_control d + 1) ?nt}. block_lines ld b)"
  proof -
    have "(\<Sum>j \<in> ?W. content ld (((d_workers d)(src := w')) j)) =
        (\<Sum>j \<in> ?W. content ld (d_workers d j)) + (if d_control d < ?nt then block_lines ld (d_control d) else {#})"
      by (rule sum_upd [where f = "content ld"]) (use src con in auto)
    then show ?thesis using i(7) by (simp add: min_def not_less_eq_eq flip: add.assoc)
  qed
  moreover have "\<forall>j \<in> ?W. worker_inv ?nt (count_list (remove1 src (d_reqs d)) j) (((d_workers d)(src := w')) j)"
    using i(1) W' w(5) by (auto simp: count_list_remove1)
  moreover have "set (remove1 src (d_reqs d)) \<subseteq> ?W"
    using i(2) set_remove1_subset [of src "d_reqs d"] by blast
  moreover have "cnt = min (d_control d + 1 - 1) (?nt - 1)" "d_flag d \<or> cnt = ?nt - 1 \<longleftrightarrow> ?nt \<le> d_control d + 1"
    using cnt i(5) nt by auto
  ultimately show ?thesis unfolding eq d_inv_def d_sel by presburger
qed

text \<open>Every step keeps the invariant, if each block the rank is told to load can be loaded.\<close>

lemma d_inv_local:
  assumes "d_inv ld sz blk_sz leader d" "i \<in> others sz leader"
    and "\<And>n. worker_inv (ntasks sz blk_sz) n (d_workers d i) \<Longrightarrow>
      quiet ld (ntasks sz blk_sz) (d_workers d i) w' \<and> worker_inv (ntasks sz blk_sz) n w'"
  shows "d_inv ld sz blk_sz leader (d\<lparr>d_workers := (d_workers d)(i := w')\<rparr>)"
proof -
  have w: "worker_inv (ntasks sz blk_sz) (count_list (d_reqs d) i) (d_workers d i)"
    "set (d_reqs d) \<subseteq> others sz leader"
    using assms(1,2) unfolding d_inv_def by blast+
  have "d_inv ld sz blk_sz leader (d\<lparr>d_workers := (d_workers d)(i := w'), d_reqs := d_reqs d\<rparr>)"
    by (rule d_inv_quiet [OF assms(1,2)]) (use assms(3) [OF w(1)] w(2) in auto)
  then show ?thesis by simp
qed

lemma d_inv_step:
  assumes "dstep ld sz blk_sz leader d d'" and inv: "d_inv ld sz blk_sz leader d"
    and nt: "1 < ntasks sz blk_sz"
  shows "d_inv ld sz blk_sz leader d'"
  using assms(1)
proof cases
  case (leave i)
  show ?thesis unfolding leave(1)
    by (rule d_inv_local [OF inv]) (use leave in \<open>auto simp: worker_defs\<close>)
next
  case (ask i)
  have i: "i \<in> others sz leader" using ask by simp
  have w: "worker_inv (ntasks sz blk_sz) (count_list (d_reqs d) i) (d_workers d i)"
    "set (d_reqs d) \<subseteq> others sz leader"
    using inv i unfolding d_inv_def by blast+
  have "d_inv ld sz blk_sz leader (d\<lparr>d_workers := (d_workers d)(i := w_pc_update (\<lambda>_. WaitCnt) (d_workers d i)),
      d_reqs := d_reqs d @ [i]\<rparr>)"
    by (rule d_inv_quiet [OF inv i]) (use ask w i in \<open>auto simp: worker_defs count_list_append_one\<close>)
  moreover have "upd_worker i (w_pc_update (\<lambda>_. WaitCnt)) (d\<lparr>d_reqs := d_reqs d @ [i]\<rparr>) =
      d\<lparr>d_workers := (d_workers d)(i := w_pc_update (\<lambda>_. WaitCnt) (d_workers d i)), d_reqs := d_reqs d @ [i]\<rparr>"
    by (rule dispatch.equality) simp_all
  ultimately show ?thesis unfolding ask(1) by (simp only:)
next
  case (answer src)
  then show ?thesis using d_inv_serve [OF inv _ nt] by simp
next
  case (get_cnt i c ms)
  show ?thesis unfolding get_cnt(1)
    by (rule d_inv_local [OF inv]) (use get_cnt in \<open>auto simp: worker_defs\<close>)
next
  case (get_stop i f ms)
  show ?thesis unfolding get_stop(1)
    by (rule d_inv_local [OF inv]) (use get_stop in \<open>auto simp: worker_defs\<close>)
next
  case (get_block i ms lines)
  show ?thesis unfolding get_block(1)
    by (rule d_inv_local [OF inv]) (use get_block in \<open>auto simp: worker_defs block_lines_def\<close>)
qed

lemma d_inv_start:
  assumes "start_dispatch ld blk_sz = Inr d" "0 < blk_sz" "2 \<le> sz" "leader < sz"
  shows "d_inv ld sz blk_sz leader d"
proof -
  have nt: "blk_sz < ntasks sz blk_sz" using assms(2,3) by (simp add: ntasks_def)
  have load: "rfold (\<lambda>i result. rbind (ld i) (\<lambda>lines. Inr (result @ lines))) ns xs = Inr ys \<Longrightarrow>
      mset ys = mset xs + (\<Sum>b \<leftarrow> ns. block_lines ld b)" for ns xs ys
    by (induction ns arbitrary: xs) (auto simp: block_lines_def split: sum.splits)
  obtain ys where ys: "rfold (\<lambda>i result. rbind (ld i) (\<lambda>lines. Inr (result @ lines))) [0..<blk_sz] [] = Inr ys"
    and d: "d = \<lparr>d_control = blk_sz, d_cnt = blk_sz - 1, d_flag = False, d_result = ys, d_reqs = [],
       d_workers = (\<lambda>_. \<lparr>w_pc = Top, w_cnt = blk_sz - 1, w_flag = False, w_result = [], w_inbox = []\<rparr>)\<rparr>"
    using assms(1) unfolding start_dispatch_def by (auto simp: rbind_eq_Inr)
  have "mset ys = (\<Sum>b \<in> {0..<blk_sz}. block_lines ld b)"
    using load [OF ys] by (simp add: interv_sum_list_conv_sum_set_nat)
  then show ?thesis unfolding d_inv_def d using nt assms(2)
    by (auto simp: worker_defs)
qed

lemma d_inv_reach:
  assumes "dreach ld sz blk_sz leader d" "0 < blk_sz" "2 \<le> sz" "leader < sz"
  shows "d_inv ld sz blk_sz leader d"
proof -
  have "2 * 1 \<le> sz * blk_sz" using assms(2,3) by (intro mult_le_mono) auto
  then have "1 < ntasks sz blk_sz" by (simp add: ntasks_def)
  from assms(1) show ?thesis
  proof induction
    case (start d)
    then show ?case using d_inv_start assms(2-) by blast
  next
    case (step d d')
    then show ?case using d_inv_step \<open>1 < ntasks sz blk_sz\<close> by blast
  qed
qed

section \<open>Progress and termination\<close>

definition loadable :: "(nat \<Rightarrow> 'l list res) \<Rightarrow> nat \<Rightarrow> bool" where
  "loadable ld n \<longleftrightarrow> (\<forall>b < n. \<exists>lines. ld b = Inr lines)"

lemma d_inv_retired_le:
  assumes "d_inv ld sz blk_sz leader d" "leader < sz" "2 \<le> sz"
  shows "d_control d \<le> bnd sz blk_sz"
    and "bnd sz blk_sz \<le> d_control d \<Longrightarrow> i \<in> others sz leader \<Longrightarrow>
      retired (ntasks sz blk_sz) (d_workers d i)"
    and "\<forall>i \<in> others sz leader. retired (ntasks sz blk_sz) (d_workers d i) \<Longrightarrow>
      bnd sz blk_sz \<le> d_control d"
proof -
  let ?W = "others sz leader" and ?nt = "ntasks sz blk_sz"
  have card: "card ?W = sz - 1" using assms(2) by simp
  have s: "(\<Sum>i \<in> ?W. of_bool (retired ?nt (d_workers d i)) :: nat) = d_control d + 1 - ?nt"
    using assms(1) unfolding d_inv_def by blast
  have c: "(\<Sum>i \<in> ?W. of_bool (retired ?nt (d_workers d i)) :: nat) =
      card {i \<in> ?W. retired ?nt (d_workers d i)}"
    by (simp add: sum.If_cases of_bool_def Int_def flip: card_eq_sum)
  then have "d_control d + 1 - ?nt \<le> sz - 1"
    using card_mono [of ?W "{i \<in> ?W. retired ?nt (d_workers d i)}"] s card by (metis (no_types, lifting)
        Collect_subset finite_Diff finite_atLeastLessThan subset_iff mem_Collect_eq)
  then show "d_control d \<le> bnd sz blk_sz" using assms(3) unfolding bnd_def by linarith
  show "retired ?nt (d_workers d i)" if x: "bnd sz blk_sz \<le> d_control d" "i \<in> ?W"
  proof -
    have "card {i \<in> ?W. retired ?nt (d_workers d i)} \<ge> card ?W"
      using x(1) s c card assms(3) unfolding bnd_def by linarith
    then have "{i \<in> ?W. retired ?nt (d_workers d i)} = ?W"
      by (intro card_seteq) auto
    then show ?thesis using x(2) by blast
  qed
  show "bnd sz blk_sz \<le> d_control d" if x: "\<forall>i \<in> ?W. retired ?nt (d_workers d i)"
  proof -
    have "{i \<in> ?W. retired ?nt (d_workers d i)} = ?W" using x by blast
    then have "card ?W = d_control d + 1 - ?nt" using s c by simp
    then show ?thesis using card assms(3) unfolding bnd_def by linarith
  qed
qed

lemma dispatch_progress:
  assumes inv: "d_inv ld sz blk_sz leader d" and l: "leader < sz" "2 \<le> sz"
    and ld: "loadable ld (ntasks sz blk_sz)" and nf: "\<not> finished sz blk_sz leader d"
  shows "\<exists>d'. dstep ld sz blk_sz leader d d'"
proof (cases "\<forall>i < sz. i \<noteq> leader \<longrightarrow> w_pc (d_workers d i) = Done")
  case True
  have "\<forall>i \<in> others sz leader. retired (ntasks sz blk_sz) (d_workers d i)"
    using inv True unfolding d_inv_def by (auto simp: worker_inv_def retired_def)
  then have "bnd sz blk_sz \<le> d_control d" by (rule d_inv_retired_le(3) [OF inv l])
  then show ?thesis using nf True by (simp add: finished_def)
next
  case False
  then obtain i where i: "i < sz" "i \<noteq> leader" "w_pc (d_workers d i) \<noteq> Done" by blast
  have w: "worker_inv (ntasks sz blk_sz) (count_list (d_reqs d) i) (d_workers d i)"
    using inv i unfolding d_inv_def by auto
  consider "w_pc (d_workers d i) = Top" | "w_pc (d_workers d i) = WaitFlag"
    | "w_pc (d_workers d i) = WaitCnt" "w_inbox (d_workers d i) = []"
    | "w_pc (d_workers d i) = WaitCnt" "w_inbox (d_workers d i) \<noteq> []"
    using i(3) by (cases "w_pc (d_workers d i)") auto
  then show ?thesis
  proof cases
    case 1
    then show ?thesis using leave [OF i(1,2) 1] ask [OF i(1,2) 1] by blast
  next
    case 2
    then obtain f where f: "w_inbox (d_workers d i) = [f]" "w_cnt (d_workers d i) < ntasks sz blk_sz"
      using w by (auto simp: worker_inv_def)
    obtain lines where "ld (w_cnt (d_workers d i)) = Inr lines"
      using ld f(2) unfolding loadable_def by blast
    then show ?thesis using get_stop [OF i(1,2) 2 f(1)] get_block [OF i(1,2) 2, of "[]"] f(1) by (cases "f = 0") blast+
  next
    case 3
    then have "\<not> retired (ntasks sz blk_sz) (d_workers d i)" "count_list (d_reqs d) i \<noteq> 0"
      using w by (auto simp: worker_inv_def retired_def)
    then have "d_control d < bnd sz blk_sz" "i \<in> set (d_reqs d)"
      using d_inv_retired_le(2) [OF inv l, of i] i by (force, simp add: count_list_0_iff)
    then show ?thesis using answer by blast
  next
    case 4
    then obtain c ms where "w_inbox (d_workers d i) = c # ms" by (cases "w_inbox (d_workers d i)") auto
    then show ?thesis using get_cnt [OF i(1,2) 4(1)] by blast
  qed
qed

text \<open>How much work is left: rounds of the leader, then the way of each worker to its loop head.\<close>

definition potential :: "'l worker \<Rightarrow> nat" where
  "potential w = (case w_pc w of
      Done \<Rightarrow> 0 | Top \<Rightarrow> 2 | WaitFlag \<Rightarrow> 3 | WaitCnt \<Rightarrow> (if w_inbox w = [] then 1 else 4))"

lemma potential_pc:
  "w_pc w = Done \<Longrightarrow> potential w = 0" "w_pc w = Top \<Longrightarrow> potential w = 2"
  "w_pc w = WaitFlag \<Longrightarrow> potential w = 3" "w_pc w = WaitCnt \<Longrightarrow> w_inbox w = [] \<Longrightarrow> potential w = 1"
  "w_pc w = WaitCnt \<Longrightarrow> w_inbox w \<noteq> [] \<Longrightarrow> potential w = 4"
  by (simp_all add: potential_def)

definition d_left :: "nat \<Rightarrow> nat \<Rightarrow> nat \<Rightarrow> 'l dispatch \<Rightarrow> nat" where
  "d_left sz blk_sz leader d =
     5 * (bnd sz blk_sz - d_control d) + (\<Sum>i \<in> others sz leader. potential (d_workers d i))"

lemma sum_less_upd:
  fixes f :: "'w \<Rightarrow> nat"
  assumes "finite A" "i \<in> A"
  shows "(\<Sum>j \<in> A. f ((g(i := x)) j)) + f (g i) = (\<Sum>j \<in> A. f (g j)) + f x"
proof -
  have "(\<Sum>j \<in> A - {i}. f ((g(i := x)) j)) = (\<Sum>j \<in> A - {i}. f (g j))" by (rule sum.cong) auto
  then show ?thesis
    using sum.remove [OF assms, of "\<lambda>j. f ((g(i := x)) j)"] sum.remove [OF assms, of "\<lambda>j. f (g j)"] by simp
qed

lemma d_left_upd:
  assumes "i \<in> others sz leader" "d_workers d' = (d_workers d)(i := w')"
    and "5 * (bnd sz blk_sz - d_control d') + potential w' <
      5 * (bnd sz blk_sz - d_control d) + potential (d_workers d i)"
  shows "d_left sz blk_sz leader d' < d_left sz blk_sz leader d"
  using sum_less_upd [OF _ assms(1), of potential "d_workers d" w'] assms(3)
  unfolding d_left_def assms(2) by simp

lemma dispatch_decreases:
  assumes "dstep ld sz blk_sz leader d d'" and inv: "d_inv ld sz blk_sz leader d"
  shows "d_left sz blk_sz leader d' < d_left sz blk_sz leader d"
proof -
  have w: "worker_inv (ntasks sz blk_sz) (count_list (d_reqs d) i) (d_workers d i)"
    if "i \<in> others sz leader" for i
    using inv that unfolding d_inv_def by blast
  show ?thesis using assms(1)
  proof cases
    case (leave i)
    show ?thesis unfolding leave(1)
      by (rule d_left_upd [where i = i and w' = "w_pc_update (\<lambda>_. Done) (d_workers d i)"]) (use leave in \<open>auto simp: potential_pc\<close>)
  next
    case (ask i)
    show ?thesis unfolding ask(1)
      by (rule d_left_upd [of i]) (use ask w [of i] in \<open>auto simp: potential_pc worker_inv_def\<close>)
  next
    case (answer src)
    have src: "src \<in> others sz leader" "count_list (d_reqs d) src \<noteq> 0"
      using answer inv unfolding d_inv_def by (blast, simp add: count_list_0_iff)
    have "w_pc (d_workers d src) = WaitCnt" "w_inbox (d_workers d src) = []"
      using w [OF src(1)] src(2) by (auto simp: worker_inv_def split: pc.splits)
    then show ?thesis unfolding answer(1)
      by (intro d_left_upd [OF src(1)]) (use answer(2) in \<open>auto simp: serve_def Let_def potential_pc\<close>)
  next
    case (get_cnt i c ms)
    show ?thesis unfolding get_cnt(1)
      by (rule d_left_upd [of i]) (use get_cnt in \<open>auto simp: potential_pc\<close>)
  next
    case (get_stop i f ms)
    show ?thesis unfolding get_stop(1)
      by (rule d_left_upd [of i]) (use get_stop in \<open>auto simp: potential_pc\<close>)
  next
    case (get_block i ms lines)
    show ?thesis unfolding get_block(1)
      by (rule d_left_upd [of i]) (use get_block in \<open>auto simp: potential_pc\<close>)
  qed
qed

section \<open>The result\<close>

lemma dispatch_result:
  assumes inv: "d_inv ld sz blk_sz leader d" and fin: "finished sz blk_sz leader d"
    and l: "leader < sz" "2 \<le> sz"
  shows "(\<Sum>i \<in> {0..<sz}. mset (schedule_result leader d i)) =
    (\<Sum>b \<in> {0..<ntasks sz blk_sz}. block_lines ld b)"
proof -
  let ?W = "others sz leader"
  have "(\<Sum>i \<in> {0..<sz}. mset (schedule_result leader d i)) =
      mset (d_result d) + (\<Sum>i \<in> ?W. mset (schedule_result leader d i))"
    using sum.remove [of "{0..<sz}" leader "\<lambda>i. mset (schedule_result leader d i)"] l
    by (simp add: schedule_result_def)
  also have "(\<Sum>i \<in> ?W. mset (schedule_result leader d i)) = (\<Sum>i \<in> ?W. content ld (d_workers d i))"
    by (rule sum.cong) (use fin in \<open>auto simp: schedule_result_def content_def pending_def finished_def\<close>)
  also have "mset (d_result d) + \<dots> = (\<Sum>b \<in> {0..<min (d_control d) (ntasks sz blk_sz)}. block_lines ld b)"
    using inv unfolding d_inv_def by blast
  also have "min (d_control d) (ntasks sz blk_sz) = ntasks sz blk_sz"
    using fin l(2) unfolding finished_def bnd_def by linarith
  finally show ?thesis .
qed

text \<open>All blocks of a partition load, and together they are the lines of its files.\<close>

lemma rmapM_nth: "rmapM f xs = Inr ys \<Longrightarrow> i < length xs \<Longrightarrow> f (xs ! i) = Inr (ys ! i)"
  by (induction xs arbitrary: ys i) (auto simp: rbind_eq_Inr nth_Cons split: nat.splits)

lemma load_block_all:
  assumes "files_partition fs (int blk) P = Inr P'" "\<forall>n \<in> set (namelst P). fs n \<noteq> None"
    and "no_blank fs P'" "blocks_wanted (int blk) P = int n" "0 < n"
  obtains bs where "length bs = n" "\<And>b. b < n \<Longrightarrow> load_block fs P' b = Inr (bs ! b)"
    and "concat bs = concat (map (\<lambda>nm. read_lines (file_text fs nm)) (namelst P))"
proof -
  obtain bs where bs: "rmapM (\<lambda>(st, en). files_load_lines_impl fs P' st en) (zip (slst P') (elst P')) = Inr bs"
    "concat bs = concat (map (\<lambda>nm. read_lines (file_text fs nm)) (namelst P))"
    using blocks_load [OF assms(1,2) _ assms(3)] assms(4,5) by auto
  have len: "length (slst P') = n" "length (elst P') = n"
    using files_partition_blocks [OF assms(2), of "int blk"] assms(1,4,5)
    by (auto simp: Let_def block_list_def split: if_splits)
  show thesis
  proof (rule that [OF _ _ bs(2)])
    show "length bs = n" using rmapM_length [OF bs(1)] len by simp
    show "load_block fs P' b = Inr (bs ! b)" if "b < n" for b
      using rmapM_nth [OF bs(1), of b] that len by (simp add: load_block_def nth_res_def)
  qed
qed

lemma sum_block_lines:
  assumes "\<And>b. b < n \<Longrightarrow> ld b = Inr (bs ! b)" "length bs = n"
  shows "(\<Sum>b \<in> {0..<n}. block_lines ld b) = mset (concat bs)"
proof -
  have "(\<Sum>b \<in> {0..<n}. block_lines ld b) = (\<Sum>b \<in> {0..<n}. mset (bs ! b))"
    by (rule sum.cong) (use assms in \<open>auto simp: block_lines_def\<close>)
  also have "\<dots> = mset (concat bs)"
    using assms(2) by (simp add: mset_concat sum_list_sum_nth)
  finally show ?thesis .
qed

text \<open>The fixed distribution loads every line once.\<close>

lemma structure_load_all:
  assumes "files_partition fs (int BLK_SZ) P = Inr P'" "\<forall>n \<in> set (namelst P). fs n \<noteq> None"
    and "no_blank fs P'" "np P = int sz" "0 < sz"
  shows "\<exists>res. rmapM (structure_load fs P' (pattern P)) [0..<sz] = Inr res \<and>
    concat res = concat (map (\<lambda>n. read_lines (file_text fs n)) (namelst P))"
proof -
  let ?blk = "blk_sz_of (pattern P)"
  have want: "blocks_wanted (int BLK_SZ) P = int (sz * ?blk)"
    using assms(4) by (auto simp: blocks_wanted_def blk_sz_of_def)
  have pos: "0 < sz * ?blk" using assms(5) by simp
  obtain bs where bs: "length bs = sz * ?blk"
    "\<And>b. b < sz * ?blk \<Longrightarrow> load_block fs P' b = Inr (bs ! b)"
    "concat bs = concat (map (\<lambda>nm. read_lines (file_text fs nm)) (namelst P))"
    by (rule load_block_all [OF assms(1-3) want pos]) (rule that)
  have fold: "rfold (\<lambda>i result. rbind (load_block fs P' i) (\<lambda>lines. Inr (result @ lines))) ns xs =
      Inr (xs @ concat (map ((!) bs) ns))" if "\<forall>b \<in> set ns. b < sz * ?blk" for ns xs
    using that by (induction ns arbitrary: xs) (auto simp: bs(2))
  let ?r = "\<lambda>rk. concat (map ((!) bs) [rk * ?blk..<(rk + 1) * ?blk])"
  have "structure_load fs P' (pattern P) rk = Inr (?r rk)" if "rk < sz" for rk
  proof -
    have "(rk + 1) * ?blk \<le> sz * ?blk" using that by (intro mult_le_mono) auto
    then show ?thesis unfolding structure_load_def by (subst fold) auto
  qed
  then have "rmapM (structure_load fs P' (pattern P)) [0..<sz] = Inr (map ?r [0..<sz])"
    by (intro rmapM_Inr_map) simp
  moreover have "concat (map ?r [0..<n]) = concat (map ((!) bs) [0..<n * ?blk])" for n
  proof (induction n)
    case (Suc n)
    have "[0..<Suc n * ?blk] = [0..<n * ?blk] @ [n * ?blk..<(n + 1) * ?blk]"
      using upt_add_eq_append [of 0 "n * ?blk" ?blk] by (simp add: add.commute)
    then show ?case using Suc by simp
  qed simp
  moreover have "map ((!) bs) [0..<sz * ?blk] = bs" using bs(1) by (simp add: map_nth flip: bs(1))
  ultimately show ?thesis using bs(3) by auto
qed

section \<open>Properties\<close>

text \<open>
  C11: the dynamic distribution terminates and never gets stuck. For two or more
  ranks and blocks that can be loaded, no infinite run of steps starts in a reachable state, and
  a reachable state without a next step is one in which the leader has left its loop and every
  other rank has left its own: each rank gets an answer to its last request, although the leader
  counts its rounds before it knows which rank will ask.
\<close>

theorem schedule_load_returns:
  assumes "2 \<le> sz" "0 < blk_sz" "leader < sz" "loadable ld (ntasks sz blk_sz)"
  shows "wf {(d', d). dreach ld sz blk_sz leader d \<and> dstep ld sz blk_sz leader d d'} \<and>
    (\<forall>d. dreach ld sz blk_sz leader d \<longrightarrow>
      finished sz blk_sz leader d \<or> (\<exists>d'. dstep ld sz blk_sz leader d d'))"
proof
  have inv: "d_inv ld sz blk_sz leader d" if "dreach ld sz blk_sz leader d" for d
    using d_inv_reach [OF that assms(2,1,3)] .
  have "{(d', d). dreach ld sz blk_sz leader d \<and> dstep ld sz blk_sz leader d d'} \<subseteq>
      measure (d_left sz blk_sz leader)"
    using dispatch_decreases [OF _ inv] by (auto simp: in_measure)
  then show "wf {(d', d). dreach ld sz blk_sz leader d \<and> dstep ld sz blk_sz leader d d'}"
    by (rule wf_subset [OF wf_measure])
  show "\<forall>d. dreach ld sz blk_sz leader d \<longrightarrow>
      finished sz blk_sz leader d \<or> (\<exists>d'. dstep ld sz blk_sz leader d d')"
    using dispatch_progress [OF inv assms(3,1,4)] by blast
qed

text \<open>
  C12: whatever the order in which the requests arrive, when the dynamic distribution
  is over the ranks together hold every line of every file exactly once: the blocks are those of
  the partition for the same pattern, as in \<open>paracel_load\<close>, and no file but the last has an
  empty line.
\<close>

theorem schedule_load_once:
  assumes "files_partition fs (int BLK_SZ) P = Inr P'" "\<forall>n \<in> set (namelst P). fs n \<noteq> None"
    and "no_blank fs P'" "np P = int sz" "2 \<le> sz" "leader < sz"
    and "dreach (load_block fs P') sz (blk_sz_of (pattern P)) leader d"
    and "finished sz (blk_sz_of (pattern P)) leader d"
  shows "(\<Sum>i \<in> {0..<sz}. mset (schedule_result leader d i)) =
    mset (concat (map (\<lambda>n. read_lines (file_text fs n)) (namelst P)))"
proof -
  let ?blk = "blk_sz_of (pattern P)"
  have want: "blocks_wanted (int BLK_SZ) P = int (ntasks sz ?blk)"
    using assms(4) by (auto simp: blocks_wanted_def ntasks_def blk_sz_of_def)
  have pos: "0 < ntasks sz ?blk" using assms(5) by (simp add: ntasks_def)
  obtain bs where bs: "length bs = ntasks sz ?blk"
    "\<And>b. b < ntasks sz ?blk \<Longrightarrow> load_block fs P' b = Inr (bs ! b)"
    "concat bs = concat (map (\<lambda>nm. read_lines (file_text fs nm)) (namelst P))"
    by (rule load_block_all [OF assms(1-3) want pos]) (rule that)
  show ?thesis
    using dispatch_result [OF d_inv_reach [OF assms(7) blk_sz_pos assms(5,6)] assms(8,6,5)]
      sum_block_lines [OF bs(2,1)] bs(3) by simp
qed


text \<open>Witnesses: two ranks, one file of two lines, a block each, the leader is rank 0.\<close>

theorem schedule_load_returns_witness:
  "wf {(d', d). dreach (\<lambda>b. Inr [b]) 3 1 0 d \<and> dstep (\<lambda>b. Inr [b]) 3 1 0 d d'} \<and>
   (case start_dispatch (\<lambda>b. Inr [b]) 1 of
      Inr d \<Rightarrow> (\<exists>d'. dstep (\<lambda>b. Inr [b]) 3 1 0 (d :: nat dispatch) d') | Inl _ \<Rightarrow> False)"
proof -
  have live: "wf {(d', d). dreach (\<lambda>b. Inr [b]) 3 1 0 d \<and> dstep (\<lambda>b. Inr [b]) 3 1 0 (d :: nat dispatch) d'} \<and>
     (\<forall>d. dreach (\<lambda>b. Inr [b]) 3 1 0 d \<longrightarrow>
        finished 3 1 0 d \<or> (\<exists>d'. dstep (\<lambda>b. Inr [b]) 3 1 0 (d :: nat dispatch) d'))"
    by (rule schedule_load_returns) (simp_all add: loadable_def)
  obtain d :: "nat dispatch" where d: "start_dispatch (\<lambda>b. Inr [b]) 1 = Inr d"
    by (simp add: start_dispatch_def)
  then have "dreach (\<lambda>b. Inr [b]) 3 1 0 d" by (rule dreach.start)
  moreover have "\<not> finished 3 1 0 d"
    using d by (auto simp: start_dispatch_def finished_def bnd_def ntasks_def)
  ultimately show ?thesis using live d by auto
qed

definition two_lines :: files where
  "two_lines = (\<lambda>n. Some [CHR ''a'', newline, CHR ''b'', CHR ''c''])"

definition two_blocks :: partition where
  "two_blocks = new_partition [''x''] 2 ''linesplit''\<lparr>slst := [0, 2], elst := [2, 4], displs := [0, 4]\<rparr>"

lemma two_blocks_facts:
  "files_partition two_lines (int BLK_SZ) (new_partition [''x''] 2 ''linesplit'') = Inr two_blocks"
  "load_block two_lines two_blocks 0 = Inr [''a'']" "load_block two_lines two_blocks 1 = Inr [''bc'']"
  "concat (map (\<lambda>n. read_lines (file_text two_lines n)) [''x'']) = [''a'', ''bc'']"
  by code_simp+

lemma two_blocks_no_blank: "no_blank two_lines two_blocks"
proof -
  have "numbered 0 [CHR ''a'', newline, CHR ''b'', CHR ''c''] = [(0, ''a''), (2, ''bc'')]" by code_simp
  then show ?thesis by (simp add: no_blank_def two_blocks_def new_partition_def file_text_def two_lines_def)
qed

definition two_done :: "string dispatch" where
  "two_done = \<lparr>d_control = 2, d_cnt = 1, d_flag = True, d_result = [''a''], d_reqs = [],
     d_workers = (\<lambda>_. \<lparr>w_pc = Top, w_cnt = 0, w_flag = False, w_result = [], w_inbox = []\<rparr>)
       (1 := \<lparr>w_pc = Done, w_cnt = 1, w_flag = False, w_result = [''bc''], w_inbox = []\<rparr>)\<rparr>"

lemma two_done_reach: "dreach (load_block two_lines two_blocks) 2 1 0 two_done"
proof -
  let ?ld = "load_block two_lines two_blocks"
  let ?w = "\<lambda>p c i r. (\<lambda>_. \<lparr>w_pc = Top, w_cnt = 0, w_flag = False, w_result = [], w_inbox = []\<rparr>)
    (1 := \<lparr>w_pc = p, w_cnt = c, w_flag = False, w_result = r, w_inbox = i\<rparr>)"
  let ?d = "\<lambda>k c f q w. \<lparr>d_control = k, d_cnt = c, d_flag = f, d_result = [''a''], d_reqs = q, d_workers = w\<rparr>"
  have "dreach ?ld 2 1 0 (?d 1 0 False [] (?w Top 0 [] []))"
    by (rule dreach.start) (simp add: start_dispatch_def two_blocks_facts [unfolded One_nat_def] fun_upd_idem)
  from dreach.step [OF this ask [of 1]]
  have "dreach ?ld 2 1 0 (?d 1 0 False [1] (?w WaitCnt 0 [] []))" by (simp add: ntasks_def)
  from dreach.step [OF this answer [of _ _ _ 1]]
  have "dreach ?ld 2 1 0 (?d 2 1 True [] (?w WaitCnt 0 [1, 0] []))"
    by (simp add: ntasks_def bnd_def serve_def Let_def numeral_2_eq_2)
  from dreach.step [OF this get_cnt [of 1 _ _ _ 1 "[0]"]]
  have "dreach ?ld 2 1 0 (?d 2 1 True [] (?w WaitFlag 1 [0] []))" by simp
  from dreach.step [OF this get_block [of 1 _ _ _ "[]" _ "[''bc'']"]]
  have "dreach ?ld 2 1 0 (?d 2 1 True [] (?w Top 1 [] [''bc'']))"
    using two_blocks_facts(3) by simp
  from dreach.step [OF this leave [of 1]]
  show ?thesis by (simp add: ntasks_def two_done_def)
qed

theorem schedule_load_once_witness:
  "(\<Sum>i \<in> {0..<2}. mset (schedule_result 0 two_done i)) = mset [''a'', ''bc'']"
proof -
  let ?P = "new_partition [''x''] 2 ''linesplit''"
  have "(\<Sum>i \<in> {0..<2}. mset (schedule_result 0 two_done i)) =
      mset (concat (map (\<lambda>n. read_lines (file_text two_lines n)) (namelst ?P)))"
    by (rule schedule_load_once [OF two_blocks_facts(1) _ two_blocks_no_blank])
      (use two_done_reach in \<open>auto simp: new_partition_def two_lines_def blk_sz_of_def finished_def bnd_def
        ntasks_def two_done_def less_Suc_eq numeral_2_eq_2\<close>)
  then show ?thesis using two_blocks_facts(4) by (simp add: new_partition_def)
qed


end
