(* ===== verification/Kvm.thy ===== *)
theory Kvm
  imports Cluster
begin

text \<open>
  The connections of one worker: \<open>parasrv\<close> of \<open>include/ps.hpp\<close> keeps a list \<open>kvm\<close> of
  clients, one per server, and the worker calls \<open>kvm[i].op(...)\<close>. The record \<open>kvm_ops\<close> names
  those calls, on a world the caller chooses; \<open>client_kvm\<close> is the record of the real clients.

  The locale \<open>kv_service\<close> is the contract of the calls, in terms of the packed value each
  server stores for each key; its interpretation \<open>svc\<close> discharges it for the clients of
  \<open>Client\<close> talking to the server threads of \<open>Server\<close> over the wire of \<open>Cluster\<close>.
\<close>

section \<open>The calls\<close>

record ('v, 'w) kvm_ops =
  m_contains :: "nat \<Rightarrow> string \<Rightarrow> 'w \<Rightarrow> (bool \<times> 'w) res"
  m_pull :: "nat \<Rightarrow> string \<Rightarrow> 'w \<Rightarrow> ('v \<times> 'w) res"
  m_pull_into :: "nat \<Rightarrow> string \<Rightarrow> 'v option \<Rightarrow> 'w \<Rightarrow> ((bool \<times> 'v option) \<times> 'w) res"
  m_pull_multi :: "nat \<Rightarrow> string list \<Rightarrow> 'w \<Rightarrow> ('v list \<times> 'w) res"
  m_pullall :: "nat \<Rightarrow> 'w \<Rightarrow> ((string, 'v) dict \<times> 'w) res"
  m_pullall_special :: "nat \<Rightarrow> (string \<times> string) option \<Rightarrow> 'w \<Rightarrow> ((string, 'v) dict \<times> 'w) res"
  m_register_pullall_special :: "nat \<Rightarrow> string \<Rightarrow> string \<Rightarrow> 'w \<Rightarrow> (bool \<times> 'w) res"
  m_register_remove_special :: "nat \<Rightarrow> string \<Rightarrow> string \<Rightarrow> 'w \<Rightarrow> (bool \<times> 'w) res"
  m_register_update :: "nat \<Rightarrow> string \<Rightarrow> string \<Rightarrow> 'w \<Rightarrow> (bool \<times> 'w) res"
  m_register_bupdate :: "nat \<Rightarrow> string \<Rightarrow> string \<Rightarrow> 'w \<Rightarrow> (bool \<times> 'w) res"
  m_push :: "nat \<Rightarrow> string \<Rightarrow> 'v \<Rightarrow> 'w \<Rightarrow> (bool \<times> 'w) res"
  m_push_multi :: "nat \<Rightarrow> (string, 'v) dict \<Rightarrow> 'w \<Rightarrow> (bool \<times> 'w) res"
  m_update :: "nat \<Rightarrow> string \<Rightarrow> 'v \<Rightarrow> (string \<times> string) option \<Rightarrow> 'w \<Rightarrow> (unit \<times> 'w) res"
  m_bupdate :: "nat \<Rightarrow> string \<Rightarrow> 'v \<Rightarrow> (string \<times> string) option \<Rightarrow> 'w \<Rightarrow> (('v \<times> bool) \<times> 'w) res"
  m_bupdate_multi :: "nat \<Rightarrow> string list \<Rightarrow> 'v list \<Rightarrow> (string \<times> string) option \<Rightarrow> 'w \<Rightarrow>
    (('v list \<times> bool) \<times> 'w) res"
  m_bupdate_multi_dict :: "nat \<Rightarrow> (string, 'v) dict \<Rightarrow> (string \<times> string) option \<Rightarrow> 'w \<Rightarrow>
    (('v list \<times> bool) \<times> 'w) res"
  m_remove :: "nat \<Rightarrow> string \<Rightarrow> 'w \<Rightarrow> (bool \<times> 'w) res"
  m_push_int :: "nat \<Rightarrow> string \<Rightarrow> int \<Rightarrow> 'w \<Rightarrow> (bool \<times> 'w) res"
  m_incr_int :: "nat \<Rightarrow> string \<Rightarrow> int \<Rightarrow> 'w \<Rightarrow> (bool \<times> 'w) res"
  m_pull_int :: "nat \<Rightarrow> string \<Rightarrow> 'w \<Rightarrow> (int \<times> 'w) res"

text \<open>\<open>kvm[j].op(...)\<close>: the client changes (its sockets), and so does the world behind it.\<close>

definition at_client ::
  "('r, 'w) clt_op \<Rightarrow> nat \<Rightarrow> kvclt list \<times> 'w \<Rightarrow> ('r \<times> (kvclt list \<times> 'w)) res"
where
  "at_client f j = (\<lambda>(cs, w).
     rbind (nth_res cs j) (\<lambda>c. rbind (f c w) (\<lambda>(r, c', w'). Inr (r, (cs[j := c'], w')))))"

definition client_kvm :: "msgpack \<Rightarrow> 'w zmq \<Rightarrow> 'v vcodec \<Rightarrow> ('v, kvclt list \<times> 'w) kvm_ops" where
  "client_kvm M Z V =
     \<lparr>m_contains = (\<lambda>j k. at_client (kvclt_contains M Z k) j),
      m_pull = (\<lambda>j k. at_client (kvclt_pull M Z V k) j),
      m_pull_into = (\<lambda>j k v. at_client (kvclt_pull_into M Z V k v) j),
      m_pull_multi = (\<lambda>j ks. at_client (kvclt_pull_multi M Z V ks) j),
      m_pullall = (\<lambda>j. at_client (kvclt_pullall M Z V) j),
      m_pullall_special = (\<lambda>j fn. at_client (kvclt_pullall_special M Z V fn) j),
      m_register_pullall_special = (\<lambda>j f g. at_client (kvclt_register_pullall_special M Z f g) j),
      m_register_remove_special = (\<lambda>j f g. at_client (kvclt_register_remove_special M Z f g) j),
      m_register_update = (\<lambda>j f g. at_client (kvclt_register_update M Z f g) j),
      m_register_bupdate = (\<lambda>j f g. at_client (kvclt_register_bupdate M Z f g) j),
      m_push = (\<lambda>j k v. at_client (kvclt_push M Z V k v) j),
      m_push_multi = (\<lambda>j d. at_client (kvclt_push_multi_dict M Z V d) j),
      m_update = (\<lambda>j k v fn. at_client (kvclt_update M Z V k v fn) j),
      m_bupdate = (\<lambda>j k v fn. at_client (kvclt_bupdate M Z V k v fn) j),
      m_bupdate_multi = (\<lambda>j ks vs fn. at_client (kvclt_bupdate_multi M Z V ks vs fn) j),
      m_bupdate_multi_dict = (\<lambda>j d fn. at_client (kvclt_bupdate_multi_dict M Z V d fn) j),
      m_remove = (\<lambda>j k. at_client (kvclt_remove M Z k) j),
      m_push_int = (\<lambda>j k i. at_client (kvclt_push_int M Z k i) j),
      m_incr_int = (\<lambda>j k i. at_client (kvclt_incr_int M Z k i) j),
      m_pull_int = (\<lambda>j k. at_client (kvclt_pull_int M Z k) j)\<rparr>"

section \<open>The contract\<close>

text \<open>
  \<open>view w j k\<close> is the packed value server \<open>j\<close> stores for key \<open>k\<close>; \<open>keys_ok\<close> and \<open>vals_ok\<close>
  say that a list of keys or values crosses the wire whole, \<open>key_ok\<close> and \<open>val_ok\<close> that a
  single one does.
\<close>

locale kv_service =
  fixes K :: "('v, 'w) kvm_ops"
    and n :: nat
    and inv :: "'w \<Rightarrow> bool"
    and view :: "'w \<Rightarrow> nat \<Rightarrow> string \<Rightarrow> string option"
    and encv :: "'v \<Rightarrow> string"
    and key_ok :: "string \<Rightarrow> bool"
    and val_ok :: "'v \<Rightarrow> bool"
    and keys_ok :: "string list \<Rightarrow> bool"
    and vals_ok :: "'v list \<Rightarrow> bool"
  assumes push: "inv w \<Longrightarrow> j < n \<Longrightarrow> key_ok k \<Longrightarrow> val_ok v \<Longrightarrow>
      \<exists>w'. m_push K j k v w = Inr (True, w') \<and> inv w' \<and>
        view w' = (view w)(j := (view w j)(k \<mapsto> encv v))"
    and pull: "inv w \<Longrightarrow> j < n \<Longrightarrow> key_ok k \<Longrightarrow> val_ok v \<Longrightarrow> view w j k = Some (encv v) \<Longrightarrow>
      \<exists>w'. m_pull K j k w = Inr (v, w') \<and> inv w' \<and> view w' = view w"
    and pull_into: "inv w \<Longrightarrow> j < n \<Longrightarrow> key_ok k \<Longrightarrow> val_ok v \<Longrightarrow> view w j k = Some (encv v) \<Longrightarrow>
      \<exists>w'. m_pull_into K j k x w = Inr ((True, Some v), w') \<and> inv w' \<and> view w' = view w"
    and pull_into_missing: "inv w \<Longrightarrow> j < n \<Longrightarrow> key_ok k \<Longrightarrow> view w j k = None \<Longrightarrow>
      \<exists>w'. m_pull_into K j k x w = Inr ((False, x), w') \<and> inv w' \<and> view w' = view w"
    and contains: "inv w \<Longrightarrow> j < n \<Longrightarrow> key_ok k \<Longrightarrow>
      \<exists>w'. m_contains K j k w = Inr (view w j k \<noteq> None, w') \<and> inv w' \<and> view w' = view w"
    and remove: "inv w \<Longrightarrow> j < n \<Longrightarrow> key_ok k \<Longrightarrow>
      \<exists>w'. m_remove K j k w = Inr (view w j k \<noteq> None, w') \<and> inv w' \<and>
        view w' = (view w)(j := (view w j)(k := None))"
    and pull_multi: "inv w \<Longrightarrow> j < n \<Longrightarrow> keys_ok ks \<Longrightarrow> vals_ok (map f ks) \<Longrightarrow>
      \<forall>k \<in> set ks. view w j k = Some (encv (f k)) \<Longrightarrow>
      \<exists>w'. m_pull_multi K j ks w = Inr (map f ks, w') \<and> inv w' \<and> view w' = view w"
    and push_multi: "inv w \<Longrightarrow> j < n \<Longrightarrow> wf_dict d \<Longrightarrow> keys_ok (map fst d) \<Longrightarrow> vals_ok (map snd d) \<Longrightarrow>
      \<exists>w'. m_push_multi K j d w = Inr (True, w') \<and> inv w' \<and>
        view w' = (view w)(j := (\<lambda>k. case dict_get d k of
          Some v \<Rightarrow> Some (encv v) | None \<Rightarrow> view w j k))"
begin

text \<open>A written key reads back, and the other keys and servers keep their values.\<close>

lemma push_pull:
  assumes "inv w" "j < n" "key_ok k" "val_ok v" "m_push K j k v w = Inr (b, w')"
  shows "b \<and> (\<exists>w''. m_pull K j k w' = Inr (v, w'') \<and> inv w'' \<and>
    view w'' = (view w)(j := (view w j)(k \<mapsto> encv v)))"
proof -
  have w': "b" "inv w'" "view w' = (view w)(j := (view w j)(k \<mapsto> encv v))"
    using push [OF assms(1-4)] assms(5) by auto
  then have "view w' j k = Some (encv v)" by simp
  from pull [OF w'(2) assms(2-4) this] w' show ?thesis by auto
qed

lemma remove_contains:
  assumes "inv w" "j < n" "key_ok k" "m_remove K j k w = Inr (b, w')"
  shows "\<exists>w''. m_contains K j k w' = Inr (False, w'')"
proof -
  have "inv w'" "view w' j k = None" using remove [OF assms(1-3)] assms(4) by auto
  with contains [OF this(1) assms(2,3)] show ?thesis by auto
qed

end

section \<open>The clients provide it\<close>

definition sview :: "kvclt list \<times> node list \<Rightarrow> nat \<Rightarrow> string \<Rightarrow> string option" where
  "sview w j k = (if j < length (snd w) then kvs_get (n_tbl (snd w ! j)) k else None)"

definition sinv :: "(string \<Rightarrow> (nat \<times> nat) option) \<Rightarrow> nat \<Rightarrow> kvclt list \<times> node list \<Rightarrow> bool" where
  "sinv addr n w \<longleftrightarrow> length (fst w) = n \<and> length (snd w) = n \<and> (\<forall>j < n. clt_ok addr j (fst w ! j))"

definition vals_wire :: "msgpack \<Rightarrow> 'v vcodec \<Rightarrow> 'v list \<Rightarrow> bool" where
  "vals_wire M V vs \<longleftrightarrow> lst_wire M (map (pk_pack (venc V)) vs) \<and>
     (\<forall>v \<in> set vs. packable (venc V) (vdec V) v)"

lemma sinv_update:
  assumes "sinv addr n (cs, w)" "j < n" "clt_ok addr j c'"
  shows "sinv addr n (cs[j := c'], w[j := nd])"
  using assms by (auto simp: sinv_def nth_list_update)

lemma sview_update:
  assumes "sinv addr n (cs, w)" "j < n" "n_tbl nd = tbl"
  shows "sview (cs', w[j := nd]) = (sview (cs, w))(j := kvs_get tbl)"
  using assms by (auto simp: sinv_def sview_def fun_eq_iff nth_list_update)

text \<open>The common shape: one request on a table thread, with the reply decoded by \<open>rd\<close>.\<close>

lemma at_client_req_nd:
  assumes "wire_env E" "sinv addr n (cs, w)" "j < n"
    and "op \<in> set op_names" "\<forall>a \<in> set args. clean seperator a \<and> a \<noteq> []"
    and "port_of nm \<noteq> 2" "port_of nm < 4" "i = port_of nm"
    and "thrd_branch E op (pack_str (env_mp E) op # args) (n_thr (w ! j) i) (n_tbl (w ! j)) =
      Inr ([rep], th', tbl)"
    and "\<And>c w. f c w =
      rbind (send_req (cluster_zmq E addr) nm i (pack_str (env_mp E) op # args) c w)
        (\<lambda>(data, c, w). rbind (rd data) (\<lambda>r. Inr (r, c, w)))"
    and "rd rep = Inr r"
  shows "\<exists>w'. at_client f j (cs, w) = Inr (r, w') \<and> sinv addr n w' \<and>
    sview w' = (sview (cs, w))(j := kvs_get tbl) \<and>
    snd w' = w[j := (w ! j)\<lparr>n_thr := (n_thr (w ! j))(i := th'), n_tbl := tbl\<rparr>]"
proof -
  have j: "j < length cs" "j < length w" "clt_ok addr j (cs ! j)"
    using assms(2,3) by (auto simp: sinv_def)
  obtain c' where
    "send_req (cluster_zmq E addr) nm (port_of nm) (pack_str (env_mp E) op # args) (cs ! j) w =
      Inr (rep, c', w[j := (w ! j)\<lparr>n_thr := (n_thr (w ! j))(port_of nm := th'),
        n_tbl := tbl\<rparr>])" "clt_ok addr j c'"
    using send_req_cluster [OF assms(1) j(3) refl j(2) assms(4-7)] assms(8,9) by blast
  then show ?thesis
    using j assms(8,10,11) sinv_update [OF assms(2,3)] sview_update [OF assms(2,3)]
    by (simp add: at_client_def nth_res_def del: fun_upd_apply)
qed

lemma at_client_req_thr:
  assumes "wire_env E" "sinv addr n (cs, w)" "j < n"
    and "op \<in> set op_names" "\<forall>a \<in> set args. clean seperator a \<and> a \<noteq> []"
    and "port_of nm \<noteq> 2" "port_of nm < 4" "i = port_of nm"
    and "\<And>th. \<exists>th'. thrd_branch E op (pack_str (env_mp E) op # args) th (n_tbl (w ! j)) =
      Inr ([rep], th', tbl)"
    and "\<And>c w. f c w =
      rbind (send_req (cluster_zmq E addr) nm i (pack_str (env_mp E) op # args) c w)
        (\<lambda>(data, c, w). rbind (rd data) (\<lambda>r. Inr (r, c, w)))"
    and "rd rep = Inr r"
  shows "\<exists>w'. at_client f j (cs, w) = Inr (r, w') \<and> sinv addr n w' \<and>
    sview w' = (sview (cs, w))(j := kvs_get tbl)"
proof -
  obtain th' where th': "thrd_branch E op (pack_str (env_mp E) op # args) (n_thr (w ! j) i) (n_tbl (w ! j)) =
      Inr ([rep], th', tbl)"
    using assms(9) by blast
  from at_client_req_nd [OF assms(1-8) this assms(10,11)] show ?thesis by blast
qed

lemma at_client_req:
  assumes "wire_env E" "sinv addr n (cs, w)" "j < n"
    and "op \<in> set op_names" "\<forall>a \<in> set args. clean seperator a \<and> a \<noteq> []"
    and "port_of nm \<noteq> 2" "port_of nm < 4" "i = port_of nm"
    and "\<And>th. thrd_branch E op (pack_str (env_mp E) op # args) th (n_tbl (w ! j)) =
      Inr ([rep], th, tbl)"
    and "\<And>c w. f c w =
      rbind (send_req (cluster_zmq E addr) nm i (pack_str (env_mp E) op # args) c w)
        (\<lambda>(data, c, w). rbind (rd data) (\<lambda>r. Inr (r, c, w)))"
    and "rd rep = Inr r"
  shows "\<exists>w'. at_client f j (cs, w) = Inr (r, w') \<and> sinv addr n w' \<and>
    sview w' = (sview (cs, w))(j := kvs_get tbl)"
  using assms(9) by (intro at_client_req_thr [OF assms(1-8) _ assms(10,11)]) blast

lemma recv_val_packed:
  "packable enc dec v \<Longrightarrow> recv_val dec (pk_pack enc v) x = Inr (True, Some v)"
  by (simp add: recv_val_def pk.dec_enc)

lemma recv_bool:
  "wire_env E \<Longrightarrow> recv_val (um_bool (env_mp E)) (rep_bool E b) x = Inr (True, Some b)"
  by (simp add: rep_bool_def wire_env_def recv_val_packed)

lemma recv_lst_packed:
  assumes "lst_ok M (map (pk_pack enc) vs)" "\<forall>v \<in> set vs. packable enc dec v"
  shows "recv_lst M dec (pk_pack (mp_lst M) (map (pk_pack enc) vs)) = Inr vs"
  using assms pk.dec_enc_list [of vs enc dec] by (simp add: recv_lst_def pk.dec_enc)

lemma msg_str_packed: "str_ok (env_mp E) s \<Longrightarrow> nth_res msg i = Inr (pack_str (env_mp E) s) \<Longrightarrow>
    msg_str E msg i = Inr s"
  by (simp add: msg_str_def pk.dec_enc)

lemma msg_lst_packed: "lst_ok (env_mp E) ss \<Longrightarrow> nth_res msg i = Inr (pk_pack (mp_lst (env_mp E)) ss) \<Longrightarrow>
    msg_lst E msg i = Inr ss"
  by (simp add: msg_lst_def pk.dec_enc)


lemma wire_packed:
  "wire_ok enc dec v \<Longrightarrow> packable enc dec v \<and> clean seperator (pk_pack enc v) \<and> pk_pack enc v \<noteq> []"
  by (simp add: wire_ok_def)

lemma stored_packed:
  assumes "wire_ok enc dec v"
  shows "pk_pack enc v \<noteq> [] \<and> clean seperator (pk_pack enc v)"
  using assms by (simp add: wire_ok_def)

text \<open>The same for the operations that answer with a status.\<close>

lemma at_client_stat:
  assumes "wire_env E" "sinv addr n (cs, w)" "j < n"
    and "op \<in> set op_names" "\<forall>a \<in> set args. clean seperator a \<and> a \<noteq> []"
    and "port_of nm \<noteq> 2" "port_of nm < 4"
    and "\<And>th. thrd_branch E op (pack_str (env_mp E) op # args) th (n_tbl (w ! j)) =
      Inr ([rep_bool E b], th, tbl)"
    and "kvs_get tbl = h"
  shows "\<exists>w'. at_client (req_stat (env_mp E) (cluster_zmq E addr) nm (port_of nm)
        (pack_str (env_mp E) op # args) st) j (cs, w) = Inr (b, w') \<and>
    sinv addr n w' \<and> sview w' = (sview (cs, w))(j := h)"
proof -
  let ?rd = "\<lambda>data. rbind (recv_val (um_bool (env_mp E)) data st) (\<lambda>(r, stat). and_stat r stat)"
  have "\<exists>w'. at_client (req_stat (env_mp E) (cluster_zmq E addr) nm (port_of nm)
        (pack_str (env_mp E) op # args) st) j (cs, w) = Inr (b, w') \<and>
      sinv addr n w' \<and> sview w' = (sview (cs, w))(j := kvs_get tbl)"
  proof (rule at_client_req [where rd = ?rd, OF assms(1-7) refl assms(8)])
    show "req_stat (env_mp E) (cluster_zmq E addr) nm (port_of nm) (pack_str (env_mp E) op # args) st c w
        = rbind (send_req (cluster_zmq E addr) nm (port_of nm) (pack_str (env_mp E) op # args) c w)
            (\<lambda>(data, c, w). rbind (?rd data) (\<lambda>r. Inr (r, c, w)))" for c w
      by (simp add: req_stat_def rbind_assoc case_prod_unfold)
    show "?rd (rep_bool E b) = Inr b"
      using assms(1) by (simp add: recv_bool and_stat_def)
  qed
  then show ?thesis using assms(9) by simp
qed

text \<open>The laws, one request each; \<open>kvm_defs\<close> opens the operations of both sides.\<close>

lemmas kvm_defs = client_kvm_def thrd_branch_def branch_defs op_names_def replying_ops_def
  msg_str_def msg_lst_def pk.dec_enc

lemma sview_tbl: "sinv addr n (cs, w) \<Longrightarrow> j < n \<Longrightarrow> sview (cs, w) j = kvs_get (n_tbl (w ! j))"
  by (auto simp: sview_def sinv_def)

lemma sview_same: "sinv addr n (cs, w) \<Longrightarrow> j < n \<Longrightarrow>
    (sview (cs, w))(j := kvs_get (n_tbl (w ! j))) = sview (cs, w)"
  by (auto simp: sview_def sinv_def fun_eq_iff)

lemma svc_push:
  assumes "wire_env E" "sinv addr n (cs, w)" "j < n"
    and "str_wire (env_mp E) k" "wire_ok (venc V) (vdec V) v"
  shows "\<exists>w'. m_push (client_kvm (env_mp E) (cluster_zmq E addr) V) j k v (cs, w) = Inr (True, w') \<and>
    sinv addr n w' \<and>
    sview w' = (sview (cs, w))(j := (sview (cs, w) j)(k \<mapsto> pk_pack (venc V) v))"
  using at_client_stat [OF assms(1-3), of "''push''"
      "[pack_str (env_mp E) k, pk_pack (venc V) v]" P_push True
      "kvs_set k (pk_pack (venc V) v) (n_tbl (w ! j))"
      "(sview (cs, w) j)(k \<mapsto> pk_pack (venc V) v)" None]
    assms wire_packed [OF assms(4)] wire_packed [OF assms(5)]
  by (simp add: kvm_defs kvclt_push_def sview_tbl kv.lookup_insert fun_eq_iff [of "kvs_get _"])


lemma svc_contains:
  assumes "wire_env E" "sinv addr n (cs, w)" "j < n" "str_wire (env_mp E) k"
  shows "\<exists>w'. m_contains (client_kvm (env_mp E) (cluster_zmq E addr) V) j k (cs, w) =
      Inr (sview (cs, w) j k \<noteq> None, w') \<and> sinv addr n w' \<and> sview w' = sview (cs, w)"
proof -
  have "\<exists>w'. at_client (kvclt_contains (env_mp E) (cluster_zmq E addr) k) j (cs, w) =
      Inr (sview (cs, w) j k \<noteq> None, w') \<and> sinv addr n w' \<and>
      sview w' = (sview (cs, w))(j := kvs_get (n_tbl (w ! j)))"
    by (rule at_client_req [OF assms(1-3), of "''contains''" "[pack_str (env_mp E) k]" P_contains 0
          "rep_bool E (sview (cs, w) j k \<noteq> None)" "n_tbl (w ! j)" _
          "\<lambda>data. rbind (recv_val (um_bool (env_mp E)) data (Some False))
             (\<lambda>(r, val). of_opt UndefinedRead val)"])
      (use assms wire_packed [OF assms(4)] in
        \<open>simp_all add: kvm_defs kvclt_contains_def rbind_assoc case_prod_unfold recv_bool
          kvs_contains_get sview_tbl\<close>)
  then show ?thesis using sview_same [OF assms(2,3)] by (simp add: client_kvm_def)
qed

lemma svc_pull:
  assumes "wire_env E" "sinv addr n (cs, w)" "j < n" "str_wire (env_mp E) k"
    and "wire_ok (venc V) (vdec V) v" "sview (cs, w) j k = Some (pk_pack (venc V) v)"
  shows "\<exists>w'. m_pull (client_kvm (env_mp E) (cluster_zmq E addr) V) j k (cs, w) = Inr (v, w') \<and>
    sinv addr n w' \<and> sview w' = sview (cs, w)"
proof -
  have "\<exists>w'. at_client (kvclt_pull (env_mp E) (cluster_zmq E addr) V k) j (cs, w) = Inr (v, w') \<and>
      sinv addr n w' \<and> sview w' = (sview (cs, w))(j := kvs_get (n_tbl (w ! j)))"
    by (rule at_client_req [OF assms(1-3), of "''pull''" "[pack_str (env_mp E) k]" P_pull 0
          "pk_pack (venc V) v" "n_tbl (w ! j)" _
          "\<lambda>data. rbind (recv_val (vdec V) data None)
             (\<lambda>(r, val). if \<not> r then Inl AssertFailed else of_opt UndefinedRead val)"])
      (use assms wire_packed [OF assms(4)] wire_packed [OF assms(5)] in
        \<open>simp_all add: kvm_defs kvclt_pull_def rbind_assoc case_prod_unfold recv_val_packed
          kvs_get_into_get sview_tbl rbind_if_Inl\<close>)
  then show ?thesis using sview_same [OF assms(2,3)] by (simp add: client_kvm_def)
qed

lemma svc_pull_into:
  assumes "wire_env E" "sinv addr n (cs, w)" "j < n" "str_wire (env_mp E) k"
    and "\<And>v. res = (True, Some v) \<Longrightarrow> packable (venc V) (vdec V) v \<and>
      sview (cs, w) j k = Some (pk_pack (venc V) v)"
    and "res = (False, x) \<and> sview (cs, w) j k = None \<or> (\<exists>v. res = (True, Some v))"
  shows "\<exists>w'. m_pull_into (client_kvm (env_mp E) (cluster_zmq E addr) V) j k x (cs, w) =
      Inr (res, w') \<and> sinv addr n w' \<and> sview w' = sview (cs, w)"
proof -
  let ?rep = "case sview (cs, w) j k of None \<Rightarrow> ''nokey'' | Some s \<Rightarrow> s"
  have rd: "recv_val (vdec V) ?rep x = Inr res"
    using assms(5,6) by (auto simp: recv_val_def pk.dec_enc)
  have "\<exists>w'. at_client (kvclt_pull_into (env_mp E) (cluster_zmq E addr) V k x) j (cs, w) =
      Inr (res, w') \<and> sinv addr n w' \<and>
      sview w' = (sview (cs, w))(j := kvs_get (n_tbl (w ! j)))"
    by (rule at_client_req [OF assms(1-3), of "''pull''" "[pack_str (env_mp E) k]" P_pull 0
          ?rep "n_tbl (w ! j)" _ "\<lambda>data. recv_val (vdec V) data x"])
      (use assms(1-4) rd wire_packed [OF assms(4)] in
        \<open>simp_all add: kvm_defs kvclt_pull_into_def case_prod_unfold
          kvs_get_into_get sview_tbl split: option.splits\<close>)
  then show ?thesis using sview_same [OF assms(2,3)] by (simp add: client_kvm_def)
qed

lemma svc_remove:
  assumes "wire_env E" "sinv addr n (cs, w)" "j < n" "str_wire (env_mp E) k"
  shows "\<exists>w'. m_remove (client_kvm (env_mp E) (cluster_zmq E addr) V) j k (cs, w) =
      Inr (sview (cs, w) j k \<noteq> None, w') \<and> sinv addr n w' \<and>
      sview w' = (sview (cs, w))(j := (sview (cs, w) j)(k := None))"
  using at_client_stat [OF assms(1-3), of "''remove''" "[pack_str (env_mp E) k]" P_remove
      "sview (cs, w) j k \<noteq> None" "snd (kvs_del k (n_tbl (w ! j)))"
      "(sview (cs, w) j)(k := None)" None]
    assms wire_packed [OF assms(4)]
  by (auto simp: kvm_defs kvclt_remove_def sview_tbl kv.lookup_delete fun_eq_iff [of "kvs_get _"]
      case_prod_unfold kvs_del_fst Let_def)

lemma svc_pull_multi:
  assumes "wire_env E" "sinv addr n (cs, w)" "j < n" "lst_wire (env_mp E) ks"
    and "vals_wire (env_mp E) V (map f ks)"
    and "\<forall>k \<in> set ks. sview (cs, w) j k = Some (pk_pack (venc V) (f k))"
  shows "\<exists>w'. m_pull_multi (client_kvm (env_mp E) (cluster_zmq E addr) V) j ks (cs, w) =
      Inr (map f ks, w') \<and> sinv addr n w' \<and> sview w' = sview (cs, w)"
proof -
  let ?vs = "map (pk_pack (venc V)) (map f ks)"
  have vs: "lst_wire (env_mp E) ?vs" "\<forall>v \<in> set (map f ks). packable (venc V) (vdec V) v"
    using assms(5) by (auto simp: vals_wire_def)
  have get: "kvs_get_multi (n_tbl (w ! j)) ks = Inr ?vs"
    using kvs_get_multi_ok [of ks "n_tbl (w ! j)" "\<lambda>k. pk_pack (venc V) (f k)"] assms(6)
    by (simp add: sview_tbl [OF assms(2,3)] o_def)
  have "recv_lst (env_mp E) (vdec V) (pk_pack (mp_lst (env_mp E)) ?vs) = Inr (map f ks)"
    by (rule recv_lst_packed) (use vs wire_packed [OF vs(1)] in auto)
  then have "\<exists>w'. at_client (kvclt_pull_multi (env_mp E) (cluster_zmq E addr) V ks) j (cs, w) =
      Inr (map f ks, w') \<and> sinv addr n w' \<and>
      sview w' = (sview (cs, w))(j := kvs_get (n_tbl (w ! j)))"
    by (intro at_client_req [OF assms(1-3), of "''pull_multi''" "[pk_pack (mp_lst (env_mp E)) ks]"
          P_pull_multi 0 "pk_pack (mp_lst (env_mp E)) ?vs" "n_tbl (w ! j)" _
          "\<lambda>data. recv_lst (env_mp E) (vdec V) data"])
      (use assms(1-4) get wire_packed [OF assms(4)] in
        \<open>simp_all add: kvm_defs kvclt_pull_multi_def case_prod_unfold\<close>)
  then show ?thesis using sview_same [OF assms(2,3)] by (simp add: client_kvm_def)
qed

lemma svc_push_multi:
  assumes "wire_env E" "sinv addr n (cs, w)" "j < n" "wf_dict d"
    and "lst_wire (env_mp E) (map fst d)" "vals_wire (env_mp E) V (map snd d)"
  shows "\<exists>w'. m_push_multi (client_kvm (env_mp E) (cluster_zmq E addr) V) j d (cs, w) =
      Inr (True, w') \<and> sinv addr n w' \<and>
      sview w' = (sview (cs, w))(j := (\<lambda>k. case dict_get d k of
          Some v \<Rightarrow> Some (pk_pack (venc V) v) | None \<Rightarrow> sview (cs, w) j k))"
proof -
  let ?e = "map (\<lambda>(k, v). (k, pk_pack (venc V) v)) d"
  have z: "zip (map fst d) (map (pk_pack (venc V)) (map snd d)) = ?e"
    by (induction d) auto
  have wf: "wf_dict ?e" using assms(4) by (simp add: wf_dict_def comp_def case_prod_unfold)
  have get: "dict_get ?e k = map_option (pk_pack (venc V)) (dict_get d k)" for k
    by (induction d) auto
  have vs: "lst_wire (env_mp E) (map (pk_pack (venc V)) (map snd d))"
    using assms(6) by (simp add: vals_wire_def)
  have tbl: "kvs_get (kvs_set_multi ?e (n_tbl (w ! j))) = (\<lambda>k. case dict_get d k of
      Some v \<Rightarrow> Some (pk_pack (venc V) v) | None \<Rightarrow> sview (cs, w) j k)"
    using wf get
    by (auto simp: fun_eq_iff kvs_get_set_multi sview_tbl [OF assms(2,3)] map_of_rev_wf split: option.splits)
  show ?thesis
    using at_client_stat [OF assms(1-3), of "''push_multi''"
        "[pk_pack (mp_lst (env_mp E)) (map fst d),
          pk_pack (mp_lst (env_mp E)) (map (pk_pack (venc V)) (map snd d))]"
        P_push_multi True "kvs_set_multi ?e (n_tbl (w ! j))" _ None, OF _ _ _ _ _ tbl]
      assms(1-3) wire_packed [OF assms(5)] wire_packed [OF vs] z wf
    by (simp add: kvm_defs kvclt_push_multi_dict_def kvclt_push_multi_def dict_set_all_copy Let_def)
qed

text \<open>The clients and the servers behind them keep the contract, for every environment.\<close>

interpretation svc: kv_service "client_kvm (env_mp E) (cluster_zmq E addr) V" n
    "\<lambda>w. wire_env E \<and> sinv addr n w" sview "pk_pack (venc V)" "str_wire (env_mp E)"
    "wire_ok (venc V) (vdec V)" "lst_wire (env_mp E)" "vals_wire (env_mp E) V" for E addr V n
proof (unfold_locales, goal_cases)
  case (1 w j k v)
  then show ?case using svc_push [of E addr n "fst w" "snd w" j k V v] by simp
next
  case (2 w j k v)
  then show ?case using svc_pull [of E addr n "fst w" "snd w" j k V v] by simp
next
  case (3 w j k v x)
  then show ?case
    using svc_pull_into [of E addr n "fst w" "snd w" j k "(True, Some v)" V x] wire_packed [of _ _ v]
    by auto
next
  case (4 w j k x)
  then show ?case using svc_pull_into [of E addr n "fst w" "snd w" j k "(False, x)" V x] by simp
next
  case (5 w j k)
  then show ?case using svc_contains [of E addr n "fst w" "snd w" j k V] by simp
next
  case (6 w j k)
  then show ?case using svc_remove [of E addr n "fst w" "snd w" j k V] by simp
next
  case (7 w j ks f)
  then show ?case using svc_pull_multi [of E addr n "fst w" "snd w" j ks V f] by simp
next
  case (8 w j d)
  obtain a b where "w = (a, b)" by fastforce
  then show ?case using 8 svc_push_multi [of E addr n a b j d V] unfolding \<open>w = (a, b)\<close> by blast
qed

section \<open>Updates that answer\<close>

text \<open>
  The contract of \<open>bupdate\<close>, with a named updater (\<open>fn\<close> is \<open>Some\<close>) or the one the server has: it
  stores the delta under a new key, the combination of the stored value and the delta otherwise,
  and answers with what it stored.
\<close>

locale kv_adds =
  fixes K :: "('v, 'w) kvm_ops"
    and n :: nat
    and inv :: "'w \<Rightarrow> bool"
    and view :: "'w \<Rightarrow> nat \<Rightarrow> string \<Rightarrow> string option"
    and encv :: "'v \<Rightarrow> string"
    and key_ok :: "string \<Rightarrow> bool"
    and val_ok :: "'v \<Rightarrow> bool"
    and fn :: "(string \<times> string) option"
    and comb :: "'v \<Rightarrow> 'v \<Rightarrow> 'v"
  assumes bupdate_new: "inv w \<Longrightarrow> j < n \<Longrightarrow> key_ok k \<Longrightarrow> val_ok d \<Longrightarrow> view w j k = None \<Longrightarrow>
      \<exists>w'. m_bupdate K j k d fn w = Inr ((d, True), w') \<and> inv w' \<and>
        view w' = (view w)(j := (view w j)(k \<mapsto> encv d))"
    and bupdate_old: "inv w \<Longrightarrow> j < n \<Longrightarrow> key_ok k \<Longrightarrow> val_ok d \<Longrightarrow> view w j k = Some (encv v) \<Longrightarrow>
      val_ok v \<Longrightarrow> val_ok (comb v d) \<Longrightarrow>
      \<exists>w'. m_bupdate K j k d fn w = Inr ((comb v d, True), w') \<and> inv w' \<and>
        view w' = (view w)(j := (view w j)(k \<mapsto> encv (comb v d)))"

text \<open>A store that updates: a \<open>pull\<close> of a missing key fails its assertion.\<close>

locale kv_updates = kv_service K n inv view encv key_ok val_ok keys_ok vals_ok +
    kv_adds K n inv view encv key_ok val_ok "Some fn" comb
  for K :: "('v, 'w) kvm_ops" and n inv view encv key_ok val_ok keys_ok vals_ok fn comb +
  assumes pull_missing: "inv w \<Longrightarrow> j < n \<Longrightarrow> key_ok k \<Longrightarrow> view w j k = None \<Longrightarrow>
      m_pull K j k w = Inl AssertFailed"

text \<open>A store that can be read whole: the dictionary of a server, in some order.\<close>

locale kv_scan = kv_adds K n inv view encv key_ok val_ok fn comb
  for K :: "('v, 'w) kvm_ops" and n inv view encv key_ok val_ok fn comb +
  fixes dct_ok :: "(string, 'v) dict \<Rightarrow> bool"
  assumes pullall: "inv w \<Longrightarrow> j < n \<Longrightarrow> wf_dict d \<Longrightarrow> dct_ok d \<Longrightarrow>
      \<forall>k. view w j k = map_option encv (dict_get d k) \<Longrightarrow>
      \<exists>d' w'. m_pullall K j w = Inr (d', w') \<and> mset d' = mset d \<and> inv w' \<and> view w' = view w"

text \<open>A store of which the entries that a filter on the keys keeps can be read, from all servers.\<close>

locale kv_special = kv_adds K n inv view encv key_ok val_ok fn comb
  for K :: "('v, 'w) kvm_ops" and n inv view encv key_ok val_ok fn comb +
  fixes ffn :: "string \<times> string"
    and keep :: "string \<Rightarrow> bool"
    and dct_ok :: "(string, 'v) dict \<Rightarrow> bool"
  assumes pullall_special: "inv w \<Longrightarrow> j < n \<Longrightarrow> wf_dict d \<Longrightarrow> dct_ok d \<Longrightarrow>
      \<forall>k. (if keep k then view w j k else None) = map_option encv (dict_get d k) \<Longrightarrow>
      \<exists>d' w'. m_pullall_special K j (Some ffn) w = Inr (d', w') \<and> mset d' = mset d \<and> inv w' \<and> view w' = view w"

text \<open>
  The environment holds the updater under the name: a function behind \<open>update_proxy\<close>. The
  function may fail; \<open>upd_env\<close> and \<open>upd_ready\<close> are for one that does not.
\<close>

abbreviation proxied :: "'v vcodec \<Rightarrow> ('v \<Rightarrow> 'v \<Rightarrow> 'v res) \<Rightarrow> update_result" where
  "proxied V f \<equiv> update_proxy (venc V) (vdec V) (vdec V) f"

definition upd_env_res :: "env \<Rightarrow> 'v vcodec \<Rightarrow> string \<times> string \<Rightarrow> ('v \<Rightarrow> 'v \<Rightarrow> 'v res) \<Rightarrow> bool" where
  "upd_env_res E V fn f \<longleftrightarrow> str_wire (env_mp E) (fst fn) \<and> str_wire (env_mp E) (snd fn) \<and>
     env_dl_update E (fst fn) (snd fn) = Some (proxied V f)"

abbreviation upd_env :: "env \<Rightarrow> 'v vcodec \<Rightarrow> string \<times> string \<Rightarrow> ('v \<Rightarrow> 'v \<Rightarrow> 'v) \<Rightarrow> bool" where
  "upd_env E V fn comb \<equiv> upd_env_res E V fn (\<lambda>a b. Inr (comb a b))"

text \<open>
  Without a name a server uses the updater its thread has: one that was registered, or the
  default one, which it loads when it has none.
\<close>

definition upd_ready_res ::
  "env \<Rightarrow> 'v vcodec \<Rightarrow> (string \<times> string) option \<Rightarrow> ('v \<Rightarrow> 'v \<Rightarrow> 'v res) \<Rightarrow> node list \<Rightarrow> bool"
where
  "upd_ready_res E V fn f w = (case fn of
      Some g \<Rightarrow> upd_env_res E V g f
    | None \<Rightarrow> \<forall>nd \<in> set w. update_f (n_thr nd 3) = Some (proxied V f) \<or>
        update_f (n_thr nd 3) = None \<and>
        env_dl_update E ''../local/build/lib/default.so'' ''default_incr_i'' = Some (proxied V f))"

abbreviation upd_ready ::
  "env \<Rightarrow> 'v vcodec \<Rightarrow> (string \<times> string) option \<Rightarrow> ('v \<Rightarrow> 'v \<Rightarrow> 'v) \<Rightarrow> node list \<Rightarrow> bool"
where
  "upd_ready E V fn comb w \<equiv> upd_ready_res E V fn (\<lambda>a b. Inr (comb a b)) w"

lemmas upd_env_def = upd_env_res_def and upd_ready_def = upd_ready_res_def

lemma load_ready:
  assumes "upd_ready_res E V fn f w" "nd \<in> set w"
  shows "\<exists>th. load_updater E (a # b # c # fn_args (env_mp E) fn) (n_thr nd 3) = Inr th \<and>
    update_f th = Some (proxied V f)"
proof (cases fn)
  case None
  then show ?thesis
    using assms by (auto simp: upd_ready_def load_updater_def fn_args_def dlopen_update_def)
next
  case (Some g)
  then have "packable (mp_str (env_mp E)) (um_str (env_mp E)) (fst g)"
    "packable (mp_str (env_mp E)) (um_str (env_mp E)) (snd g)"
    "env_dl_update E (fst g) (snd g) = Some (proxied V f)"
    using assms(1) by (auto simp: upd_ready_def upd_env_def wire_ok_def)
  then show ?thesis
    by (simp add: Some load_updater_def fn_args_def dlopen_update_def msg_str_def pk.dec_enc case_prod_unfold)
qed

lemma svc_add:
  assumes "wire_env E" "upd_ready_res E V fn f w" "sinv addr n (cs, w)" "j < n"
    and "str_wire (env_mp E) k" "wire_ok (venc V) (vdec V) d"
    and "sview (cs, w) j k = None \<and> r = d \<or>
      (\<exists>v. sview (cs, w) j k = Some (pk_pack (venc V) v) \<and> wire_ok (venc V) (vdec V) v \<and> f v d = Inr r)"
    and "wire_ok (venc V) (vdec V) r"
  shows "\<exists>w'. m_bupdate (client_kvm (env_mp E) (cluster_zmq E addr) V) j k d fn (cs, w) =
      Inr ((r, True), w') \<and> sinv addr n w' \<and>
      sview w' = (sview (cs, w))(j := (sview (cs, w) j)(k \<mapsto> pk_pack (venc V) r)) \<and>
      upd_ready_res E V fn f (snd w') \<and>
      ((\<forall>nd \<in> set w. wf_dict (n_tbl nd)) \<longrightarrow> (\<forall>nd \<in> set (snd w'). wf_dict (n_tbl nd)))"
proof -
  let ?tbl = "kvs_set k (pk_pack (venc V) r) (n_tbl (w ! j))"
  have jw: "w ! j \<in> set w" using assms(3,4) by (auto simp: sinv_def)
  have fn: "\<forall>a \<in> set (fn_args (env_mp E) fn). clean seperator a \<and> a \<noteq> []"
    using assms(2) by (auto simp: fn_args_def upd_ready_def upd_env_def wire_ok_def split: option.splits)
  obtain th where th: "load_updater E (pack_str (env_mp E) ''bupdate'' # pack_str (env_mp E) k #
      pk_pack (venc V) d # fn_args (env_mp E) fn) (n_thr (w ! j) 3) = Inr th"
    "update_f th = Some (proxied V f)"
    using load_ready [OF assms(2) jw] by blast
  have upd: "kv_update k (pk_pack (venc V) d) (Some (proxied V f)) (n_tbl (w ! j)) =
      Inr (pk_pack (venc V) r, ?tbl)"
    using assms(7) wire_packed [OF assms(6)]
    by (auto simp: kv_update_def sview_tbl [OF assms(3,4)] call2_def update_proxy_packed wire_ok_def)
  have br: "thrd_branch E ''bupdate'' (pack_str (env_mp E) ''bupdate'' # pack_str (env_mp E) k #
      pk_pack (venc V) d # fn_args (env_mp E) fn) (n_thr (w ! j) 3) (n_tbl (w ! j)) =
    Inr ([pk_pack (venc V) r], th, ?tbl)"
    using th upd wire_packed [OF assms(5)] by (simp add: kvm_defs)
  let ?w = "w[j := (w ! j)\<lparr>n_thr := (n_thr (w ! j))(3 := th), n_tbl := ?tbl\<rparr>]"
  have "\<exists>w'. at_client (kvclt_bupdate (env_mp E) (cluster_zmq E addr) V k d fn) j (cs, w) =
      Inr ((r, True), w') \<and> sinv addr n w' \<and> sview w' = (sview (cs, w))(j := kvs_get ?tbl) \<and> snd w' = ?w"
    by (rule at_client_req_nd [OF assms(1,3,4), of "''bupdate''"
          "pack_str (env_mp E) k # pk_pack (venc V) d # fn_args (env_mp E) fn"
          P_bupdate 3 "pk_pack (venc V) r" th ?tbl _
          "\<lambda>data. rbind (recv_val (vdec V) data None) (\<lambda>(r, val).
             rbind (of_opt UndefinedRead val) (\<lambda>val. Inr (val, r)))"])
      (use fn br wire_packed [OF assms(5)] wire_packed [OF assms(6)] wire_packed [OF assms(8)] in
        \<open>simp_all add: op_names_def replying_ops_def kvclt_bupdate_def rbind_assoc case_prod_unfold recv_val_packed\<close>)
  moreover have "kvs_get ?tbl = (sview (cs, w) j)(k \<mapsto> pk_pack (venc V) r)"
    by (simp add: sview_tbl [OF assms(3,4)] kv.lookup_insert fun_eq_iff)
  moreover have nd: "nd \<in> set w \<or> nd = (w ! j)\<lparr>n_thr := (n_thr (w ! j))(3 := th), n_tbl := ?tbl\<rparr>"
    if "nd \<in> set ?w" for nd
    using that set_update_subset_insert [of w j] by auto
  have "upd_ready_res E V fn f ?w"
  proof (cases fn)
    case None
    then show ?thesis using nd th(2) assms(2) by (fastforce simp: upd_ready_def)
  qed (use assms(2) in \<open>simp add: upd_ready_def\<close>)
  moreover have "\<forall>nd \<in> set ?w. wf_dict (n_tbl nd)" if wf: "\<forall>nd \<in> set w. wf_dict (n_tbl nd)"
  proof
    fix x assume "x \<in> set ?w"
    from nd [OF this] show "wf_dict (n_tbl x)" using wf jw by (auto simp: kv.invar_insert)
  qed
  ultimately show ?thesis
    unfolding client_kvm_def kvm_ops.simps by (elim exE conjE) (intro exI conjI, assumption, auto)
qed

lemma svc_bupdate:
  assumes "wire_env E" "upd_env E V fn comb" "sinv addr n (cs, w)" "j < n"
    and "str_wire (env_mp E) k" "wire_ok (venc V) (vdec V) d"
    and "sview (cs, w) j k = None \<and> r = d \<or>
      (\<exists>v. sview (cs, w) j k = Some (pk_pack (venc V) v) \<and> wire_ok (venc V) (vdec V) v \<and> r = comb v d)"
    and "wire_ok (venc V) (vdec V) r"
  shows "\<exists>w'. m_bupdate (client_kvm (env_mp E) (cluster_zmq E addr) V) j k d (Some fn) (cs, w) =
      Inr ((r, True), w') \<and> sinv addr n w' \<and>
      sview w' = (sview (cs, w))(j := (sview (cs, w) j)(k \<mapsto> pk_pack (venc V) r))"
  using svc_add [of E V "Some fn" "\<lambda>a b. Inr (comb a b)" w addr n cs j k d r] assms by (auto simp: upd_ready_def)

lemma svc_pull_missing:
  assumes "wire_env E" "sinv addr n (cs, w)" "j < n" "str_wire (env_mp E) k" "sview (cs, w) j k = None"
  shows "m_pull (client_kvm (env_mp E) (cluster_zmq E addr) V) j k (cs, w) = Inl AssertFailed"
proof -
  have j: "j < length cs" "j < length w" "clt_ok addr j (cs ! j)"
    using assms(2,3) by (auto simp: sinv_def)
  have "thrd_branch E ''pull'' [pack_str (env_mp E) ''pull'', pack_str (env_mp E) k]
      (n_thr (w ! j) 0) (n_tbl (w ! j)) = Inr ([''nokey''], n_thr (w ! j) 0, n_tbl (w ! j))"
    using assms(5) wire_packed [OF assms(4)]
    by (simp add: kvm_defs kvs_get_into_get sview_tbl [OF assms(2,3)])
  then obtain c' w' where "send_req (cluster_zmq E addr) P_pull (port_of P_pull)
      [pack_str (env_mp E) ''pull'', pack_str (env_mp E) k] (cs ! j) w = Inr (''nokey'', c', w')"
    using send_req_cluster [OF assms(1) j(3) refl j(2), of "''pull''" "[pack_str (env_mp E) k]" P_pull "''nokey''"]
      wire_packed [OF assms(4)] by (auto simp: op_names_def replying_ops_def)
  then show ?thesis
    using j by (simp add: client_kvm_def at_client_def nth_res_def kvclt_pull_def recv_val_def)
qed

text \<open>The clients and the servers keep this contract as well.\<close>

interpretation svu: kv_updates "client_kvm (env_mp E) (cluster_zmq E addr) V" n
    "\<lambda>w. wire_env E \<and> upd_env E V fn comb \<and> sinv addr n w" sview "pk_pack (venc V)"
    "str_wire (env_mp E)" "wire_ok (venc V) (vdec V)" "lst_wire (env_mp E)" "vals_wire (env_mp E) V"
    fn comb for E addr V n fn comb
proof (unfold_locales, goal_cases)
  case (1 w j k v)
  then show ?case using svc.push [of E addr n w j k V v] by blast
next
  case (2 w j k v)
  then show ?case using svc.pull [of E addr n w j k V v] by blast
next
  case (3 w j k v x)
  then show ?case using svc.pull_into [of E addr n w j k V v x] by blast
next
  case (4 w j k x)
  then show ?case using svc.pull_into_missing [of E addr n w j k V x] by blast
next
  case (5 w j k)
  then show ?case using svc.contains [of E addr n w j k V] by blast
next
  case (6 w j k)
  then show ?case using svc.remove [of E addr n w j k V] by blast
next
  case (7 w j ks f)
  then show ?case using svc.pull_multi [of E addr n w j ks V f] by blast
next
  case (8 w j d)
  then show ?case using svc.push_multi [of E addr n w j d V] by blast
next
  case (9 w j k d)
  then show ?case using svc_bupdate [of E V fn comb addr n "fst w" "snd w" j k d d] by auto
next
  case (10 w j k d v)
  then show ?case using svc_bupdate [of E V fn comb addr n "fst w" "snd w" j k d "comb v d"] by auto
next
  case (11 w j k)
  then show ?case using svc_pull_missing [of E addr n "fst w" "snd w" j k V] by simp
qed

text \<open>Reading the whole table of a server.\<close>

definition dct_wire :: "msgpack \<Rightarrow> 'v vcodec \<Rightarrow> (string, 'v) dict \<Rightarrow> bool" where
  "dct_wire M V d \<longleftrightarrow> (\<forall>(k, v) \<in> set d. packable (venc V) (vdec V) v) \<and>
     (\<forall>d'. mset d' = mset d \<longrightarrow> packable (mp_dct M) (um_dct M) (map (\<lambda>(k, v). (k, pk_pack (venc V) v)) d'))"

lemma recv_dct_fold:
  "\<forall>(k, v) \<in> set d. packable enc dec v \<Longrightarrow>
   rfold (\<lambda>(k, s) val. rbind (pk_unpack dec s) (\<lambda>v. Inr (dict_set k v val)))
     (map (\<lambda>(k, v). (k, pk_pack enc v)) d) val = Inr (dict_set_all d val)"
  by (induction d val rule: dict_set_all.induct) (auto simp: pk.dec_enc)

text \<open>Two dictionaries with distinct keys and the same lookups have the same entries.\<close>

lemma dict_mset_eq:
  assumes "wf_dict a" "wf_dict b" "\<And>k. dict_get a k = dict_get b k"
  shows "mset a = mset b"
proof -
  have "x \<in> set a \<longleftrightarrow> x \<in> set b" for x
    using dict_get_iff [OF assms(1)] dict_get_iff [OF assms(2)] assms(3) by (cases x) metis
  moreover have "distinct a" "distinct b"
    using assms(1,2) by (auto simp: wf_dict_def distinct_map)
  ultimately show ?thesis by (metis set_eq_iff_mset_eq_distinct subsetI subset_antisym)
qed

lemma recv_dct_packed:
  assumes "wf_dict t" "wf_dict d" "dct_wire M V d" "\<And>k. dict_get t k = map_option (pk_pack (venc V)) (dict_get d k)"
  shows "\<exists>d'. recv_dct M (vdec V) (pk_pack (mp_dct M) t) = Inr d' \<and> mset d' = mset d"
proof -
  let ?enc = "\<lambda>(k, v). (k, pk_pack (venc V) v)"
  define d' where "d' = map (\<lambda>(k, s). (k, the (dict_get d k))) t"
  have "dict_get t k = Some s \<Longrightarrow> \<exists>v. dict_get d k = Some v \<and> s = pk_pack (venc V) v" for k s
    by (auto simp: assms(4))
  then have tbl: "map ?enc d' = t"
    unfolding d'_def map_map
    by (intro map_idI) (use dict_get_iff [OF assms(1)] in \<open>fastforce simp: comp_def\<close>)
  have keys: "map fst d' = map fst t" by (auto simp: d'_def)
  have wf: "wf_dict d'" using assms(1) keys by (simp add: wf_dict_def)
  have "dict_get d' k = dict_get d k" for k
  proof (cases "dict_get d k")
    case None
    then have "dict_get t k = None" using assms(4) [of k] by simp
    then have "k \<notin> fst ` set t" by (simp add: dict_get_def map_of_eq_None_iff)
    then have "k \<notin> fst ` set d'" by (metis keys set_map)
    then have "dict_get d' k = None" by (simp add: dict_get_def map_of_eq_None_iff)
    with None show ?thesis by simp
  next
    case (Some v)
    then have "(k, pk_pack (venc V) v) \<in> set t" using assms(4) [of k] by (simp add: dict_get_in_set)
    then have "(k, v) \<in> set d'" using Some by (force simp: d'_def)
    with Some wf show ?thesis by (simp add: dict_get_iff)
  qed
  then have m: "mset d' = mset d" by (intro dict_mset_eq [OF wf assms(2)])
  then have "packable (mp_dct M) (um_dct M) (map ?enc d')" "\<forall>(k, v) \<in> set d'. packable (venc V) (vdec V) v"
    using assms(3) mset_eq_setD [OF m] by (auto simp: dct_wire_def)
  then have "recv_dct M (vdec V) (pk_pack (mp_dct M) t) = Inr d'"
    by (simp only: recv_dct_def pk.dec_enc rbind_Inr pk.enc_nonempty if_False flip: tbl)
      (simp add: recv_dct_fold dict_set_all_copy [OF wf])
  with m show ?thesis by blast
qed

lemma svc_pullall:
  assumes "wire_env E" "\<forall>nd \<in> set w. wf_dict (n_tbl nd)" "sinv addr n (cs, w)" "j < n"
    and "wf_dict d" "dct_wire (env_mp E) V d" "\<forall>k. sview (cs, w) j k = map_option (pk_pack (venc V)) (dict_get d k)"
  shows "\<exists>d' w'. m_pullall (client_kvm (env_mp E) (cluster_zmq E addr) V) j (cs, w) = Inr (d', w') \<and>
    mset d' = mset d \<and> sinv addr n w' \<and> sview w' = sview (cs, w) \<and> snd w' = w"
proof -
  have jw: "w ! j \<in> set w" "j < length w" using assms(3,4) by (auto simp: sinv_def)
  let ?t = "n_tbl (w ! j)"
  have t: "wf_dict ?t" using assms(2) jw by blast
  have "dict_get ?t k = map_option (pk_pack (venc V)) (dict_get d k)" for k
    using assms(7) by (simp add: sview_tbl [OF assms(3,4)] kvs_get_def)
  then obtain d' where d': "recv_dct (env_mp E) (vdec V) (pk_pack (mp_dct (env_mp E)) ?t) = Inr d'" "mset d' = mset d"
    using recv_dct_packed [OF t assms(5,6)] by blast
  have "\<exists>w'. at_client (kvclt_pullall (env_mp E) (cluster_zmq E addr) V) j (cs, w) =
      Inr (d', w') \<and> sinv addr n w' \<and> sview w' = (sview (cs, w))(j := kvs_get ?t) \<and>
      snd w' = w[j := (w ! j)\<lparr>n_thr := (n_thr (w ! j))(0 := n_thr (w ! j) 0), n_tbl := ?t\<rparr>]"
    by (rule at_client_req_nd [OF assms(1,3,4), of "''pullall''" "[]" P_pullall 0
          "pk_pack (mp_dct (env_mp E)) ?t" "n_thr (w ! j) 0" ?t _ "recv_dct (env_mp E) (vdec V)"])
      (use d'(1) in \<open>simp_all add: op_names_def replying_ops_def thrd_branch_def branch_defs kvs_getall_def kvclt_pullall_def case_prod_unfold\<close>)
  then show ?thesis using d'(2) by (auto simp: client_kvm_def sview_same [OF assms(3,4)])
qed

text \<open>Reading with a filter: the thread keeps the filter it has loaded.\<close>

definition flt_env :: "env \<Rightarrow> string \<times> string \<Rightarrow> (string \<Rightarrow> bool) \<Rightarrow> bool" where
  "flt_env E ffn keep \<longleftrightarrow> str_wire (env_mp E) (fst ffn) \<and> str_wire (env_mp E) (snd ffn) \<and>
     env_dl_filter E (fst ffn) (snd ffn) = Some (\<lambda>k v. filter_with_key_proxy keep k)"

lemma svc_pullall_special:
  assumes "wire_env E" "\<forall>nd \<in> set w. wf_dict (n_tbl nd)" "sinv addr n (cs, w)" "j < n" "flt_env E ffn keep"
    and "wf_dict d" "dct_wire (env_mp E) V d"
    and "\<forall>k. (if keep k then sview (cs, w) j k else None) = map_option (pk_pack (venc V)) (dict_get d k)"
  shows "\<exists>d' w' th. m_pullall_special (client_kvm (env_mp E) (cluster_zmq E addr) V) j (Some ffn) (cs, w) = Inr (d', w') \<and>
    mset d' = mset d \<and> sinv addr n w' \<and> sview w' = sview (cs, w) \<and>
    snd w' = w[j := (w ! j)\<lparr>n_thr := (n_thr (w ! j))(0 := th)\<rparr>]"
proof -
  have jw: "w ! j \<in> set w" "j < length w" using assms(3,4) by (auto simp: sinv_def)
  let ?t = "filter (\<lambda>(k, v). keep k) (n_tbl (w ! j))"
  let ?flt = "\<lambda>k (v :: string). filter_with_key_proxy keep k"
  let ?msg = "[pack_str (env_mp E) ''pullall_special'', pack_str (env_mp E) (fst ffn), pack_str (env_mp E) (snd ffn)]"
  have tbl: "wf_dict (n_tbl (w ! j))" using assms(2) jw by blast
  then have t: "wf_dict ?t" by (simp add: wf_dict_def distinct_map_filter)
  have "dict_get (filter (\<lambda>(k, v). keep k) l) k = (if keep k then dict_get l k else None)" for l :: tbl and k
    by (induction l) auto
  then have "dict_get ?t k = map_option (pk_pack (venc V)) (dict_get d k)" for k
    unfolding assms(8) [rule_format, symmetric] sview_tbl [OF assms(3,4)] kvs_get_def .
  then obtain d' where d': "recv_dct (env_mp E) (vdec V) (pk_pack (mp_dct (env_mp E)) ?t) = Inr d'" "mset d' = mset d"
    using recv_dct_packed [OF t assms(6,7)] by blast
  have fl: "kv_filter4pullall (Some ?flt) (n_tbl (w ! j)) [] = Inr ?t"
    using kv_filter4pullall_filter [of "n_tbl (w ! j)" ?flt "\<lambda>k v. keep k" "[]"] tbl
    by (simp add: filter_with_key_proxy_def)
  have ok: "packable (mp_str (env_mp E)) (um_str (env_mp E)) (fst ffn)"
    "packable (mp_str (env_mp E)) (um_str (env_mp E)) (snd ffn)"
    "\<forall>s \<in> {fst ffn, snd ffn}. clean seperator (pack_str (env_mp E) s)"
    using assms(5) by (auto simp: flt_env_def wire_ok_def)
  let ?th = "(n_thr (w ! j) 0)\<lparr>pullall_special_f := Some ?flt\<rparr>"
  have br: "thrd_branch E ''pullall_special'' ?msg (n_thr (w ! j) 0) (n_tbl (w ! j)) =
      Inr ([pk_pack (mp_dct (env_mp E)) ?t], ?th, n_tbl (w ! j))"
    using assms(5) ok fl
    by (simp add: kvm_defs dlopen_pullall_def flt_env_def kvs_getall_def)
  have "\<exists>w'. at_client (kvclt_pullall_special (env_mp E) (cluster_zmq E addr) V (Some ffn)) j (cs, w) =
      Inr (d', w') \<and> sinv addr n w' \<and> sview w' = (sview (cs, w))(j := kvs_get (n_tbl (w ! j))) \<and>
      snd w' = w[j := (w ! j)\<lparr>n_thr := (n_thr (w ! j))(0 := ?th), n_tbl := n_tbl (w ! j)\<rparr>]"
    by (rule at_client_req_nd [OF assms(1,3,4), of "''pullall_special''"
          "[pack_str (env_mp E) (fst ffn), pack_str (env_mp E) (snd ffn)]" P_pullall 0
          "pk_pack (mp_dct (env_mp E)) ?t" ?th "n_tbl (w ! j)" _ "recv_dct (env_mp E) (vdec V)"])
      (use br d'(1) ok in \<open>simp_all add: op_names_def replying_ops_def kvclt_pullall_special_def case_prod_unfold\<close>)
  then show ?thesis using d'(2) by (auto simp: client_kvm_def sview_same [OF assms(3,4)])
qed

text \<open>The clients and the servers keep the contracts of updates and whole reads.\<close>

definition ainv ::
  "env \<Rightarrow> 'v vcodec \<Rightarrow> (string \<times> string) option \<Rightarrow> ('v \<Rightarrow> 'v \<Rightarrow> 'v) \<Rightarrow> (string \<Rightarrow> (nat \<times> nat) option) \<Rightarrow> nat \<Rightarrow>
     kvclt list \<times> node list \<Rightarrow> bool"
where
  "ainv E V fn comb addr n w \<longleftrightarrow> wire_env E \<and> upd_ready E V fn comb (snd w) \<and>
     (\<forall>nd \<in> set (snd w). wf_dict (n_tbl nd)) \<and> sinv addr n w"

interpretation sva: kv_scan "client_kvm (env_mp E) (cluster_zmq E addr) V" n "ainv E V fn comb addr n"
    sview "pk_pack (venc V)" "str_wire (env_mp E)" "wire_ok (venc V) (vdec V)" fn comb "dct_wire (env_mp E) V"
  for E addr V n fn comb
proof (unfold_locales, goal_cases)
  case (1 w j k d)
  then show ?case using svc_add [of E V fn "\<lambda>a b. Inr (comb a b)" "snd w" addr n "fst w" j k d d] by (auto simp: ainv_def)
next
  case (2 w j k d v)
  then show ?case using svc_add [of E V fn "\<lambda>a b. Inr (comb a b)" "snd w" addr n "fst w" j k d "comb v d"] by (auto simp: ainv_def)
next
  case (3 w j d)
  then show ?case using svc_pullall [of E "snd w" addr n "fst w" j d V] by (auto simp: ainv_def)
qed

interpretation svf: kv_special "client_kvm (env_mp E) (cluster_zmq E addr) V" n
    "\<lambda>w. ainv E V fn comb addr n w \<and> flt_env E ffn keep"
    sview "pk_pack (venc V)" "str_wire (env_mp E)" "wire_ok (venc V) (vdec V)" fn comb ffn keep "dct_wire (env_mp E) V"
  for E addr V n fn comb ffn keep
proof (unfold_locales, goal_cases)
  case (1 w j k d)
  then show ?case using sva.bupdate_new [of E V fn comb addr n w j k d] by auto
next
  case (2 w j k d v)
  then show ?case using sva.bupdate_old [of E V fn comb addr n w j k d v] by auto
next
  case (3 w j d)
  then have ok: "wire_env E" "\<forall>nd \<in> set (snd w). wf_dict (n_tbl nd)" "sinv addr n (fst w, snd w)"
    "flt_env E ffn keep" "upd_ready E V fn comb (snd w)" "j < length (snd w)"
    by (auto simp: ainv_def sinv_def)
  have view: "\<forall>k. (if keep k then sview (fst w, snd w) j k else None) = map_option (pk_pack (venc V)) (dict_get d k)"
    unfolding prod.collapse by (rule 3(5))
  obtain d' w' th where w': "m_pullall_special (client_kvm (env_mp E) (cluster_zmq E addr) V) j (Some ffn) (fst w, snd w) = Inr (d', w')"
    "mset d' = mset d" "sinv addr n w'" "sview w' = sview (fst w, snd w)"
    "snd w' = (snd w)[j := (snd w ! j)\<lparr>n_thr := (n_thr (snd w ! j))(0 := th)\<rparr>]"
    using svc_pullall_special [OF ok(1,2,3) 3(2) ok(4) 3(3,4) view] by blast
  have nd: "\<exists>nd' \<in> set (snd w). n_thr nd 3 = n_thr nd' 3 \<and> n_tbl nd = n_tbl nd'" if "nd \<in> set (snd w')" for nd
    using that ok(6) set_update_subset_insert [of "snd w" j] nth_mem [OF ok(6)] unfolding w'(5) by fastforce
  then have "upd_ready E V fn comb (snd w')" "\<forall>nd \<in> set (snd w'). wf_dict (n_tbl nd)"
    using ok(2,5) by (fastforce simp: upd_ready_def split: option.splits)+
  then show ?case using w' ok(1,4) by (auto simp: ainv_def)
qed

end
