(* ===== verification/Ring.thy ===== *)
theory Ring
  imports StrUtil
begin

text \<open>
  \<open>include/utils/hash.hpp\<close>, \<open>ring_bsearch\<close> of \<open>include/utils.hpp\<close> and \<open>include/ring.hpp\<close>:
  the hash combiners and the consistent-hash ring that assigns keys to parameter servers.
  \<open>std::hash\<close> has no specified values: it is the argument \<open>hfunc\<close>. \<open>show_name\<close> is the
  stream output of a server name, \<open>dflt\<close> the value \<open>T()\<close> that \<open>operator[]\<close> creates.

  The lemmas: the binary search finds the first token at or after the key, wrapping round
  to the first token of the ring; a lookup returns the owner of that token; adding a server
  moves keys to the new server only, and removing it again gives them back.
\<close>

section \<open>Hash combiners\<close>

unbundle bit_operations_syntax

definition hash_value_combine :: "u64 \<Rightarrow> u64 \<Rightarrow> u64" where
  "hash_value_combine x y =
     (let kMul = 0x9ddfea08eb382d69;
          a = (x XOR y) * kMul;
          a = a XOR drop_bit 47 a;
          b = (y XOR a) * kMul;
          b = b XOR drop_bit 47 b;
          b = b * kMul
      in b)"

definition hash_combine :: "('v \<Rightarrow> u64) \<Rightarrow> u64 \<Rightarrow> 'v \<Rightarrow> u64" where
  "hash_combine hh seed v = hash_value_combine (hh v) seed"

definition hash_vector :: "(string \<Rightarrow> u64) \<Rightarrow> ('l \<Rightarrow> string) \<Rightarrow> 'l list \<Rightarrow> u64" where
  "hash_vector hl cvt vec = hl (''vechash'' @ concat (map cvt vec))"

definition hash_pair :: "('l \<Rightarrow> u64) \<Rightarrow> ('r \<Rightarrow> u64) \<Rightarrow> 'l \<times> 'r \<Rightarrow> u64" where
  "hash_pair hl hr n = hash_combine hr (hl (fst n)) (snd n)"

lemma xorshift_involution: "(w XOR drop_bit 47 w) XOR drop_bit 47 (w XOR drop_bit 47 w) = (w :: u64)"
proof -
  have "drop_bit 94 w = 0"
    by (rule bit_eqI) (auto simp: bit_simps dest: bit_imp_le_length)
  then show ?thesis
    by (simp add: xor.assoc)
qed

lemma xorshift_inject: "w XOR drop_bit 47 w = v XOR drop_bit 47 v \<longleftrightarrow> w = (v :: u64)"
  by (metis xorshift_involution)

lemma kMul_inject: "w * 0x9ddfea08eb382d69 = v * 0x9ddfea08eb382d69 \<longleftrightarrow> w = (v :: u64)"
proof
  have one: "(0x9ddfea08eb382d69 :: u64) * 15877131476434367193 = 1" by simp
  have inv: "x * 0x9ddfea08eb382d69 * 15877131476434367193 = x" for x :: u64
    by (simp only: mult.assoc one mult_1_right)
  assume "w * 0x9ddfea08eb382d69 = v * 0x9ddfea08eb382d69"
  then show "w = v" by (metis inv)
qed simp

lemma xor_cancel: "x XOR (x XOR y) = (y :: u64)"
  by (simp flip: xor.assoc)

lemma xor_left_inject: "x XOR y = x XOR z \<longleftrightarrow> y = (z :: u64)"
  by (metis xor_cancel)

lemma xor_right_inject: "y XOR x = z XOR x \<longleftrightarrow> y = (z :: u64)"
  by (simp only: xor.commute [of _ x] xor_left_inject)

lemmas hash_injects = kMul_inject xorshift_inject xor_left_inject xor_right_inject

text \<open>
  Combining with a fixed second argument loses nothing: distinct first arguments
  give distinct results, so a pair's hash separates second components of distinct hashes.
\<close>

theorem hash_value_combine_inject:
  "hash_value_combine x y = hash_value_combine x' y \<longleftrightarrow> x = x'"
  by (simp only: hash_value_combine_def Let_def hash_injects)

lemma hash_pair_inject: "hash_pair hl hr (a, b) = hash_pair hl hr (a, b') \<longleftrightarrow> hr b = hr b'"
  by (simp only: hash_pair_def hash_combine_def fst_conv snd_conv hash_value_combine_def Let_def
      hash_injects)

text \<open>
  The hash of a vector appends its items without a separator, so vectors whose
  printed items run together the same way collide under every string hash.
\<close>

theorem hash_vector_collision:
  "hash_vector hl to_string [1, 23] = hash_vector hl to_string [12, 3]"
  by (simp add: hash_vector_def to_string.simps)

section \<open>ring_bsearch\<close>

text \<open>
  The loop on \<open>size_t\<close> bounds \<open>s\<close>, \<open>e\<close> and the last midpoint \<open>m\<close> (not yet assigned before
  the first round). \<open>e = m - 1\<close> with \<open>m = 0\<close> would wrap to the largest \<open>size_t\<close>, and the next
  midpoint would be read far outside the vector: that branch is a fault. \<open>ring_bsearch\<close>
  reads \<open>data[0]\<close> of an empty vector.
\<close>

function ring_loop :: "('a :: linorder) list \<Rightarrow> 'a \<Rightarrow> nat \<Rightarrow> nat \<Rightarrow> nat option \<Rightarrow> nat res" where
  "ring_loop data key s e m =
     (if s \<le> e then
        (let m = s + (e - s) div 2
         in rbind (nth_res data m) (\<lambda>d.
              if d < key then ring_loop data key (m + 1) e (Some m)
              else if key < d then
                (if m = 0 then Inl UndefinedRead else ring_loop data key s (m - 1) (Some m))
              else Inr m))
      else rbind (of_opt UndefinedRead m) (\<lambda>m.
           rbind (nth_res data m) (\<lambda>d. Inr (if d < key then m + 1 else m))))"
  by pat_completeness auto
termination
  by (relation "measure (\<lambda>(data, key, s, e, m). Suc e - s)") auto

declare ring_loop.simps [simp del]

definition ring_bsearch :: "('a :: linorder) list \<Rightarrow> 'a \<Rightarrow> nat res" where
  "ring_bsearch data key =
     (if data = [] then Inl UndefinedRead
      else if key < data ! 0 \<or> data ! (length data - 1) < key then Inr 0
      else ring_loop data key 0 (length data - 1) None)"

text \<open>\<open>is_succ\<close>: the least element at or after the key.\<close>

definition is_succ :: "('a :: linorder) set \<Rightarrow> 'a \<Rightarrow> 'a \<Rightarrow> bool" where
  "is_succ A key t \<longleftrightarrow> t \<in> A \<and> key \<le> t \<and> (\<forall>u \<in> A. key \<le> u \<longrightarrow> t \<le> u)"

lemma is_succ_nth:
  assumes "sorted data" "i < length data" "key \<le> data ! i" "\<forall>j < i. data ! j < key"
  shows "is_succ (set data) key (data ! i)"
  unfolding is_succ_def
proof (intro conjI ballI impI)
  fix u
  assume "u \<in> set data" "key \<le> u"
  then obtain j where "j < length data" "u = data ! j" by (metis in_set_conv_nth)
  with \<open>key \<le> u\<close> assms show "data ! i \<le> u"
    by (metis linorder_not_less sorted_iff_nth_mono)
qed (use assms in auto)

definition ring_loop_inv :: "('a :: linorder) list \<Rightarrow> 'a \<Rightarrow> nat \<Rightarrow> nat \<Rightarrow> nat option \<Rightarrow> bool" where
  "ring_loop_inv data key s e m \<longleftrightarrow>
     s \<le> Suc e \<and> e < length data \<and> (\<forall>j < s. data ! j < key) \<and>
     (\<forall>j < length data. e < j \<longrightarrow> key < data ! j) \<and>
     (e < s \<longrightarrow> (\<exists>k. m = Some k \<and> (k = s \<or> Suc k = s)))"

lemma ring_loop_correct:
  "sorted data \<Longrightarrow> data ! 0 \<le> key \<Longrightarrow> key \<le> data ! (length data - 1) \<Longrightarrow>
    ring_loop_inv data key s e m \<Longrightarrow>
    \<exists>i < length data. ring_loop data key s e m = Inr i \<and> is_succ (set data) key (data ! i)"
proof (induction data key s e m rule: ring_loop.induct)
  case (1 data key s e m)
  note srt = "1.prems"(1) and lo = "1.prems"(2) and hi = "1.prems"(3)
  have inv: "s \<le> Suc e" "e < length data" "\<And>j. j < s \<Longrightarrow> data ! j < key"
    "\<And>j. j < length data \<Longrightarrow> e < j \<Longrightarrow> key < data ! j"
    using "1.prems"(4) by (auto simp: ring_loop_inv_def)
  have sn: "s < length data"
    using inv(3) [of "length data - 1"] hi inv(1,2) by fastforce
  show ?case
  proof (cases "s \<le> e")
    case True
    define k where "k = s + (e - s) div 2"
    have k: "s \<le> k" "k \<le> e" "k < length data" using True inv(2) by (auto simp: k_def)
    have unf: "ring_loop data key s e m =
        (if data ! k < key then ring_loop data key (k + 1) e (Some k)
         else if key < data ! k then
           (if k = 0 then Inl UndefinedRead else ring_loop data key s (k - 1) (Some k))
         else Inr k)"
      unfolding ring_loop.simps [of data key s e m] Let_def k_def [symmetric]
      using True k(3) by (simp add: nth_res_def)
    consider "data ! k < key" | "key < data ! k" | "data ! k = key" by fastforce
    then show ?thesis
    proof cases
      case 1
      have "data ! j < key" if "j < k + 1" for j
        using sorted_nth_mono [OF srt, of j k] that k(3) 1 by fastforce
      then have "ring_loop_inv data key (k + 1) e (Some k)"
        using k inv by (auto simp: ring_loop_inv_def)
      from "1.IH"(1) [OF True k_def _ 1 srt lo hi this] 1 k(3) show ?thesis
        by (simp add: unf nth_res_def)
    next
      case 2
      then have "k \<noteq> 0" using lo by (metis linorder_not_less)
      have "key < data ! j" if "k - 1 < j" "j < length data" for j
        using sorted_nth_mono [OF srt, of k j] that 2 by fastforce
      then have "ring_loop_inv data key s (k - 1) (Some k)"
        using k inv \<open>k \<noteq> 0\<close> by (auto simp: ring_loop_inv_def)
      from "1.IH"(2) [OF True k_def _ less_not_sym [OF 2] 2 \<open>k \<noteq> 0\<close> srt lo hi this]
      show ?thesis
        using 2 k(3) \<open>k \<noteq> 0\<close> less_not_sym [OF 2] by (simp add: unf nth_res_def)
    next
      case 3
      then have "is_succ (set data) key (data ! k)"
        using k(3) by (auto simp: is_succ_def)
      with 3 k(3) show ?thesis by (simp add: unf)
    qed
  next
    case False
    then obtain k where k: "m = Some k" "k = s \<or> Suc k = s" and se: "s = Suc e"
      using "1.prems"(4) by (auto simp: ring_loop_inv_def)
    have "ring_loop data key s e m = Inr s"
      unfolding ring_loop.simps [of data key s e m]
      using k sn se inv(3) [of k] inv(4) [of s] False by (auto simp: nth_res_def)
    moreover have "is_succ (set data) key (data ! s)"
      using is_succ_nth [OF srt sn] inv(3) inv(4) [OF sn] se by fastforce
    ultimately show ?thesis using sn by blast
  qed
qed

lemma ring_bsearch_correct:
  assumes "sorted data" "data \<noteq> []"
  shows "\<exists>i < length data. ring_bsearch data key = Inr i \<and>
    (if \<exists>t \<in> set data. key \<le> t then is_succ (set data) key (data ! i) else i = 0)"
proof -
  let ?n = "length data"
  have n: "0 < ?n" using assms(2) by simp
  have mono: "data ! 0 \<le> t \<and> t \<le> data ! (?n - 1)" if "t \<in> set data" for t
    using that assms(1) n
    by (auto simp: in_set_conv_nth intro: sorted_nth_mono)
  consider "key < data ! 0" | "data ! (?n - 1) < key" "\<not> key < data ! 0"
    | "data ! 0 \<le> key" "key \<le> data ! (?n - 1)" by fastforce
  then show ?thesis
  proof cases
    case 1
    then have "is_succ (set data) key (data ! 0)"
      using n mono by (auto simp: is_succ_def)
    with 1 n assms(2) show ?thesis by (auto simp: ring_bsearch_def)
  next
    case 2
    then have "\<not> (\<exists>t \<in> set data. key \<le> t)" using mono by fastforce
    with 2 n assms(2) show ?thesis by (auto simp: ring_bsearch_def)
  next
    case 3
    have "ring_loop_inv data key 0 (?n - 1) None" using n by (auto simp: ring_loop_inv_def)
    from ring_loop_correct [OF assms(1) 3 this] obtain i where
      "i < ?n" "ring_loop data key 0 (?n - 1) None = Inr i" "is_succ (set data) key (data ! i)"
      by blast
    with 3 assms(2) show ?thesis
      by (auto simp: ring_bsearch_def is_succ_def)
  qed
qed

section \<open>ring\<close>

record 'n ring =
  replicas :: int
  srv_hashring :: "u64 list"
  srv_hashring_dct :: "(u64, 'n) dict"

text \<open>The token of the \<open>i\<close>-th virtual node: the hash of \<open>name:i\<close>.\<close>

definition ring_token :: "(string \<Rightarrow> u64) \<Rightarrow> ('n \<Rightarrow> string) \<Rightarrow> 'n \<Rightarrow> nat \<Rightarrow> u64" where
  "ring_token hfunc show_name name i = hfunc (show_name name @ '':'' @ to_string i)"

definition ring_tokens :: "(string \<Rightarrow> u64) \<Rightarrow> ('n \<Rightarrow> string) \<Rightarrow> int \<Rightarrow> 'n \<Rightarrow> u64 list" where
  "ring_tokens hfunc show_name cp name = map (ring_token hfunc show_name name) [0..<nat cp]"

fun add_keys :: "'n \<Rightarrow> u64 list \<Rightarrow> 'n ring \<Rightarrow> 'n ring" where
  "add_keys name [] r = r"
| "add_keys name (key # keys) r =
     add_keys name keys
       (r\<lparr>srv_hashring_dct := dict_set key name (srv_hashring_dct r),
          srv_hashring := srv_hashring r @ [key]\<rparr>)"

definition add_server :: "(string \<Rightarrow> u64) \<Rightarrow> ('n \<Rightarrow> string) \<Rightarrow> 'n \<Rightarrow> 'n ring \<Rightarrow> 'n ring" where
  "add_server hfunc show_name name r =
     (let r = add_keys name (ring_tokens hfunc show_name (replicas r) name) r
      in r\<lparr>srv_hashring := sort (srv_hashring r)\<rparr>)"

fun remove_keys :: "u64 list \<Rightarrow> 'n ring \<Rightarrow> 'n ring" where
  "remove_keys [] r = r"
| "remove_keys (key # keys) r =
     remove_keys keys
       (r\<lparr>srv_hashring_dct := dict_del key (srv_hashring_dct r),
          srv_hashring := remove1 key (srv_hashring r)\<rparr>)"

definition remove_server :: "(string \<Rightarrow> u64) \<Rightarrow> ('n \<Rightarrow> string) \<Rightarrow> 'n \<Rightarrow> 'n ring \<Rightarrow> 'n ring" where
  "remove_server hfunc show_name name r =
     remove_keys (ring_tokens hfunc show_name (replicas r) name) r"

definition new_ring :: "(string \<Rightarrow> u64) \<Rightarrow> ('n \<Rightarrow> string) \<Rightarrow> int \<Rightarrow> 'n list \<Rightarrow> 'n ring" where
  "new_ring hfunc show_name cp names =
     fold (add_server hfunc show_name) names
       \<lparr>replicas = cp, srv_hashring = [], srv_hashring_dct = []\<rparr>"

text \<open>\<open>operator[]\<close> on a token without an owner would create one, with the value \<open>T()\<close>.\<close>

definition get_server :: "('p \<Rightarrow> u64) \<Rightarrow> 'n \<Rightarrow> 'p \<Rightarrow> 'n ring \<Rightarrow> ('n \<times> 'n ring) res" where
  "get_server hfunc dflt skey r =
     rbind (ring_bsearch (srv_hashring r) (hfunc skey)) (\<lambda>i.
     rbind (nth_res (srv_hashring r) i) (\<lambda>server.
     case dict_get (srv_hashring_dct r) server of
       Some n \<Rightarrow> Inr (n, r)
     | None \<Rightarrow> Inr (dflt, r\<lparr>srv_hashring_dct := dict_set server dflt (srv_hashring_dct r)\<rparr>)))"

subsection \<open>The invariant\<close>

text \<open>The tokens are sorted, and exactly the tokens have an owner.\<close>

definition ring_inv :: "'n ring \<Rightarrow> bool" where
  "ring_inv r \<longleftrightarrow> sorted (srv_hashring r) \<and>
     (\<forall>t. dict_get (srv_hashring_dct r) t \<noteq> None \<longleftrightarrow> t \<in> set (srv_hashring r))"

lemma add_keys_sel:
  "srv_hashring (add_keys name keys r) = srv_hashring r @ keys"
  "replicas (add_keys name keys r) = replicas r"
  "dict_get (srv_hashring_dct (add_keys name keys r)) t =
     (if t \<in> set keys then Some name else dict_get (srv_hashring_dct r) t)"
  by (induction name keys r rule: add_keys.induct) auto

lemma add_server_sel:
  "srv_hashring (add_server hf sh name r) = sort (srv_hashring r @ ring_tokens hf sh (replicas r) name)"
  "replicas (add_server hf sh name r) = replicas r"
  "dict_get (srv_hashring_dct (add_server hf sh name r)) t =
     (if t \<in> set (ring_tokens hf sh (replicas r) name) then Some name
      else dict_get (srv_hashring_dct r) t)"
  by (simp_all add: add_server_def add_keys_sel Let_def)

lemma ring_inv_add_server: "ring_inv r \<Longrightarrow> ring_inv (add_server hf sh name r)"
  by (auto simp: ring_inv_def add_server_sel)

lemma remove_keys_sel:
  "replicas (remove_keys keys r) = replicas r"
  "mset (srv_hashring (remove_keys keys r)) = mset (srv_hashring r) - mset keys"
  "dict_get (srv_hashring_dct (remove_keys keys r)) t =
     (if t \<in> set keys then None else dict_get (srv_hashring_dct r) t)"
  by (induction keys r rule: remove_keys.induct) auto

lemma sorted_remove_keys:
  "sorted (srv_hashring r) \<Longrightarrow> sorted (srv_hashring (remove_keys keys r))"
  by (induction keys r rule: remove_keys.induct) (auto simp: sorted_remove1)

lemma new_ring_sel: "replicas (new_ring hf sh cp names) = cp"
proof -
  have "replicas (fold (add_server hf sh) names r) = replicas r" for r :: "'a ring"
    by (induction names arbitrary: r) (auto simp: add_server_sel)
  then show ?thesis by (simp add: new_ring_def)
qed

lemma ring_inv_fold: "ring_inv r \<Longrightarrow> ring_inv (fold (add_server hf sh) names r)"
  by (induction names arbitrary: r) (auto simp: ring_inv_add_server)

lemma ring_inv_new_ring: "ring_inv (new_ring hf sh cp names)"
  unfolding new_ring_def by (rule ring_inv_fold) (simp add: ring_inv_def)

lemma fold_add_owners:
  "dict_get (srv_hashring_dct (fold (add_server hf sh) names r)) t = Some n \<Longrightarrow>
     n \<in> set names \<or> dict_get (srv_hashring_dct r) t = Some n"
proof (induction names arbitrary: r)
  case (Cons a names)
  then show ?case
    using Cons.IH [of "add_server hf sh a r"] by (auto simp: add_server_sel split: if_splits)
qed simp

lemma fold_add_tokens:
  "set (srv_hashring r) \<subseteq> set (srv_hashring (fold (add_server hf sh) names r))"
proof (induction names arbitrary: r)
  case (Cons a names)
  then show ?case
    using Cons.IH [of "add_server hf sh a r"] by (auto simp: add_server_sel)
qed simp

lemma new_ring_owner:
  "dict_get (srv_hashring_dct (new_ring hf sh cp names)) t = Some n \<Longrightarrow> n \<in> set names"
  using fold_add_owners [of hf sh names _ t n] by (force simp: new_ring_def)

lemma new_ring_nonempty:
  assumes "0 < cp" "names \<noteq> []"
  shows "srv_hashring (new_ring hf sh cp names) \<noteq> []"
proof -
  obtain n ns where names: "names = n # ns" using assms(2) by (cases names) auto
  let ?r = "add_server hf sh n \<lparr>replicas = cp, srv_hashring = [], srv_hashring_dct = []\<rparr>"
  have "set (srv_hashring ?r) \<noteq> {}"
    using assms(1) by (simp add: add_server_sel ring_tokens_def)
  then show ?thesis
    using fold_add_tokens [of ?r hf sh ns] by (auto simp: new_ring_def names)
qed

subsection \<open>Lookup\<close>

text \<open>The token that owns a key: the first at or after its hash, else the first of the ring.\<close>

definition succ_token :: "u64 set \<Rightarrow> u64 \<Rightarrow> u64" where
  "succ_token A key = (if \<exists>t \<in> A. key \<le> t then Min {t \<in> A. key \<le> t} else Min A)"

lemma is_succ_Min: "finite A \<Longrightarrow> is_succ A key t \<Longrightarrow> t = Min {t \<in> A. key \<le> t}"
  unfolding is_succ_def by (rule Min_eqI [symmetric]) auto

lemma succ_token_in: "finite A \<Longrightarrow> A \<noteq> {} \<Longrightarrow> succ_token A key \<in> A"
  using Min_in [of "{t \<in> A. key \<le> t}"] by (auto simp: succ_token_def)

lemma ring_bsearch_token:
  assumes "sorted data" "data \<noteq> []"
  shows "\<exists>i < length data. ring_bsearch data key = Inr i \<and> data ! i = succ_token (set data) key"
proof -
  obtain i where i: "i < length data" "ring_bsearch data key = Inr i"
    "if \<exists>t \<in> set data. key \<le> t then is_succ (set data) key (data ! i) else i = 0"
    using ring_bsearch_correct [OF assms] by blast
  have "Min (set data) = data ! 0"
    using assms by (metis Min_eqI finite_set hd_conv_nth hd_in_set in_set_conv_nth le0
        sorted_nth_mono)
  then have "data ! i = succ_token (set data) key"
    using i(3) is_succ_Min [of "set data" key "data ! i"]
    by (auto simp: succ_token_def split: if_splits)
  with i show ?thesis by blast
qed

lemma get_server_token:
  assumes "ring_inv r" "srv_hashring r \<noteq> []"
  shows "\<exists>n. dict_get (srv_hashring_dct r) (succ_token (set (srv_hashring r)) (hf skey)) = Some n \<and>
    get_server hf dflt skey r = Inr (n, r)"
proof -
  obtain i where i: "i < length (srv_hashring r)" "ring_bsearch (srv_hashring r) (hf skey) = Inr i"
    "srv_hashring r ! i = succ_token (set (srv_hashring r)) (hf skey)"
    using ring_bsearch_token assms by (metis ring_inv_def)
  have "srv_hashring r ! i \<in> set (srv_hashring r)" using i(1) by (rule nth_mem)
  then obtain n where "dict_get (srv_hashring_dct r) (srv_hashring r ! i) = Some n"
    using assms(1) by (auto simp: ring_inv_def)
  then show ?thesis using i by (simp add: get_server_def nth_res_def)
qed

lemma succ_token_Un:
  assumes "finite A" "finite B" "A \<noteq> {}"
  shows "succ_token (A \<union> B) key \<in> B \<or> succ_token (A \<union> B) key = succ_token A key"
proof (cases "succ_token (A \<union> B) key \<in> B")
  case False
  let ?t = "succ_token (A \<union> B) key"
  have tA: "?t \<in> A" using succ_token_in [of "A \<union> B" key] False assms by auto
  have "?t = succ_token A key"
  proof (cases "\<exists>t \<in> A \<union> B. key \<le> t")
    case True
    then have t: "?t = Min {t \<in> A \<union> B. key \<le> t}" by (simp add: succ_token_def)
    have "?t \<in> {t \<in> A \<union> B. key \<le> t}"
      unfolding t by (rule Min_in) (use True assms in auto)
    then have "?t \<in> {t \<in> A. key \<le> t}" using tA by simp
    moreover have "?t \<le> u" if "u \<in> {t \<in> A. key \<le> t}" for u
      unfolding t by (rule Min_le) (use that assms in auto)
    ultimately have "Min {t \<in> A. key \<le> t} = ?t"
      using assms(1) by (intro Min_eqI) auto
    then show ?thesis using \<open>?t \<in> {t \<in> A. key \<le> t}\<close> by (auto simp: succ_token_def)
  next
    case False
    then have t: "?t = Min (A \<union> B)" by (simp add: succ_token_def)
    have "Min A = ?t"
      by (rule Min_eqI) (use assms tA t in auto)
    then show ?thesis using False by (auto simp: succ_token_def)
  qed
  then show ?thesis ..
qed simp

section \<open>Properties\<close>

text \<open>
  C18: on every ring built from a non-empty list of servers with at least one virtual
  node each, a lookup never faults, leaves the ring unchanged and returns the server that owns
  the first token at or after the hash of the key (wrapping round to the smallest token);
  that server is one of those the ring was built from.
\<close>

theorem get_server_new_ring:
  assumes "names \<noteq> []" "0 < cp"
  shows "\<exists>n \<in> set names. get_server hf dflt skey (new_ring hfunc show_name cp names) =
      Inr (n, new_ring hfunc show_name cp names) \<and>
    dict_get (srv_hashring_dct (new_ring hfunc show_name cp names))
      (succ_token (set (srv_hashring (new_ring hfunc show_name cp names))) (hf skey)) = Some n"
  using get_server_token [OF ring_inv_new_ring new_ring_nonempty [OF assms(2,1)]] new_ring_owner
  by metis

theorem get_server_new_ring_witness:
  "\<exists>n \<in> {0, 1 :: nat}. get_server (\<lambda>s. word_of_nat (length s)) 7 ''key''
     (new_ring (\<lambda>s. word_of_nat (length s)) to_string 2 [0, 1]) =
     Inr (n, new_ring (\<lambda>s. word_of_nat (length s)) to_string 2 [0, 1])"
  using get_server_new_ring [of "[0, 1 :: nat]" 2 "\<lambda>s. word_of_nat (length s)" 7 "''key''"
      "\<lambda>s. word_of_nat (length s)" to_string] by auto

text \<open>
  C27: consistent hashing. Adding a server to a non-empty ring sends every key either
  where it went before or to the new server.
\<close>

theorem add_server_monotone:
  assumes "ring_inv r" "srv_hashring r \<noteq> []" "get_server hf dflt skey r = Inr (n, r)"
  shows "\<exists>n'. get_server hf dflt skey (add_server hfunc show_name name r) =
      Inr (n', add_server hfunc show_name name r) \<and> (n' = n \<or> n' = name)"
proof -
  let ?r = "add_server hfunc show_name name r"
  let ?A = "set (srv_hashring r)" and ?B = "set (ring_tokens hfunc show_name (replicas r) name)"
  have A: "set (srv_hashring ?r) = ?A \<union> ?B" by (simp add: add_server_sel)
  have "srv_hashring ?r \<noteq> []" using assms(2) A by (metis Un_empty set_empty)
  then obtain n' where n': "get_server hf dflt skey ?r = Inr (n', ?r)"
    "dict_get (srv_hashring_dct ?r) (succ_token (?A \<union> ?B) (hf skey)) = Some n'"
    using get_server_token [OF ring_inv_add_server [OF assms(1)]] A by metis
  have n: "dict_get (srv_hashring_dct r) (succ_token ?A (hf skey)) = Some n"
    using get_server_token [OF assms(1,2), of hf skey dflt] assms(3) by auto
  have "n' = n \<or> n' = name"
    using n'(2) n succ_token_Un [of ?A ?B "hf skey"] assms(2)
    by (auto simp: add_server_sel split: if_splits)
  with n' show ?thesis by blast
qed

theorem add_server_monotone_witness:
  "\<exists>n'. get_server (\<lambda>s. word_of_nat (length s)) 7 ''key''
       (add_server (\<lambda>s. word_of_nat (length s)) to_string 1
         (new_ring (\<lambda>s. word_of_nat (length s)) to_string 2 [0])) =
     Inr (n', add_server (\<lambda>s. word_of_nat (length s)) to_string 1
         (new_ring (\<lambda>s. word_of_nat (length s)) to_string 2 [0])) \<and> (n' = 0 \<or> n' = (1 :: nat))"
proof -
  let ?hf = "\<lambda>s :: string. word_of_nat (length s) :: u64"
  let ?r = "new_ring ?hf to_string 2 [0 :: nat]"
  have ne: "srv_hashring ?r \<noteq> []" by (rule new_ring_nonempty) simp_all
  obtain n where n: "dict_get (srv_hashring_dct ?r) (succ_token (set (srv_hashring ?r)) (?hf ''key'')) = Some n"
    "get_server ?hf 7 ''key'' ?r = Inr (n, ?r)"
    using get_server_token [OF ring_inv_new_ring ne, of ?hf "''key''" 7] by blast
  have "n = 0" using new_ring_owner [OF n(1)] by simp
  with add_server_monotone [OF ring_inv_new_ring ne n(2), of ?hf to_string 1] show ?thesis by simp
qed

text \<open>
  C40: removing a server that was added undoes the addition, when no token of it was
  on the ring before: the tokens, every owner and so every lookup are as they were.
\<close>

theorem remove_server_restores:
  assumes "ring_inv r" "srv_hashring r \<noteq> []"
    and "set (ring_tokens hfunc show_name (replicas r) name) \<inter> set (srv_hashring r) = {}"
  shows "srv_hashring (remove_server hfunc show_name name (add_server hfunc show_name name r))
      = srv_hashring r \<and>
    map_sum id fst (get_server hf dflt skey
        (remove_server hfunc show_name name (add_server hfunc show_name name r)))
      = map_sum id fst (get_server hf dflt skey r)"
proof -
  let ?toks = "ring_tokens hfunc show_name (replicas r) name"
  let ?r = "remove_server hfunc show_name name (add_server hfunc show_name name r)"
  have srt: "sorted (srv_hashring r)" using assms(1) by (simp add: ring_inv_def)
  have "mset (srv_hashring ?r) = mset (srv_hashring r)"
    by (simp add: remove_server_def remove_keys_sel add_server_sel)
  moreover have "sorted (srv_hashring ?r)"
    unfolding remove_server_def by (rule sorted_remove_keys) (simp add: add_server_sel)
  ultimately have ring: "srv_hashring ?r = srv_hashring r"
    using srt by (metis properties_for_sort)
  have dct: "dict_get (srv_hashring_dct ?r) t = dict_get (srv_hashring_dct r) t" for t
  proof (cases "t \<in> set ?toks")
    case True
    then have "t \<notin> set (srv_hashring r)" using assms(3) by auto
    then have "dict_get (srv_hashring_dct r) t = None" using assms(1) by (auto simp: ring_inv_def)
    with True show ?thesis by (simp add: remove_server_def remove_keys_sel add_server_sel)
  qed (simp add: remove_server_def remove_keys_sel add_server_sel)
  have "ring_inv ?r" using ring dct assms(1) by (simp add: ring_inv_def)
  then obtain n where "get_server hf dflt skey ?r = Inr (n, ?r)"
    "dict_get (srv_hashring_dct r) (succ_token (set (srv_hashring r)) (hf skey)) = Some n"
    using get_server_token [of ?r hf skey dflt] ring dct assms(2) by auto
  moreover obtain n' where "get_server hf dflt skey r = Inr (n', r)"
    "dict_get (srv_hashring_dct r) (succ_token (set (srv_hashring r)) (hf skey)) = Some n'"
    using get_server_token [OF assms(1,2), of hf skey dflt] by auto
  ultimately show ?thesis using ring by simp
qed

theorem remove_server_restores_witness:
  "srv_hashring (remove_server (\<lambda>s. word_of_nat (of_char (hd s))) to_string 1
     (add_server (\<lambda>s. word_of_nat (of_char (hd s))) to_string 1
       (new_ring (\<lambda>s. word_of_nat (of_char (hd s))) to_string 2 [0]))) =
   srv_hashring (new_ring (\<lambda>s. word_of_nat (of_char (hd s))) to_string 2 [0 :: nat])"
proof -
  let ?hf = "\<lambda>s :: string. word_of_nat (of_char (hd s)) :: u64"
  let ?r = "new_ring ?hf to_string 2 [0 :: nat]"
  have ne: "srv_hashring ?r \<noteq> []" by (rule new_ring_nonempty) simp_all
  have "set (ring_tokens ?hf to_string (replicas ?r) 1) = {49}"
    by (simp add: ring_tokens_def ring_token_def new_ring_sel to_string.simps numeral_2_eq_2)
  moreover have "set (srv_hashring ?r) = {48}"
    by (simp add: new_ring_def add_server_sel ring_tokens_def ring_token_def to_string.simps numeral_2_eq_2)
  ultimately have "set (ring_tokens ?hf to_string (replicas ?r) 1) \<inter> set (srv_hashring ?r) = {}" by simp
  from remove_server_restores [OF ring_inv_new_ring ne this, of ?hf 7 "''key''"] show ?thesis by simp
qed

end
