(* ===== verification/Ps.thy ===== *)
theory Ps
  imports Kvm Ring Decomp "HOL-Library.Signed_Division"
begin

text \<open>
  \<open>include/ps.hpp\<close>: the worker side. \<open>paralg\<close> is the state of a worker (the hash ring that
  routes keys to servers, the SSP clocks, the local cache, the local updater), and its
  operations run over the calls \<open>kvm_ops\<close> of the clients, on a world of the caller's choice.

  The cache holds values of one type; \<open>boost::any_cast\<close> on an entry that does not exist
  fails. \<open>hf\<close> is the hash of keys, \<open>dl\<close> the dynamic loader, \<open>dflt\<close> the value \<open>V()\<close>. The loop
  that waits for the slowest worker takes fuel; \<open>ssp_wait_returns\<close> bounds it.
\<close>

section \<open>State\<close>

record 'v paralg =
  p_ring :: "nat ring"
  srv_sz :: nat
  stale_cache :: int
  clock :: int
  total_iters :: int
  clock_server :: nat
  limit_s :: int
  ssp_switch :: bool
  cached_para :: "(string, 'v) dict"
  local_update_f :: "update_result option"
  npx :: nat
  npy :: nat
  worker_rank :: nat
  worker_size :: nat

type_synonym ('r, 'v, 'w) ps_op = "'v paralg \<Rightarrow> 'w \<Rightarrow> ('r \<times> 'v paralg \<times> 'w) res"

text \<open>\<open>parasrv\<close>: one client per server, and a ring over the server numbers with the default
  number of virtual nodes.\<close>

definition ring_replicas :: int where
  "ring_replicas = 32"

definition new_kvm :: "(string, string) dict list \<Rightarrow> kvclt list" where
  "new_kvm dct_lst = map (\<lambda>srv.
     new_kvclt (case dict_get srv ''host'' of Some h \<Rightarrow> h | None \<Rightarrow> [])
       (case dict_get srv ''ports'' of Some ps \<Rightarrow> ps | None \<Rightarrow> [])) dct_lst"

definition new_paralg ::
  "(string \<Rightarrow> u64) \<Rightarrow> nat \<Rightarrow> nat \<Rightarrow> nat \<Rightarrow> int \<Rightarrow> int \<Rightarrow> bool \<Rightarrow> 'v paralg"
where
  "new_paralg hfunc n rank sz rounds lim ssp =
     \<lparr>p_ring = new_ring hfunc to_string ring_replicas [0..<n], srv_sz = n, stale_cache = 0,
      clock = 0, total_iters = rounds, clock_server = 0, limit_s = lim, ssp_switch = ssp,
      cached_para = [], local_update_f = None, npx = 1, npy = 1, worker_rank = rank,
      worker_size = sz\<rparr>"

text \<open>The constructor: rank 0 tells the clock server how many workers there are.\<close>

definition paralg_init ::
  "('v, kvclt list \<times> 'w) kvm_ops \<Rightarrow> (string \<Rightarrow> string \<Rightarrow> string list) \<Rightarrow> (string \<Rightarrow> u64) \<Rightarrow> string \<Rightarrow>
   nat \<Rightarrow> nat \<Rightarrow> int \<Rightarrow> int \<Rightarrow> bool \<Rightarrow> 'w \<Rightarrow> ('v paralg \<times> (kvclt list \<times> 'w)) res"
where
  "paralg_init K rx hfunc hosts_dct_str rank sz rounds lim ssp w =
     rbind (get_hostnames_dict rx hosts_dct_str) (\<lambda>dct_lst.
     let p = new_paralg hfunc (length dct_lst) rank sz rounds lim ssp;
         w = (new_kvm dct_lst, w)
     in if rank = 0
        then rbind (m_push_int K (clock_server p) ''worker_sz'' (int sz) w) (\<lambda>(_, w). Inr (p, w))
        else Inr (p, w))"

definition set_total_iters :: "int \<Rightarrow> 'v paralg \<Rightarrow> 'v paralg" where
  "set_total_iters n p = p\<lparr>total_iters := n\<rparr>"

definition set_decomp_info :: "string \<Rightarrow> 'v paralg \<Rightarrow> 'v paralg res" where
  "set_decomp_info pattern p =
     (let (x, y) = npfactx (worker_size p)
      in rbind (if pattern = ''fsmap'' then npfact2d (worker_size p) True else Inr (x, y)) (\<lambda>(x, y).
         let (x, y) = (if pattern = ''smap'' then npfacty (worker_size p) else (x, y))
         in Inr (p\<lparr>npx := x, npy := y\<rparr>)))"

definition get_decomp_info :: "'v paralg \<Rightarrow> nat \<times> nat" where
  "get_decomp_info p = (npx p, npy p)"

text \<open>\<open>load_update_f\<close> reports a library it cannot load and leaves the updater as it was.\<close>

definition load_update_f ::
  "(string \<Rightarrow> string \<Rightarrow> update_result option) \<Rightarrow> string \<Rightarrow> string \<Rightarrow> 'v paralg \<Rightarrow> 'v paralg"
where
  "load_update_f dl fn fcn p =
     (case dl fn fcn of None \<Rightarrow> p | Some f \<Rightarrow> p\<lparr>local_update_f := Some f\<rparr>)"

section \<open>Routing and cache\<close>

text \<open>\<open>ps_obj->p_ring->get_server(key)\<close>.\<close>

definition ps_route :: "(string \<Rightarrow> u64) \<Rightarrow> string \<Rightarrow> 'v paralg \<Rightarrow> (nat \<times> 'v paralg) res" where
  "ps_route hf key p =
     rbind (get_server hf 0 key (p_ring p)) (\<lambda>(j, r). Inr (j, p\<lparr>p_ring := r\<rparr>))"

definition set_cache :: "string \<Rightarrow> 'v \<Rightarrow> 'v paralg \<Rightarrow> 'v paralg" where
  "set_cache key v p = p\<lparr>cached_para := dict_set key v (cached_para p)\<rparr>"

definition get_cache :: "string \<Rightarrow> 'v paralg \<Rightarrow> 'v res" where
  "get_cache key p = of_opt BadAnyCast (dict_get (cached_para p) key)"

definition is_cached :: "string \<Rightarrow> 'v paralg \<Rightarrow> bool" where
  "is_cached key p = dict_has (cached_para p) key"

section \<open>Clocks\<close>

text \<open>The wait: ask the clock server until this worker is at most \<open>limit_s\<close> ahead.\<close>

fun ssp_wait :: "('v, 'w) kvm_ops \<Rightarrow> nat \<Rightarrow> (unit, 'v, 'w) ps_op" where
  "ssp_wait K 0 p w =
     (if stale_cache p + limit_s p < clock p then Inl NoProgress else Inr ((), p, w))"
| "ssp_wait K (Suc fuel) p w =
     (if stale_cache p + limit_s p < clock p
      then rbind (m_pull_int K (clock_server p) ''server_clock'' w) (\<lambda>(c, w).
           ssp_wait K fuel (p\<lparr>stale_cache := c\<rparr>) w)
      else Inr ((), p, w))"

definition iter_commit :: "('v, 'w) kvm_ops \<Rightarrow> (unit, 'v, 'w) ps_op" where
  "iter_commit K p w =
     (let clock_key = (if limit_s p = 0 then ''client_clock_0''
                       else ''client_clock_'' @ to_string (nat (clock p smod limit_s p)))
      in rbind (m_incr_int K (clock_server p) clock_key 1 w) (\<lambda>(_, w).
         let p = p\<lparr>clock := clock p + 1\<rparr>
         in if clock p = total_iters p
            then rbind (m_incr_int K (clock_server p) ''worker_sz'' (-1) w) (\<lambda>(_, w). Inr ((), p, w))
            else Inr ((), p, w)))"

section \<open>Reading\<close>

definition pull_cached :: "('v, 'w) kvm_ops \<Rightarrow> (string \<Rightarrow> u64) \<Rightarrow> string \<Rightarrow> ('v, 'v, 'w) ps_op" where
  "pull_cached K hf key p w =
     rbind (ps_route hf key p) (\<lambda>(j, p).
     rbind (m_pull K j key w) (\<lambda>(v, w).
     let p = set_cache key v p
     in rbind (get_cache key p) (\<lambda>val. Inr (val, p, w))))"

definition read_ssp ::
  "('v, 'w) kvm_ops \<Rightarrow> (string \<Rightarrow> u64) \<Rightarrow> nat \<Rightarrow> string \<Rightarrow> ('v, 'v, 'w) ps_op"
where
  "read_ssp K hf fuel key p w =
     (if clock p = 0 \<or> clock p = total_iters p then pull_cached K hf key p w
      else if clock p < stale_cache p + limit_s p
           then rbind (get_cache key p) (\<lambda>val. Inr (val, p, w))
      else rbind (ssp_wait K fuel p w) (\<lambda>(_, p, w). pull_cached K hf key p w))"

text \<open>The two overloads: with an output argument and a status, and returning the value.\<close>

definition paracel_read_into ::
  "('v, 'w) kvm_ops \<Rightarrow> (string \<Rightarrow> u64) \<Rightarrow> nat \<Rightarrow> string \<Rightarrow> 'v option \<Rightarrow> (bool \<times> 'v option, 'v, 'w) ps_op"
where
  "paracel_read_into K hf fuel key val p w =
     (if ssp_switch p
      then rbind (read_ssp K hf fuel key p w) (\<lambda>(v, p, w). Inr ((True, Some v), p, w))
      else rbind (ps_route hf key p) (\<lambda>(j, p).
           rbind (m_pull_into K j key val w) (\<lambda>(r, w). Inr (r, p, w))))"

definition paracel_read ::
  "('v, 'w) kvm_ops \<Rightarrow> (string \<Rightarrow> u64) \<Rightarrow> nat \<Rightarrow> string \<Rightarrow> ('v, 'v, 'w) ps_op"
where
  "paracel_read K hf fuel key p w =
     (if ssp_switch p then read_ssp K hf fuel key p w
      else rbind (ps_route hf key p) (\<lambda>(j, p).
           rbind (m_pull K j key w) (\<lambda>(v, w). Inr (v, p, w))))"

text \<open>
  \<open>paracel_read_multi\<close>: the keys are dealt to the servers, with the index of each key; each
  server's answers are written at the indices of its keys.
\<close>

fun deal_keys ::
  "(string \<Rightarrow> u64) \<Rightarrow> string list \<Rightarrow> nat \<Rightarrow> string list list \<Rightarrow> (string, nat) dict \<Rightarrow> 'v paralg \<Rightarrow>
   (string list list \<times> (string, nat) dict \<times> 'v paralg) res"
where
  "deal_keys hf [] k lst_lst indx_map p = Inr (lst_lst, indx_map, p)"
| "deal_keys hf (key # keys) k lst_lst indx_map p =
     rbind (ps_route hf key p) (\<lambda>(j, p).
     rbind (nth_res lst_lst j) (\<lambda>l.
     deal_keys hf keys (Suc k) (lst_lst[j := l @ [key]]) (dict_set key k indx_map) p))"

fun scatter :: "(string, nat) dict \<Rightarrow> string list \<Rightarrow> 'v list \<Rightarrow> 'v list \<Rightarrow> 'v list res" where
  "scatter indx_map ks [] vals = Inr vals"
| "scatter indx_map [] (v # lst) vals = Inl UndefinedRead"
| "scatter indx_map (key # ks) (v # lst) vals =
     (let i = (case dict_get indx_map key of Some i \<Rightarrow> i | None \<Rightarrow> 0)
      in if i < length vals then scatter indx_map ks lst (vals[i := v]) else Inl UndefinedRead)"

fun pull_lists ::
  "('v, 'w) kvm_ops \<Rightarrow> (string, nat) dict \<Rightarrow> nat \<Rightarrow> string list list \<Rightarrow> 'v list \<Rightarrow> 'w \<Rightarrow> ('v list \<times> 'w) res"
where
  "pull_lists K indx_map k [] vals w = Inr (vals, w)"
| "pull_lists K indx_map k (ks # lst_lst) vals w =
     rbind (m_pull_multi K k ks w) (\<lambda>(lst, w).
     rbind (scatter indx_map ks lst vals) (\<lambda>vals. pull_lists K indx_map (Suc k) lst_lst vals w))"

definition cache_all :: "string list \<Rightarrow> 'v list \<Rightarrow> 'v paralg \<Rightarrow> 'v paralg" where
  "cache_all keys vals p = fold (\<lambda>(k, v). set_cache k v) (zip keys vals) p"

definition paracel_read_multi ::
  "('v, 'w) kvm_ops \<Rightarrow> (string \<Rightarrow> u64) \<Rightarrow> nat \<Rightarrow> 'v \<Rightarrow> string list \<Rightarrow> ('v list, 'v, 'w) ps_op"
where
  "paracel_read_multi K hf fuel dflt keys p w =
     rbind (deal_keys hf keys 0 (replicate (srv_sz p) []) [] p) (\<lambda>(lst_lst, indx_map, p).
     let vals = replicate (length keys) dflt
     in if ssp_switch p then
          (if clock p = 0 \<or> clock p = total_iters p then
             rbind (pull_lists K indx_map 0 lst_lst vals w) (\<lambda>(vals, w).
             Inr (vals, cache_all keys vals p, w))
           else if clock p < stale_cache p + limit_s p then
             rbind (rmapM (\<lambda>k. get_cache k p) keys) (\<lambda>vals. Inr (vals, p, w))
           else
             rbind (ssp_wait K fuel p w) (\<lambda>(_, p, w).
             rbind (pull_lists K indx_map 0 lst_lst vals w) (\<lambda>(vals, w).
             Inr (vals, cache_all keys vals p, w))))
        else rbind (pull_lists K indx_map 0 lst_lst vals w) (\<lambda>(vals, w). Inr (vals, p, w)))"

text \<open>Reading everything: into one dictionary, or handing each server's to a function.\<close>

fun read_servers ::
  "(nat \<Rightarrow> 'w \<Rightarrow> ((string, 'v) dict \<times> 'w) res) \<Rightarrow> ((string, 'v) dict \<Rightarrow> 's \<Rightarrow> 's) \<Rightarrow> nat list \<Rightarrow>
   's \<Rightarrow> 'w \<Rightarrow> ('s \<times> 'w) res"
where
  "read_servers pull func [] s w = Inr (s, w)"
| "read_servers pull func (indx # is) s w =
     rbind (pull indx w) (\<lambda>(tmp, w). read_servers pull func is (func tmp s) w)"

definition paracel_readall :: "('v, 'w) kvm_ops \<Rightarrow> ((string, 'v) dict, 'v, 'w) ps_op" where
  "paracel_readall K p w =
     rbind (read_servers (m_pullall K) dict_set_all [0..<srv_sz p] [] w) (\<lambda>(d, w). Inr (d, p, w))"

definition paracel_readall_handle ::
  "('v, 'w) kvm_ops \<Rightarrow> ((string, 'v) dict \<Rightarrow> 's \<Rightarrow> 's) \<Rightarrow> 's \<Rightarrow> ('s, 'v, 'w) ps_op"
where
  "paracel_readall_handle K func s p w =
     rbind (read_servers (m_pullall K) (\<lambda>tmp. func (dict_set_all tmp [])) [0..<srv_sz p] s w)
       (\<lambda>(s, w). Inr (s, p, w))"

definition paracel_read_special ::
  "('v, 'w) kvm_ops \<Rightarrow> string \<Rightarrow> string \<Rightarrow> ((string, 'v) dict, 'v, 'w) ps_op"
where
  "paracel_read_special K file_name func_name p w =
     rbind (read_servers (\<lambda>i. m_pullall_special K i (Some (file_name, func_name))) dict_set_all
       [0..<srv_sz p] [] w) (\<lambda>(d, w). Inr (d, p, w))"

definition paracel_read_special_handle ::
  "('v, 'w) kvm_ops \<Rightarrow> string \<Rightarrow> string \<Rightarrow> ((string, 'v) dict \<Rightarrow> 's \<Rightarrow> 's) \<Rightarrow> 's \<Rightarrow> ('s, 'v, 'w) ps_op"
where
  "paracel_read_special_handle K file_name func_name func s p w =
     rbind (read_servers (\<lambda>i. m_pullall_special K i (Some (file_name, func_name)))
       (\<lambda>tmp. func (dict_set_all tmp [])) [0..<srv_sz p] s w) (\<lambda>(s, w). Inr (s, p, w))"

text \<open>
  The k greatest values. \<open>std::priority_queue\<close> under \<open>min_heap_cmp\<close> keeps a least value on
  top; which of several equal ones is on top the standard leaves open, here the one that
  entered last.
\<close>

definition heap_push :: "string \<times> 'v :: linorder \<Rightarrow> (string \<times> 'v) list \<Rightarrow> (string \<times> 'v) list" where
  "heap_push x h = insort_key snd x h"

definition topk_insert ::
  "int \<Rightarrow> string \<times> 'v :: linorder \<Rightarrow> (string \<times> 'v) list \<Rightarrow> (string \<times> 'v) list"
where
  "topk_insert k kv tmplst =
     (let tmplst = heap_push kv tmplst in if k < int (length tmplst) then tl tmplst else tmplst)"

definition topk_handler ::
  "int \<Rightarrow> (string, 'v :: linorder) dict \<Rightarrow> (string \<times> 'v) list \<Rightarrow> (string \<times> 'v) list"
where
  "topk_handler k d tmplst = fold (topk_insert k) d tmplst"

definition paracel_read_topk ::
  "('v :: linorder, 'w) kvm_ops \<Rightarrow> int \<Rightarrow> ((string \<times> 'v) list, 'v, 'w) ps_op"
where
  "paracel_read_topk K k p w =
     rbind (paracel_readall_handle K (topk_handler k) [] p w) (\<lambda>(tmplst, p, w).
     Inr (rev tmplst, p, w))"

definition paracel_read_topk_with_key_filter ::
  "('v :: linorder, 'w) kvm_ops \<Rightarrow> int \<Rightarrow> string \<Rightarrow> string \<Rightarrow> ((string \<times> 'v) list, 'v, 'w) ps_op"
where
  "paracel_read_topk_with_key_filter K k file_name func_name p w =
     rbind (paracel_read_special_handle K file_name func_name (topk_handler k) [] p w)
       (\<lambda>(tmplst, p, w). Inr (rev tmplst, p, w))"

section \<open>Writing\<close>

definition paracel_write ::
  "('v, 'w) kvm_ops \<Rightarrow> (string \<Rightarrow> u64) \<Rightarrow> string \<Rightarrow> 'v \<Rightarrow> (bool, 'v, 'w) ps_op"
where
  "paracel_write K hf key val p w =
     rbind (ps_route hf key p) (\<lambda>(indx, p).
     let p = (if ssp_switch p then set_cache key val p else p)
     in rbind (m_push K indx key val w) (\<lambda>(b, w). Inr (b, p, w)))"

text \<open>A dictionary is dealt to the servers; a server that gets nothing is not called.\<close>

fun deal_dict ::
  "(string \<Rightarrow> u64) \<Rightarrow> (string, 'v) dict \<Rightarrow> (string, 'v) dict list \<Rightarrow> 'v paralg \<Rightarrow>
   ((string, 'v) dict list \<times> 'v paralg) res"
where
  "deal_dict hf [] dct_lst p = Inr (dct_lst, p)"
| "deal_dict hf ((key, v) # d) dct_lst p =
     rbind (ps_route hf key p) (\<lambda>(j, p).
     rbind (nth_res dct_lst j) (\<lambda>dj. deal_dict hf d (dct_lst[j := dict_set key v dj]) p))"

fun push_dicts ::
  "('v, 'w) kvm_ops \<Rightarrow> nat \<Rightarrow> (string, 'v) dict list \<Rightarrow> bool \<Rightarrow> 'w \<Rightarrow> (bool \<times> 'w) res"
where
  "push_dicts K k [] r w = Inr (r, w)"
| "push_dicts K k (d # dct_lst) r w =
     (if d = [] then push_dicts K (Suc k) dct_lst r w
      else rbind (m_push_multi K k d w) (\<lambda>(b, w). push_dicts K (Suc k) dct_lst (if b then r else False) w))"

definition paracel_write_multi ::
  "('v, 'w) kvm_ops \<Rightarrow> (string \<Rightarrow> u64) \<Rightarrow> (string, 'v) dict \<Rightarrow> (bool, 'v, 'w) ps_op"
where
  "paracel_write_multi K hf dct p w =
     (let p = (if ssp_switch p then fold (\<lambda>(k, v). set_cache k v) dct p else p)
      in rbind (deal_dict hf dct (replicate (srv_sz p) []) p) (\<lambda>(dct_lst, p).
         rbind (push_dicts K 0 dct_lst True w) (\<lambda>(r, w). Inr (r, p, w))))"

section \<open>Updating\<close>

text \<open>The local effect of an update under SSP: the updater applied to the cached value.\<close>

definition update_cached :: "'v vcodec \<Rightarrow> string \<Rightarrow> 'v \<Rightarrow> 'v paralg \<Rightarrow> 'v paralg res" where
  "update_cached V key delta p =
     rbind (get_cache key p) (\<lambda>val.
     let v = pk_pack (venc V) val; d = pk_pack (venc V) delta
     in rbind (call2 (local_update_f p) v d) (\<lambda>nv.
        rbind (pk_unpack (vdec V) nv) (\<lambda>nval. Inr (set_cache key nval p))))"

text \<open>
  Both overloads of \<open>paracel_update\<close>: without a function the default updater is loaded if
  there is none; with one, the local updater is whatever was loaded before.
\<close>

definition paracel_update ::
  "('v, 'w) kvm_ops \<Rightarrow> (string \<Rightarrow> u64) \<Rightarrow> 'v vcodec \<Rightarrow> (string \<Rightarrow> string \<Rightarrow> update_result option) \<Rightarrow>
   string \<Rightarrow> 'v \<Rightarrow> (string \<times> string) option \<Rightarrow> (unit, 'v, 'w) ps_op"
where
  "paracel_update K hf V dl key delta fn p w =
     rbind (if ssp_switch p
            then update_cached V key delta
              (if fn = None \<and> local_update_f p = None
               then load_update_f dl ''../local/build/lib/default.so'' ''default_incr_d'' p else p)
            else Inr p) (\<lambda>p.
     rbind (ps_route hf key p) (\<lambda>(j, p).
     rbind (m_update K j key delta fn w) (\<lambda>(_, w). Inr ((), p, w))))"

definition paracel_bupdate ::
  "('v, 'w) kvm_ops \<Rightarrow> (string \<Rightarrow> u64) \<Rightarrow> string \<Rightarrow> 'v \<Rightarrow> (string \<times> string) option \<Rightarrow>
   (bool, 'v, 'w) ps_op"
where
  "paracel_bupdate K hf key delta fn p w =
     rbind (ps_route hf key p) (\<lambda>(indx, p).
     rbind (m_bupdate K indx key delta fn w) (\<lambda>((new_val, r), w).
     Inr (r, if ssp_switch p then set_cache key new_val p else p, w)))"

fun deal_deltas ::
  "(string \<Rightarrow> u64) \<Rightarrow> string list \<Rightarrow> 'v list \<Rightarrow> (string list \<times> 'v list) list \<Rightarrow> 'v paralg \<Rightarrow>
   ((string list \<times> 'v list) list \<times> 'v paralg) res"
where
  "deal_deltas hf [] deltas kd_lst p = Inr (kd_lst, p)"
| "deal_deltas hf (key # keys) deltas kd_lst p =
     rbind (ps_route hf key p) (\<lambda>(j, p).
     rbind (nth_res kd_lst j) (\<lambda>(ks, ds).
     rbind (nth_res deltas 0) (\<lambda>d.
     deal_deltas hf keys (tl deltas) (kd_lst[j := (ks @ [key], ds @ [d])]) p)))"

text \<open>The answers of one server go to the cache, one per key, under SSP.\<close>

fun cache_answers :: "string list \<Rightarrow> 'v list \<Rightarrow> 'v paralg \<Rightarrow> 'v paralg res" where
  "cache_answers [] tmp p = Inr p"
| "cache_answers (k # ks) [] p = Inl UndefinedRead"
| "cache_answers (k # ks) (v # tmp) p = cache_answers ks tmp (set_cache k v p)"

fun bupdate_lists ::
  "('v, 'w) kvm_ops \<Rightarrow> (string \<times> string) option \<Rightarrow> nat \<Rightarrow> (string list \<times> 'v list) list \<Rightarrow> bool \<Rightarrow>
   (bool, 'v, 'w) ps_op"
where
  "bupdate_lists K fn k [] r p w = Inr (r, p, w)"
| "bupdate_lists K fn k ((ks, ds) # kd_lst) r p w =
     rbind (m_bupdate_multi K k ks ds fn w) (\<lambda>((tmp, rr), w).
     rbind (if ssp_switch p then cache_answers ks tmp p else Inr p) (\<lambda>p.
     bupdate_lists K fn (Suc k) kd_lst (if \<not> rr then False else r) p w))"

definition paracel_bupdate_multi ::
  "('v, 'w) kvm_ops \<Rightarrow> (string \<Rightarrow> u64) \<Rightarrow> string list \<Rightarrow> 'v list \<Rightarrow> string \<Rightarrow> string \<Rightarrow> (bool, 'v, 'w) ps_op"
where
  "paracel_bupdate_multi K hf keys deltas file_name func_name p w =
     rbind (deal_deltas hf keys deltas (replicate (srv_sz p) ([], [])) p) (\<lambda>(kd_lst, p).
     bupdate_lists K (Some (file_name, func_name)) 0 kd_lst True p w)"

fun bupdate_dicts ::
  "('v, 'w) kvm_ops \<Rightarrow> (string \<times> string) option \<Rightarrow> nat \<Rightarrow> (string, 'v) dict list \<Rightarrow> bool \<Rightarrow>
   (bool, 'v, 'w) ps_op"
where
  "bupdate_dicts K fn k [] r p w = Inr (r, p, w)"
| "bupdate_dicts K fn k (d # dct_lst) r p w =
     (if d = [] then bupdate_dicts K fn (Suc k) dct_lst r p w
      else rbind (m_bupdate_multi_dict K k d fn w) (\<lambda>((tmp, rr), w).
           rbind (if ssp_switch p then cache_answers (map fst d) tmp p else Inr p) (\<lambda>p.
           bupdate_dicts K fn (Suc k) dct_lst (if \<not> rr then False else r) p w)))"

definition paracel_bupdate_multi_dict ::
  "('v, 'w) kvm_ops \<Rightarrow> (string \<Rightarrow> u64) \<Rightarrow> (string, 'v) dict \<Rightarrow> string \<Rightarrow> string \<Rightarrow> (bool, 'v, 'w) ps_op"
where
  "paracel_bupdate_multi_dict K hf dct file_name func_name p w =
     rbind (deal_dict hf dct (replicate (srv_sz p) []) p) (\<lambda>(dct_lst, p).
     bupdate_dicts K (Some (file_name, func_name)) 0 dct_lst True p w)"

section \<open>Registering, testing, removing\<close>

text \<open>\<open>r = r && kvm[i].register(...)\<close>: after the first refusal the other servers are not called.\<close>

fun register_all :: "(nat \<Rightarrow> 'w \<Rightarrow> (bool \<times> 'w) res) \<Rightarrow> nat list \<Rightarrow> bool \<Rightarrow> 'w \<Rightarrow> (bool \<times> 'w) res" where
  "register_all reg [] r w = Inr (r, w)"
| "register_all reg (i # is) r w =
     (if r then rbind (reg i w) (\<lambda>(r, w). register_all reg is r w) else register_all reg is r w)"

definition paracel_register_update ::
  "('v, 'w) kvm_ops \<Rightarrow> (string \<Rightarrow> string \<Rightarrow> update_result option) \<Rightarrow> string \<Rightarrow> string \<Rightarrow> (bool, 'v, 'w) ps_op"
where
  "paracel_register_update K dl file_name func_name p w =
     (let p = load_update_f dl file_name func_name p
      in rbind (register_all (\<lambda>i. m_register_update K i file_name func_name) [0..<srv_sz p] True w)
           (\<lambda>(r, w). Inr (r, p, w)))"

definition paracel_register_bupdate ::
  "('v, 'w) kvm_ops \<Rightarrow> string \<Rightarrow> string \<Rightarrow> (bool, 'v, 'w) ps_op"
where
  "paracel_register_bupdate K file_name func_name p w =
     rbind (register_all (\<lambda>i. m_register_bupdate K i file_name func_name) [0..<srv_sz p] True w)
       (\<lambda>(r, w). Inr (r, p, w))"

definition paracel_register_read_special ::
  "('v, 'w) kvm_ops \<Rightarrow> string \<Rightarrow> string \<Rightarrow> (bool, 'v, 'w) ps_op"
where
  "paracel_register_read_special K file_name func_name p w =
     rbind (register_all (\<lambda>i. m_register_pullall_special K i file_name func_name) [0..<srv_sz p] True w)
       (\<lambda>(r, w). Inr (r, p, w))"

definition paracel_register_remove_special ::
  "('v, 'w) kvm_ops \<Rightarrow> string \<Rightarrow> string \<Rightarrow> (bool, 'v, 'w) ps_op"
where
  "paracel_register_remove_special K file_name func_name p w =
     rbind (register_all (\<lambda>i. m_register_remove_special K i file_name func_name) [0..<srv_sz p] True w)
       (\<lambda>(r, w). Inr (r, p, w))"

definition paracel_contains ::
  "('v, 'w) kvm_ops \<Rightarrow> (string \<Rightarrow> u64) \<Rightarrow> string \<Rightarrow> (bool, 'v, 'w) ps_op"
where
  "paracel_contains K hf key p w =
     rbind (ps_route hf key p) (\<lambda>(indx, p).
     rbind (m_contains K indx key w) (\<lambda>(b, w). Inr (b, p, w)))"

definition paracel_remove ::
  "('v, 'w) kvm_ops \<Rightarrow> (string \<Rightarrow> u64) \<Rightarrow> string \<Rightarrow> (bool, 'v, 'w) ps_op"
where
  "paracel_remove K hf key p w =
     rbind (ps_route hf key p) (\<lambda>(indx, p).
     rbind (m_remove K indx key w) (\<lambda>(b, w). Inr (b, p, w)))"

text \<open>Declared to do, it does nothing and answers true.\<close>

definition paracel_remove_multi :: "string list \<Rightarrow> (bool, 'v, 'w) ps_op" where
  "paracel_remove_multi key_lst p w = Inr (True, p, w)"

section \<open>Lemmas: routing\<close>

text \<open>Every key is routed to one of the first \<open>n\<close> servers, and routing leaves the ring alone.\<close>

definition routes :: "(string \<Rightarrow> u64) \<Rightarrow> nat \<Rightarrow> 'v paralg \<Rightarrow> bool" where
  "routes hf n p \<longleftrightarrow> srv_sz p = n \<and>
     (\<forall>key. \<exists>j < n. get_server hf 0 key (p_ring p) = Inr (j, p_ring p))"

definition server_of :: "(string \<Rightarrow> u64) \<Rightarrow> 'v paralg \<Rightarrow> string \<Rightarrow> nat" where
  "server_of hf p key =
     (case get_server hf 0 key (p_ring p) of Inr (j, _) \<Rightarrow> j | Inl _ \<Rightarrow> 0)"

lemma routes_new_paralg:
  assumes "0 < n"
  shows "routes hf n (new_paralg hfunc n rank sz rounds lim ssp)"
  unfolding routes_def
proof (intro conjI allI)
  fix key
  let ?r = "new_ring hfunc to_string ring_replicas [0..<n]"
  have "srv_hashring ?r \<noteq> []"
    by (rule new_ring_nonempty) (use assms in \<open>simp_all add: ring_replicas_def\<close>)
  from get_server_token [OF ring_inv_new_ring this, of hf key 0] obtain j where
    "dict_get (srv_hashring_dct ?r) (succ_token (set (srv_hashring ?r)) (hf key)) = Some j"
    "get_server hf 0 key ?r = Inr (j, ?r)" by blast
  then show "\<exists>j<n. get_server hf 0 key (p_ring (new_paralg hfunc n rank sz rounds lim ssp)) =
      Inr (j, p_ring (new_paralg hfunc n rank sz rounds lim ssp))"
    using new_ring_owner by (fastforce simp: new_paralg_def)
qed (simp add: new_paralg_def)

lemma routes_server: "routes hf n p \<Longrightarrow> server_of hf p key < n"
  unfolding routes_def server_of_def by (metis (no_types, lifting) case_prod_conv sum.case(2))

lemma ps_route_ok: "routes hf n p \<Longrightarrow> ps_route hf key p = Inr (server_of hf p key, p)"
  by (auto simp: routes_def server_of_def ps_route_def dest: spec [of _ key])

lemma routes_cong [simp]:
  "routes hf n (set_cache k v p) = routes hf n p"
  "routes hf n (p\<lparr>stale_cache := c\<rparr>) = routes hf n p"
  "server_of hf (set_cache k v p) = server_of hf p"
  "server_of hf (p\<lparr>stale_cache := c\<rparr>) = server_of hf p"
  by (auto simp: routes_def server_of_def set_cache_def fun_eq_iff)

lemma get_cache_set [simp]:
  "get_cache k (set_cache k' v p) = (if k = k' then Inr v else get_cache k p)"
  by (simp add: get_cache_def set_cache_def)

text \<open>Dealing keys out: each server gets its keys in order, each key the index of its last
  occurrence.\<close>

fun last_pos :: "'a \<Rightarrow> 'a list \<Rightarrow> nat option" where
  "last_pos k [] = None"
| "last_pos k (x # xs) =
     (case last_pos k xs of Some i \<Rightarrow> Some (Suc i) | None \<Rightarrow> if x = k then Some 0 else None)"

lemma last_pos_None: "last_pos k xs = None \<longleftrightarrow> k \<notin> set xs"
  by (induction xs) (auto split: option.splits)

lemma last_pos_Some:
  "last_pos k xs = Some i \<longleftrightarrow> i < length xs \<and> xs ! i = k \<and> k \<notin> set (drop (Suc i) xs)"
proof (induction xs arbitrary: i)
  case (Cons x xs)
  show ?case
  proof (cases i)
    case 0
    have "last_pos k (x # xs) = Some 0 \<longleftrightarrow> last_pos k xs = None \<and> x = k"
      by (cases "last_pos k xs") simp_all
    then show ?thesis by (simp only: 0 last_pos_None) auto
  next
    case (Suc m)
    have "last_pos k (x # xs) = Some (Suc m) \<longleftrightarrow> last_pos k xs = Some m"
      by (cases "last_pos k xs") simp_all
    then show ?thesis by (simp only: Suc Cons.IH) simp
  qed
qed simp

lemma deal_keys_ok:
  "routes hf n p \<Longrightarrow> length ls = n \<Longrightarrow>
   \<exists>L I. deal_keys hf keys k ls idx p = Inr (L, I, p) \<and> length L = n \<and>
     (\<forall>j < n. L ! j = ls ! j @ filter (\<lambda>key. server_of hf p key = j) keys) \<and>
     (\<forall>key. dict_get I key =
        (case last_pos key keys of Some i \<Rightarrow> Some (k + i) | None \<Rightarrow> dict_get idx key))"
proof (induction keys arbitrary: k ls idx)
  case (Cons key keys)
  let ?j = "server_of hf p key"
  have j: "?j < length ls" using Cons.prems routes_server by metis
  obtain L I where LI: "deal_keys hf keys (Suc k) (ls[?j := ls ! ?j @ [key]]) (dict_set key k idx) p
      = Inr (L, I, p)" "length L = n"
    "\<forall>j < n. L ! j = ls[?j := ls ! ?j @ [key]] ! j @ filter (\<lambda>key. server_of hf p key = j) keys"
    "\<forall>key'. dict_get I key' = (case last_pos key' keys of Some i \<Rightarrow> Some (Suc k + i)
       | None \<Rightarrow> dict_get (dict_set key k idx) key')"
    using Cons.IH [of "ls[?j := ls ! ?j @ [key]]" "Suc k" "dict_set key k idx"] Cons.prems by auto
  have run: "deal_keys hf (key # keys) k ls idx p = Inr (L, I, p)"
    using j LI(1) by (simp add: ps_route_ok [OF Cons.prems(1)] nth_res_def)
  moreover have "\<forall>j' < n. L ! j' = ls ! j' @ filter (\<lambda>key. server_of hf p key = j') (key # keys)"
    using LI(3) j by (simp add: nth_list_update)
  moreover have "dict_get I key' = (case last_pos key' (key # keys) of Some i \<Rightarrow> Some (k + i)
      | None \<Rightarrow> dict_get idx key')" for key'
    using LI(4) by (cases "last_pos key' keys") auto
  ultimately show ?case using LI(2) by blast
qed simp

text \<open>Writing the answers at their indices.\<close>

definition place :: "('k \<Rightarrow> nat) \<Rightarrow> ('k \<Rightarrow> 'v) \<Rightarrow> 'k list \<Rightarrow> 'v list \<Rightarrow> 'v list" where
  "place pos f ks vals = fold (\<lambda>k vs. vs[pos k := f k]) ks vals"

lemma place_append: "place pos f (ks @ ks') vals = place pos f ks' (place pos f ks vals)"
  by (simp add: place_def)

lemma length_place [simp]: "length (place pos f ks vals) = length vals"
  by (induction ks arbitrary: vals) (auto simp: place_def)

lemma place_nth:
  "i < length vals \<Longrightarrow> \<forall>k \<in> set ks. pos k = i \<longrightarrow> k = x \<Longrightarrow>
     place pos f ks vals ! i = (if x \<in> set ks \<and> pos x = i then f x else vals ! i)"
proof (induction ks arbitrary: vals)
  case (Cons k ks)
  have "place pos f ks (vals[pos k := f k]) ! i =
      (if x \<in> set ks \<and> pos x = i then f x else vals[pos k := f k] ! i)"
    using Cons.prems by (intro Cons.IH) auto
  moreover have "pos k = i \<Longrightarrow> k = x" using Cons.prems(2) by simp
  ultimately show ?case
    using Cons.prems(1) by (cases "pos k = i") (auto simp: place_def)
qed (simp add: place_def)

lemma scatter_place:
  "\<forall>k \<in> set ks. dict_get I k = Some (pos k) \<and> pos k < length vals \<Longrightarrow>
     scatter I ks (map f ks) vals = Inr (place pos f ks vals)"
  by (induction ks arbitrary: vals) (auto simp: place_def)

section \<open>Lemmas: the servers as one map\<close>

text \<open>What the servers store together: each key at the server it is routed to.\<close>

definition global_view ::
  "('w \<Rightarrow> nat \<Rightarrow> string \<Rightarrow> string option) \<Rightarrow> (string \<Rightarrow> nat) \<Rightarrow> 'w \<Rightarrow> string \<Rightarrow> string option"
where
  "global_view view srv w key = view w (srv key) key"

context kv_service
begin

lemma write_refines:
  assumes "inv w" "routes hf n p" "key_ok k" "val_ok v"
  shows "\<exists>p' w'. paracel_write K hf k v p w = Inr (True, p', w') \<and> inv w' \<and> routes hf n p' \<and>
    server_of hf p' = server_of hf p \<and>
    global_view view (server_of hf p) w' = (global_view view (server_of hf p) w)(k \<mapsto> encv v)"
proof -
  obtain w' where "m_push K (server_of hf p k) k v w = Inr (True, w')" "inv w'"
    "view w' = (view w)(server_of hf p k := (view w (server_of hf p k))(k \<mapsto> encv v))"
    using push [OF assms(1) routes_server [OF assms(2)] assms(3,4)] by blast
  then show ?thesis
    using assms(2)
    by (auto simp: paracel_write_def ps_route_ok [OF assms(2)] global_view_def fun_eq_iff Let_def)
qed

lemma contains_refines:
  assumes "inv w" "routes hf n p" "key_ok k"
  shows "\<exists>w'. paracel_contains K hf k p w =
      Inr (global_view view (server_of hf p) w k \<noteq> None, p, w') \<and> inv w' \<and>
    global_view view (server_of hf p) w' = global_view view (server_of hf p) w"
  using contains [OF assms(1) routes_server [OF assms(2), of k] assms(3)]
  by (auto simp: paracel_contains_def ps_route_ok [OF assms(2)] global_view_def fun_eq_iff)

lemma remove_refines:
  assumes "inv w" "routes hf n p" "key_ok k"
  shows "\<exists>w'. paracel_remove K hf k p w =
      Inr (global_view view (server_of hf p) w k \<noteq> None, p, w') \<and> inv w' \<and>
    global_view view (server_of hf p) w' = (global_view view (server_of hf p) w)(k := None)"
  using remove [OF assms(1) routes_server [OF assms(2), of k] assms(3)]
  by (auto simp: paracel_remove_def ps_route_ok [OF assms(2)] global_view_def fun_eq_iff)

lemma read_refines:
  assumes "inv w" "routes hf n p" "key_ok k" "val_ok v"
    and "global_view view (server_of hf p) w k = Some (encv v)" "\<not> ssp_switch p"
  shows "\<exists>w'. paracel_read K hf fuel k p w = Inr (v, p, w') \<and> inv w' \<and>
    global_view view (server_of hf p) w' = global_view view (server_of hf p) w"
  using pull [OF assms(1) routes_server [OF assms(2), of k] assms(3,4)] assms(5,6)
  by (auto simp: paracel_read_def ps_route_ok [OF assms(2)] global_view_def fun_eq_iff)

lemma pull_lists_ok:
  "inv w \<Longrightarrow> k + length L \<le> n \<Longrightarrow> \<forall>ks \<in> set L. keys_ok ks \<and> vals_ok (map f ks) \<Longrightarrow>
   \<forall>j < length L. \<forall>key \<in> set (L ! j). view w (k + j) key = Some (encv (f key)) \<Longrightarrow>
   \<forall>key \<in> set (concat L). dict_get I key = Some (pos key) \<and> pos key < length vals \<Longrightarrow>
   \<exists>w'. pull_lists K I k L vals w = Inr (place pos f (concat L) vals, w') \<and> inv w' \<and> view w' = view w"
proof (induction L arbitrary: k vals w)
  case Nil
  then show ?case by (simp add: place_def)
next
  case (Cons ks L)
  have "\<forall>key \<in> set ks. view w k key = Some (encv (f key))"
    using Cons.prems(4) by (auto dest: spec [of _ 0])
  then obtain w' where w': "m_pull_multi K k ks w = Inr (map f ks, w')" "inv w'" "view w' = view w"
    using pull_multi [OF Cons.prems(1), of k ks f] Cons.prems(2,3) by auto
  have sc: "scatter I ks (map f ks) vals = Inr (place pos f ks vals)"
    using Cons.prems(5) by (intro scatter_place) auto
  have "\<forall>j < length L. \<forall>key \<in> set (L ! j). view w' (Suc k + j) key = Some (encv (f key))"
    using Cons.prems(4) w'(3) by (auto dest: spec [of _ "Suc _"])
  then have "\<exists>w''. pull_lists K I (Suc k) L (place pos f ks vals) w' =
      Inr (place pos f (concat L) (place pos f ks vals), w'') \<and> inv w'' \<and> view w'' = view w'"
    using Cons.prems w' by (intro Cons.IH) auto
  then show ?case using w' sc by (auto simp: place_append)
qed

lemma read_multi_refines:
  assumes "inv w" "routes hf n p" "\<not> ssp_switch p"
    and "\<forall>j < n. keys_ok (filter (\<lambda>k. server_of hf p k = j) keys) \<and>
      vals_ok (map f (filter (\<lambda>k. server_of hf p k = j) keys))"
    and "\<forall>k \<in> set keys. global_view view (server_of hf p) w k = Some (encv (f k))"
  shows "\<exists>w'. paracel_read_multi K hf fuel dflt keys p w =
      Inr (map (\<lambda>i. if keys ! i \<in> set (drop (Suc i) keys) then dflt else f (keys ! i))
        [0..<length keys], p, w') \<and> inv w' \<and> view w' = view w"
proof -
  have n: "srv_sz p = n" using assms(2) by (simp add: routes_def)
  have "length (replicate n []) = n" by simp
  from deal_keys_ok [OF assms(2) this, of keys 0 "[]"]
  obtain L I where LI: "deal_keys hf keys 0 (replicate n []) [] p = Inr (L, I, p)" "length L = n"
    "\<forall>j < n. L ! j = replicate n [] ! j @ filter (\<lambda>k. server_of hf p k = j) keys"
    "\<forall>k. dict_get I k = (case last_pos k keys of Some i \<Rightarrow> Some (0 + i) | None \<Rightarrow> dict_get [] k)"
    by blast
  have Lj: "L ! j = filter (\<lambda>k. server_of hf p k = j) keys" if "j < n" for j
    using that LI(3) by simp
  have I: "dict_get I k = last_pos k keys" for k
    using LI(4) by (cases "last_pos k keys") simp_all
  define pos where "pos k = the (last_pos k keys)" for k
  have pos: "last_pos k keys = Some (pos k)" "pos k < length keys" "keys ! pos k = k"
    if "k \<in> set keys" for k
  proof -
    have "last_pos k keys \<noteq> None" using that by (simp add: last_pos_None)
    then obtain i where i: "last_pos k keys = Some i" by blast
    then have "pos k = i" by (simp add: pos_def)
    with i last_pos_Some [of k keys i]
    show "last_pos k keys = Some (pos k)" "pos k < length keys" "keys ! pos k = k" by simp_all
  qed
  have L: "set (concat L) = set keys"
  proof (rule set_eqI)
    fix k
    have "k \<in> set (concat L) \<longleftrightarrow> (\<exists>j < n. k \<in> set (L ! j))"
      using LI(2) nth_mem [of _ L] by (fastforce simp: in_set_conv_nth [of _ L])
    also have "\<dots> \<longleftrightarrow> k \<in> set keys" using Lj routes_server [OF assms(2), of k] by auto
    finally show "k \<in> set (concat L) \<longleftrightarrow> k \<in> set keys" .
  qed
  let ?vals = "replicate (length keys) dflt"
  obtain w' where w': "pull_lists K I 0 L ?vals w = Inr (place pos f (concat L) ?vals, w')"
    "inv w'" "view w' = view w"
  proof -
    have "\<forall>ks \<in> set L. keys_ok ks \<and> vals_ok (map f ks)"
    proof
      fix ks assume "ks \<in> set L"
      then obtain j where "j < n" "ks = filter (\<lambda>k. server_of hf p k = j) keys"
        using LI(2) Lj by (auto simp: in_set_conv_nth [of _ L])
      then show "keys_ok ks \<and> vals_ok (map f ks)" using assms(4) by simp
    qed
    moreover have "\<forall>j < length L. \<forall>k \<in> set (L ! j). view w (0 + j) k = Some (encv (f k))"
      using LI(2) Lj assms(5) by (auto simp: global_view_def)
    moreover have "\<forall>k \<in> set (concat L). dict_get I k = Some (pos k) \<and> pos k < length ?vals"
      unfolding L using I pos by simp
    ultimately have "\<exists>w'. pull_lists K I 0 L ?vals w = Inr (place pos f (concat L) ?vals, w') \<and> inv w' \<and> view w' = view w"
      using LI(2) by (intro pull_lists_ok [OF assms(1)]) simp_all
    then show ?thesis using that by blast
  qed
  have "place pos f (concat L) ?vals =
      map (\<lambda>i. if keys ! i \<in> set (drop (Suc i) keys) then dflt else f (keys ! i)) [0..<length keys]"
  proof (rule nth_equalityI)
    fix i assume "i < length (place pos f (concat L) ?vals)"
    then have i: "i < length keys" by simp
    have "\<forall>k \<in> set (concat L). pos k = i \<longrightarrow> k = keys ! i"
      unfolding L
    proof (intro ballI impI)
      fix k assume "k \<in> set keys" "pos k = i"
      with pos(3) [of k] show "k = keys ! i" by simp
    qed
    from place_nth [OF _ this, of ?vals f] i
    have "place pos f (concat L) ?vals ! i = (if pos (keys ! i) = i then f (keys ! i) else dflt)"
      unfolding L by simp
    moreover have "pos (keys ! i) = i \<longleftrightarrow> keys ! i \<notin> set (drop (Suc i) keys)"
      using last_pos_Some [of "keys ! i" keys i] pos(1) [of "keys ! i"] i by simp
    ultimately show "place pos f (concat L) ?vals ! i =
        map (\<lambda>i. if keys ! i \<in> set (drop (Suc i) keys) then dflt else f (keys ! i)) [0..<length keys] ! i"
      using i by simp
  qed simp
  then show ?thesis
    using LI(1) w' assms(3) n by (simp add: paracel_read_multi_def Let_def)
qed

end

text \<open>An update changes its key in the union of the servers' tables, and nothing else.\<close>

context kv_adds
begin

lemma bupdate_refines:
  assumes "inv w" "routes hf n p" "key_ok k" "val_ok x" "\<not> ssp_switch p"
    and "global_view view (server_of hf p) w k = map_option encv y"
    and "\<And>v. y = Some v \<Longrightarrow> val_ok v" "\<And>v. y = Some v \<Longrightarrow> val_ok (comb v x)"
  shows "\<exists>w'. paracel_bupdate K hf k x fn p w = Inr (True, p, w') \<and> inv w' \<and>
    view w' = (view w)(server_of hf p k := (view w (server_of hf p k))
      (k \<mapsto> encv (case y of None \<Rightarrow> x | Some v \<Rightarrow> comb v x)))"
proof -
  have j: "server_of hf p k < n" by (rule routes_server [OF assms(2)])
  have "\<exists>z w'. m_bupdate K (server_of hf p k) k x fn w = Inr ((z, True), w') \<and> inv w' \<and>
      view w' = (view w)(server_of hf p k := (view w (server_of hf p k))
        (k \<mapsto> encv (case y of None \<Rightarrow> x | Some v \<Rightarrow> comb v x)))"
  proof (cases y)
    case None
    then show ?thesis using bupdate_new [OF assms(1) j assms(3,4)] assms(6) by (auto simp: global_view_def)
  next
    case (Some v)
    then show ?thesis
      using bupdate_old [OF assms(1) j assms(3,4), of v] assms(4,6-8) by (auto simp: global_view_def)
  qed
  then show ?thesis
    using assms(5) by (auto simp: paracel_bupdate_def ps_route_ok [OF assms(2)])
qed

lemma bupdate_global:
  assumes "inv w" "routes hf n p" "key_ok k" "val_ok x" "\<not> ssp_switch p"
    and "global_view view (server_of hf p) w k = map_option encv y"
    and "\<And>v. y = Some v \<Longrightarrow> val_ok v" "\<And>v. y = Some v \<Longrightarrow> val_ok (comb v x)"
  shows "\<exists>w'. paracel_bupdate K hf k x fn p w = Inr (True, p, w') \<and> inv w' \<and>
    global_view view (server_of hf p) w' =
      (global_view view (server_of hf p) w)(k \<mapsto> encv (case y of None \<Rightarrow> x | Some v \<Rightarrow> comb v x))"
  using bupdate_refines [OF assms] by (auto simp: global_view_def fun_eq_iff)

end

end
