(* ===== verification/Loader.thy ===== *)
theory Loader
  imports Slots Dispatch Graph Ps
begin

text \<open>
  \<open>include/load/loader.hpp\<close> and the load interface of \<open>include/ps.hpp\<close>: from the names of
  files to matrices and graphs, distributed over the ranks.

  The collective operations take the lines of all ranks, \<open>linelsts\<close>, and the rank \<open>rk\<close> whose
  result they give; a fault on any rank is a fault of the whole, since the others would wait for
  it. Eigen is a library: a sparse matrix is what the argument \<open>mk\<close> makes of its size and its
  triplets. A loader starts from the list of file names that \<open>expand\<close> (in \<open>Expand\<close>) returns.
\<close>

section \<open>The loader\<close>

record loader =
  l_names :: "string list"
  l_size :: nat
  l_parser :: "string \<Rightarrow> string list res"
  l_pattern :: string
  l_mix :: bool

definition loader_partition :: "files \<Rightarrow> loader \<Rightarrow> partition res" where
  "loader_partition fs ld =
     files_partition fs (int BLK_SZ) (new_partition (l_names ld) (int (l_size ld)) (l_pattern ld))"

text \<open>\<open>load\<close>: the states the dynamic distribution of the blocks may reach; the leader is rank 0.\<close>

definition loader_load :: "files \<Rightarrow> loader \<Rightarrow> string dispatch \<Rightarrow> bool" where
  "loader_load fs ld d =
     (case loader_partition fs ld of
        Inl _ \<Rightarrow> False
      | Inr P \<Rightarrow> dreach (load_block fs P) (l_size ld) (blk_sz_of (l_pattern ld)) 0 d)"

definition fixload :: "files \<Rightarrow> loader \<Rightarrow> nat \<Rightarrow> string list res" where
  "fixload fs ld rk = rbind (loader_partition fs ld) (\<lambda>P. structure_load fs P (l_pattern ld) rk)"

definition fixload_handle :: "files \<Rightarrow> loader \<Rightarrow> nat \<Rightarrow> (string \<Rightarrow> 's \<Rightarrow> 's) \<Rightarrow> 's \<Rightarrow> 's res" where
  "fixload_handle fs ld rk func s =
     rbind (loader_partition fs ld) (\<lambda>P. structure_load_handle fs P (l_pattern ld) rk func s)"

text \<open>
  What the matrices and the graphs share: \<open>lines_organize\<close> on every rank, then \<open>exchange\<close>. It
  gives the grid and the triples every rank has then.
\<close>

definition exchanged_u64 ::
  "'d dbl \<Rightarrow> 'd \<Rightarrow> (string \<Rightarrow> string \<Rightarrow> string list) \<Rightarrow> 'd compact_triple \<Rightarrow> (u64 \<Rightarrow> u64) \<Rightarrow> loader \<Rightarrow>
     string list list \<Rightarrow> ((nat \<times> nat) \<times> 'd compact_triple list list) res"
where
  "exchanged_u64 D one rx dflt hf ld linelsts =
     rbind (dim_init (l_pattern ld) (l_size ld)) (\<lambda>grid.
     rbind (rmapM (lines_organize_u64 D one hf (l_mix ld) grid (l_size ld) (l_parser ld)) linelsts) (\<lambda>result.
     rbind (rmapM (exchange_u64 D rx dflt result) [0..<l_size ld]) (\<lambda>stfs. Inr (grid, stfs))))"

definition exchanged_str ::
  "'d dbl \<Rightarrow> 'd \<Rightarrow> (string \<Rightarrow> string \<Rightarrow> string list) \<Rightarrow> 'd triple \<Rightarrow> (string \<Rightarrow> u64) \<Rightarrow> loader \<Rightarrow>
     string list list \<Rightarrow> ((nat \<times> nat) \<times> 'd triple list list) res"
where
  "exchanged_str D one rx dflt hf ld linelsts =
     rbind (dim_init (l_pattern ld) (l_size ld)) (\<lambda>grid.
     rbind (rmapM (lines_organize_str D one hf (l_mix ld) grid (l_size ld) (l_parser ld)) linelsts) (\<lambda>result.
     rbind (rmapM (exchange_str D rx dflt result) [0..<l_size ld]) (\<lambda>stfs. Inr (grid, stfs))))"

section \<open>create_matrix\<close>

text \<open>The indices of a triplet are \<open>int\<close>s.\<close>

definition eigen_triple :: "'d compact_triple \<Rightarrow> int \<times> int \<times> 'd" where
  "eigen_triple = (\<lambda>(i, j, x). (to_int32 i, to_int32 j, x))"

definition create_matrix_u64 ::
  "'d dbl \<Rightarrow> 'd \<Rightarrow> (string \<Rightarrow> string \<Rightarrow> string list) \<Rightarrow> 'd compact_triple \<Rightarrow> (u64 \<Rightarrow> u64) \<Rightarrow>
     (nat \<Rightarrow> nat \<Rightarrow> (int \<times> int \<times> 'd) list \<Rightarrow> 'm) \<Rightarrow> loader \<Rightarrow> string list list \<Rightarrow> nat \<Rightarrow>
     (u64, u64) dict \<Rightarrow> (u64, u64) dict \<Rightarrow> ('m \<times> (u64, u64) dict \<times> (u64, u64) dict) res"
where
  "create_matrix_u64 D one rx dflt hf mk ld linelsts rk rm cm =
     rbind (exchanged_u64 D one rx dflt hf ld linelsts) (\<lambda>(grid, stfs).
     rbind (index_mapping_u64 (snd grid) stfs rk rm cm) (\<lambda>(stf_new, rm, cm).
     Inr (mk (length rm) (length cm) (map eigen_triple stf_new), rm, cm)))"

definition create_matrix_str ::
  "'d dbl \<Rightarrow> 'd \<Rightarrow> (string \<Rightarrow> string \<Rightarrow> string list) \<Rightarrow> 'd triple \<Rightarrow> (string \<Rightarrow> u64) \<Rightarrow>
     (nat \<Rightarrow> nat \<Rightarrow> (int \<times> int \<times> 'd) list \<Rightarrow> 'm) \<Rightarrow> loader \<Rightarrow> string list list \<Rightarrow> nat \<Rightarrow>
     (u64, string) dict \<Rightarrow> (u64, string) dict \<Rightarrow> ('m \<times> (u64, string) dict \<times> (u64, string) dict) res"
where
  "create_matrix_str D one rx dflt hf mk ld linelsts rk rm cm =
     rbind (exchanged_str D one rx dflt hf ld linelsts) (\<lambda>(grid, stfs).
     rbind (index_mapping_str rx (snd grid) stfs rk rm cm) (\<lambda>(stf_new, rm, cm).
     Inr (mk (length rm) (length cm) (map eigen_triple stf_new), rm, cm)))"

text \<open>
  The dense matrix: the width is that of the first line, or, in the overload for string
  identifiers, whose \<open>flag\<close> is never cleared (\<open>nf\<close>), of every line anew. \<open>stf.size() - 1\<close> is
  an unsigned subtraction, converted to \<open>int\<close>. Assigning a vector of another length to a row
  fails an assertion of Eigen.
\<close>

definition dense_line ::
  "'d dbl \<Rightarrow> (string \<Rightarrow> 'i res) \<Rightarrow> bool \<Rightarrow> (string \<Rightarrow> string list res) \<Rightarrow> string \<Rightarrow>
     int \<times> bool \<times> u64 \<times> (u64, 'i) dict \<times> 'd list list \<Rightarrow>
     (int \<times> bool \<times> u64 \<times> (u64, 'i) dict \<times> 'd list list) res"
where
  "dense_line D cvt nf parser line = (\<lambda>(csz, flag, indx, rm, mtx_llst).
     rbind (parser line) (\<lambda>stf.
     let (csz, flag) = (if flag then (int (length stf) - 1, nf) else (csz, flag))
     in rbind (nth_res stf 0) (\<lambda>a. rbind (cvt a) (\<lambda>id.
        rbind (rmapM (\<lambda>i. rbind (nth_res stf (i + 1)) (stod D)) [0..<nat csz]) (\<lambda>tmp.
        Inr (csz, flag, indx + 1, dict_set indx id rm, mtx_llst @ [tmp]))))))"

definition dense_rows :: "nat \<Rightarrow> int \<Rightarrow> 'd list list \<Rightarrow> 'd list list res" where
  "dense_rows n csz mtx_llst =
     rmapM (\<lambda>i. rbind (nth_res mtx_llst i) (\<lambda>v.
       if int (length v) = csz then Inr v else Inl AssertFailed)) [0..<n]"

definition create_dense_u64 ::
  "'d dbl \<Rightarrow> loader \<Rightarrow> string list \<Rightarrow> (u64, u64) dict \<Rightarrow> ('d list list \<times> (u64, u64) dict) res"
where
  "create_dense_u64 D ld linelst rm =
     rbind (rfold (dense_line D stoull False (l_parser ld)) linelst (0, True, 0, rm, [])) (\<lambda>(csz, _, _, rm, mtx).
     rbind (dense_rows (length rm) csz mtx) (\<lambda>rows. Inr (rows, rm)))"

definition create_dense_str ::
  "'d dbl \<Rightarrow> loader \<Rightarrow> string list \<Rightarrow> (u64, string) dict \<Rightarrow> ('d list list \<times> (u64, string) dict) res"
where
  "create_dense_str D ld linelst rm =
     rbind (rfold (dense_line D Inr True (l_parser ld)) linelst (0, True, 0, rm, [])) (\<lambda>(csz, _, _, rm, mtx).
     rbind (dense_rows (length rm) csz mtx) (\<lambda>rows. Inr (rows, rm)))"

section \<open>create_graph\<close>

definition create_digraph_u64 ::
  "'d dbl \<Rightarrow> 'd \<Rightarrow> (string \<Rightarrow> string \<Rightarrow> string list) \<Rightarrow> 'd compact_triple \<Rightarrow> (u64 \<Rightarrow> u64) \<Rightarrow> loader \<Rightarrow>
     string list list \<Rightarrow> nat \<Rightarrow> (u64, 'd) digraph \<Rightarrow> (u64, 'd) digraph res"
where
  "create_digraph_u64 D one rx dflt hf ld linelsts rk grp =
     rbind (exchanged_u64 D one rx dflt hf ld linelsts) (\<lambda>(grid, stfs).
     Inr (fold (\<lambda>(v, w, x). dg_add_edge v w x) (stfs ! rk) grp))"

text \<open>Over strings the edges go through a dictionary, so the last weight of an edge counts once.\<close>

definition dict_of_triples :: "'d triple list \<Rightarrow> (string, 'd) adjacency" where
  "dict_of_triples stf = fold (\<lambda>(v, w, x). adj_put v w x) stf []"

definition create_digraph_str ::
  "'d dbl \<Rightarrow> 'd \<Rightarrow> (string \<Rightarrow> string \<Rightarrow> string list) \<Rightarrow> 'd triple \<Rightarrow> (string \<Rightarrow> u64) \<Rightarrow> loader \<Rightarrow>
     string list list \<Rightarrow> nat \<Rightarrow> (string, 'd) digraph \<Rightarrow> (string, 'd) digraph res"
where
  "create_digraph_str D one rx dflt hf ld linelsts rk grp =
     rbind (exchanged_str D one rx dflt hf ld linelsts) (\<lambda>(grid, stfs).
     Inr (adj_traverse dg_add_edge (dict_of_triples (stfs ! rk)) grp))"

definition create_bigraph_u64 ::
  "'d dbl \<Rightarrow> 'd \<Rightarrow> (string \<Rightarrow> string \<Rightarrow> string list) \<Rightarrow> 'd compact_triple \<Rightarrow> (u64 \<Rightarrow> u64) \<Rightarrow> loader \<Rightarrow>
     string list list \<Rightarrow> nat \<Rightarrow> (u64, 'd) graph \<Rightarrow> (u64, 'd) graph res"
where
  "create_bigraph_u64 D one rx dflt hf ld linelsts rk grp =
     rbind (exchanged_u64 D one rx dflt hf ld linelsts) (\<lambda>(grid, stfs).
     Inr (fold (\<lambda>(v, w, x). bg_add_edge v w x) (stfs ! rk) grp))"

definition create_bigraph_str ::
  "'d dbl \<Rightarrow> 'd \<Rightarrow> (string \<Rightarrow> string \<Rightarrow> string list) \<Rightarrow> 'd triple \<Rightarrow> (string \<Rightarrow> u64) \<Rightarrow> loader \<Rightarrow>
     string list list \<Rightarrow> nat \<Rightarrow> (string, 'd) graph \<Rightarrow> (string, 'd) graph res"
where
  "create_bigraph_str D one rx dflt hf ld linelsts rk grp =
     rbind (exchanged_str D one rx dflt hf ld linelsts) (\<lambda>(grid, stfs).
     Inr (adj_traverse bg_add_edge (dict_of_triples (stfs ! rk)) grp))"

definition create_cgraph ::
  "'d dbl \<Rightarrow> 'd \<Rightarrow> (string \<Rightarrow> string \<Rightarrow> string list) \<Rightarrow> 'd compact_triple \<Rightarrow> (u64 \<Rightarrow> u64) \<Rightarrow> loader \<Rightarrow>
     string list list \<Rightarrow> nat \<Rightarrow> 'd cgraph \<Rightarrow> (u64, u64) dict \<Rightarrow> (u64, u64) dict \<Rightarrow>
     ('d cgraph \<times> (u64, u64) dict \<times> (u64, u64) dict) res"
where
  "create_cgraph D one rx dflt hf ld linelsts rk grp rm cm =
     rbind (exchanged_u64 D one rx dflt hf ld linelsts) (\<lambda>(grid, stfs).
     rbind (index_mapping_u64 (snd grid) stfs rk rm cm) (\<lambda>(stf_new, rm, cm).
     Inr (fold (\<lambda>(v, w, x). cg_add_edge (unat v) (unat w) x) stf_new grp, rm, cm)))"

text \<open>
  The constructor of \<open>bigraph_continuous\<close> that reads a file: the number of vertices, then an
  edge per line. A negative number is converted to a huge one, which \<open>resize\<close> rejects.
\<close>

definition size_of_int :: "int \<Rightarrow> nat res" where
  "size_of_int n = (if n < 0 then Inl RuntimeError else Inr (nat n))"

definition cg_of_file :: "'d dbl \<Rightarrow> string option \<Rightarrow> 'd cgraph res" where
  "cg_of_file D f =
     (case f of
        None \<Rightarrow> Inl RuntimeError
      | Some text \<Rightarrow>
          let (line, rest) = getline text
          in rbind (stoi line) (\<lambda>n. rbind (size_of_int n) (\<lambda>n.
             rfold (\<lambda>line g.
                 let lst = str_split line CHR '',''
                 in rbind (nth_res lst 0) (\<lambda>a. rbind (stoi a) (\<lambda>v. rbind (size_of_int v) (\<lambda>v.
                    rbind (nth_res lst 1) (\<lambda>b. rbind (stoi b) (\<lambda>w. rbind (size_of_int w) (\<lambda>w.
                    rbind (nth_res lst 2) (\<lambda>c. rbind (stod D c) (\<lambda>x.
                    Inr (cg_add_edge v w x g)))))))))) (read_lines rest) (new_cgraph n))))"

section \<open>The load interface of paralg\<close>

text \<open>\<open>paracel_loadall\<close> reads every file on every rank; a file that does not open throws.\<close>

definition paracel_loadall :: "files \<Rightarrow> string list \<Rightarrow> string list res" where
  "paracel_loadall fs fname_lst =
     rfold (\<lambda>fname lines. case fs fname of
         None \<Rightarrow> Inl RuntimeError
       | Some text \<Rightarrow> Inr (lines @ read_lines text)) fname_lst []"

definition paracel_sequential_loadall ::
  "files \<Rightarrow> string list \<Rightarrow> (string list \<Rightarrow> 's \<Rightarrow> 's) \<Rightarrow> 'v paralg \<Rightarrow> 's \<Rightarrow> 's res"
where
  "paracel_sequential_loadall fs fname_lst func p s =
     rbind (files_partition fs (int BLK_SZ) (new_partition fname_lst (int (worker_size p)) ''linesplit'')) (\<lambda>P.
     rfold (\<lambda>i s. rbind (load_block fs P i) (\<lambda>lines. Inr (func lines s))) [0..<worker_size p] s)"

definition paracel_load ::
  "files \<Rightarrow> string list \<Rightarrow> (string \<Rightarrow> string list res) \<Rightarrow> 'v paralg \<Rightarrow> (string list \<times> 'v paralg) res"
where
  "paracel_load fs fname_lst parser p =
     rbind (fixload fs \<lparr>l_names = fname_lst, l_size = worker_size p, l_parser = parser,
        l_pattern = ''linesplit'', l_mix = False\<rparr> (worker_rank p)) (\<lambda>lines.
     rbind (set_decomp_info ''linesplit'' p) (\<lambda>p. Inr (lines, p)))"

text \<open>The handler version has no use for the parser and ignores \<open>mix_flag\<close>.\<close>

definition paracel_load_handle ::
  "files \<Rightarrow> string list \<Rightarrow> (string \<Rightarrow> 's \<Rightarrow> 's) \<Rightarrow> string \<Rightarrow> bool \<Rightarrow> 'v paralg \<Rightarrow> 's \<Rightarrow> ('s \<times> 'v paralg) res"
where
  "paracel_load_handle fs fname_lst func pat mix_flag p s =
     rbind (fixload_handle fs \<lparr>l_names = fname_lst, l_size = worker_size p,
        l_parser = (\<lambda>_. Inl BadFunctionCall), l_pattern = pat, l_mix = False\<rparr> (worker_rank p) func s) (\<lambda>s.
     rbind (set_decomp_info pat p) (\<lambda>p. Inr (s, p)))"

text \<open>
  \<open>paracel_load_as_graph\<close> and \<open>paracel_load_as_matrix\<close>: load on every rank, create, remember the
  grid. \<open>create\<close> is one of the functions above.
\<close>

definition paracel_load_as ::
  "(loader \<Rightarrow> string list list \<Rightarrow> nat \<Rightarrow> 'r res) \<Rightarrow> files \<Rightarrow> string list \<Rightarrow> (string \<Rightarrow> string list res) \<Rightarrow>
     string \<Rightarrow> bool \<Rightarrow> 'v paralg \<Rightarrow> ('r \<times> 'v paralg) res"
where
  "paracel_load_as create fs fname_lst parser pat mix_flag p =
     (let ld = \<lparr>l_names = fname_lst, l_size = worker_size p, l_parser = parser, l_pattern = pat, l_mix = mix_flag\<rparr>
      in rbind (rmapM (fixload fs ld) [0..<worker_size p]) (\<lambda>linelsts.
         rbind (create ld linelsts (worker_rank p)) (\<lambda>r.
         rbind (set_decomp_info pat p) (\<lambda>p. Inr (r, p)))))"

definition paracel_load_as_digraph where
  "paracel_load_as_digraph D one rx dflt hf grp =
     paracel_load_as (\<lambda>ld lns rk. create_digraph_u64 D one rx dflt hf ld lns rk grp)"

definition paracel_load_as_bigraph where
  "paracel_load_as_bigraph D one rx dflt hf grp =
     paracel_load_as (\<lambda>ld lns rk. create_bigraph_u64 D one rx dflt hf ld lns rk grp)"

definition paracel_load_as_cgraph where
  "paracel_load_as_cgraph D one rx dflt hf grp rm cm =
     paracel_load_as (\<lambda>ld lns rk. create_cgraph D one rx dflt hf ld lns rk grp rm cm)"

definition paracel_load_as_matrix where
  "paracel_load_as_matrix D one rx dflt hf mk rm cm =
     paracel_load_as (\<lambda>ld lns rk. create_matrix_u64 D one rx dflt hf mk ld lns rk rm cm)"

definition paracel_load_as_dense where
  "paracel_load_as_dense D rm fs fname_lst parser =
     paracel_load_as (\<lambda>ld lns rk. rbind (nth_res lns rk) (\<lambda>lines. create_dense_u64 D ld lines rm))
       fs fname_lst parser ''fvec'' True"

section \<open>Lemmas\<close>

lemma dim_init_grid:
  assumes "0 < n"
  obtains nx ny where "dim_init pat n = Inr (nx, ny)" "nx * ny = n" "0 < nx" "0 < ny"
proof -
  have "\<exists>nx ny. dim_init pat n = Inr (nx, ny) \<and> nx * ny = n"
    using npfact2d_grid [OF assms, of True]
    by (cases "pat = ''fsmap''"; cases "pat = ''smap''")
      (auto simp: dim_init_def npfactx_def npfacty_def)
  then obtain nx ny where g: "dim_init pat n = Inr (nx, ny)" "nx * ny = n" by blast
  then have "nx \<noteq> 0" "ny \<noteq> 0" using assms by auto
  then show thesis using that g by blast
qed

lemma rmapM_lookup:
  assumes "\<And>x. x \<in> set xs \<Longrightarrow> \<exists>y. f x = Inr y \<and> P x y"
  shows "\<exists>ys. rmapM f xs = Inr ys \<and> length ys = length xs \<and> (\<forall>i < length xs. P (xs ! i) (ys ! i))"
  using assms
proof (induction xs)
  case (Cons x xs)
  obtain y where y: "f x = Inr y" "P x y" using Cons.prems [of x] by auto
  obtain ys where ys: "rmapM f xs = Inr ys" "length ys = length xs" "\<forall>i < length xs. P (xs ! i) (ys ! i)"
    using Cons.IH Cons.prems by auto
  have "\<forall>i < length (x # xs). P ((x # xs) ! i) ((y # ys) ! i)"
    using y(2) ys(3) by (auto simp: nth_Cons split: nat.splits)
  then show ?case using y(1) ys(1,2) by (intro exI [of _ "y # ys"]) simp
qed simp

text \<open>What the ranks hold after the exchange, for lines that all parse and fit.\<close>

lemma exchanged_u64_held:
  assumes n: "0 < l_size ld" "length linelsts = l_size ld"
    and dim: "dim_init (l_pattern ld) (l_size ld) = Inr grid"
    and tss: "rmapM (triples_of D one stoull (l_mix ld) (l_parser ld)) linelsts = Inr tss"
    and ok: "\<forall>f < l_size ld. \<forall>r < l_size ld. compacts_ok D rx (filter (slot_is hf grid r) (tss ! f))"
  shows "\<exists>stfs. exchanged_u64 D one rx dflt hf ld linelsts = Inr (grid, stfs) \<and> length stfs = l_size ld \<and>
    (\<forall>r < l_size ld. mset (stfs ! r) = (\<Sum>f \<in> {0..<l_size ld}.
      mset (map (held r f (reread D)) (filter (slot_is hf grid r) (tss ! f)))))"
proof -
  obtain nx ny where g: "dim_init (l_pattern ld) (l_size ld) = Inr (nx, ny)" "nx * ny = l_size ld" "0 < nx" "0 < ny"
    by (rule dim_init_grid [OF n(1)])
  have grid: "grid = (nx, ny)" using g(1) dim by simp
  let ?slots = "\<lambda>ts. map (\<lambda>k. filter (slot_is hf (nx, ny) k) ts) [0..<nx * ny]"
  have org: "rmapM (lines_organize D one stoull hf (l_mix ld) (nx, ny) (nx * ny) (l_parser ld)) linelsts =
      Inr (map ?slots tss)"
    unfolding lines_organize_triples [OF g(3,4)] rmapM_rbind_Inr tss by simp
  have len: "length tss = nx * ny" using rmapM_length [OF tss] n(2) g(2) by simp
  have "\<exists>stf. exchange_u64 D rx dflt (map ?slots tss) r = Inr stf \<and>
      mset stf = (\<Sum>f \<in> {0..<nx * ny}. mset (map (held r f (reread D)) (filter (slot_is hf (nx, ny) r) (tss ! f))))"
    if r: "r \<in> set [0..<nx * ny]" for r
  proof -
    have r': "r < nx * ny" using r by simp
    have "\<forall>f < nx * ny. compacts_ok D rx (map ?slots tss ! f ! r)"
      using ok len r' unfolding grid g(2) [symmetric] by simp
    then have "\<forall>f < nx * ny. rec_list_ok rx (pack_compact D) (unpack_compact D rx)
        (\<lambda>(a, b, x). (a, b, reread D x)) (map ?slots tss ! f ! r)"
      using compacts_rec_ok by blast
    from exchange_slots [OF g(3,4) _ r' org this] show ?thesis
      using n(2) g(2) tss by (auto simp: exchange_defs)
  qed
  from rmapM_lookup [where xs = "[0..<nx * ny]" and f = "exchange_u64 D rx dflt (map ?slots tss)" and
      P = "\<lambda>r stf. mset stf = (\<Sum>f \<in> {0..<nx * ny}.
        mset (map (held r f (reread D)) (filter (slot_is hf (nx, ny) r) (tss ! f))))", OF this]
  obtain stfs where
    "rmapM (exchange_u64 D rx dflt (map ?slots tss)) [0..<nx * ny] = Inr stfs" "length stfs = nx * ny"
    "\<forall>r < nx * ny. mset (stfs ! r) = (\<Sum>f \<in> {0..<nx * ny}.
      mset (map (held r f (reread D)) (filter (slot_is hf (nx, ny) r) (tss ! f))))"
    by auto
  then show ?thesis
    using org g(1) unfolding exchanged_u64_def lines_organize_u64_def grid g(2) [symmetric] by (auto simp: g(2))
qed

text \<open>Identifiers of a rank are identifiers of the lines.\<close>

lemma held_ids:
  assumes "mset stf = (\<Sum>f \<in> {0..<n}. mset (map (held r f norm) (filter q (tss ! f))))" "(a, b, y) \<in> set stf"
  shows "\<exists>f < n. \<exists>x. (a, b, x) \<in> set (tss ! f) \<and> q (a, b, x) \<and> y = (if f = r then x else norm x)"
proof -
  have "set stf = (\<Union>f \<in> {0..<n}. set (map (held r f norm) (filter q (tss ! f))))"
    using arg_cong [OF assms(1), of set_mset] by (simp only: set_mset_mset set_mset_sum finite_atLeastLessThan)
  then have "(a, b, y) \<in> (\<Union>f \<in> {0..<n}. held r f norm ` {t \<in> set (tss ! f). q t})"
    using assms(2) by simp
  then obtain f t where f: "f < n" "t \<in> set (tss ! f)" "q t" "(a, b, y) = held r f norm t" by auto
  obtain a' b' x where t: "t = (a', b', x)" by (cases t)
  show ?thesis using f by (auto simp: t held_def)
qed

lemma held_length:
  assumes "mset stf = (\<Sum>f \<in> {0..<n}. mset (map (held r f norm) (filter q (tss ! f))))"
  shows "length stf \<le> (\<Sum>f \<in> {0..<n}. length (tss ! f))"
proof -
  have "length stf = size (\<Sum>f \<in> {0..<n}. mset (map (held r f norm) (filter q (tss ! f))))"
    using assms by (metis size_mset)
  also have "\<dots> = (\<Sum>f \<in> {0..<n}. length (filter q (tss ! f)))" by (simp only: size_multiset_sum size_mset length_map)
  also have "\<dots> \<le> (\<Sum>f \<in> {0..<n}. length (tss ! f))" by (rule sum_mono) simp
  finally show ?thesis .
qed

lemma image_mset_sum: "image_mset g (\<Sum>f \<in> A. F f) = (\<Sum>f \<in> A. image_mset g (F f))"
  by (induction A rule: infinite_finite_induct) simp_all

lemma card_small_ids: "\<forall>a \<in> A. a < (2 ^ 31 :: u64) \<Longrightarrow> card A \<le> 2 ^ 31"
proof -
  assume A: "\<forall>a \<in> A. a < (2 ^ 31 :: u64)"
  have "unat ` A \<subseteq> {0..<2 ^ 31}"
  proof
    fix k assume "k \<in> unat ` A"
    then obtain a where a: "k = unat a" "a \<in> A" by blast
    then have "a < 2 ^ 31" using A by blast
    then have "k < unat (2 ^ 31 :: u64)" unfolding a(1) by (simp only: word_less_nat_alt)
    then show "k \<in> {0..<2 ^ 31}" by simp
  qed
  then have "card (unat ` A) \<le> card {0..<2 ^ 31 :: nat}" by (rule card_mono [rotated]) simp
  moreover have "card (unat ` A) = card A" by (rule card_image) (simp add: inj_on_def word_unat_eq_iff)
  ultimately show ?thesis by simp
qed

text \<open>A number below a bound of \<open>2^31\<close> is an index of Eigen unchanged.\<close>

lemma eigen_index:
  assumes "unat i < m" "m \<le> 2 ^ 31"
  shows "word_of_int (to_int32 i) = i" "0 \<le> to_int32 i" "to_int32 i < int m"
proof -
  have "unat i < unat (2 ^ 31 :: u64)" using assms by simp
  then have i: "i < 2 ^ 31" by (simp only: word_less_nat_alt)
  then show w: "word_of_int (to_int32 i) = i" by (rule to_int32_small)
  have u: "uint i < int m" using assms(1) unfolding unat_eq_nat_uint nat_less_iff [OF uint_ge_0] .
  then have "uint i < 2 ^ 31" using assms(2) by simp
  moreover have "- (2 ^ 31) \<le> uint i" by (rule order_trans [OF _ uint_ge_0]) simp
  ultimately have "to_int32 i = uint i" unfolding to_int32_def by (intro signed_take_bit_int_eq_self)
  then show "0 \<le> to_int32 i" "to_int32 i < int m" using u by simp_all
qed

lemma index_mapping_u64_block:
  fixes stfs :: "'d compact_triple list list"
  assumes rk: "rk < length stfs" and n: "length stfs \<le> 2 ^ 31"
    and len: "\<forall>q < length stfs. length (stfs ! q) < 2 ^ 31"
    and ids: "\<forall>q < length stfs. \<forall>(a, b, x) \<in> set (stfs ! q). a < 2 ^ 31 \<and> b < 2 ^ 31"
  shows "\<exists>stf rm cm. index_mapping_u64 ny stfs rk [] [] = Inr (stf, rm, cm) \<and>
    map (\<lambda>(i, j, x). (dict_get rm (word_of_int i), dict_get cm (word_of_int j), x)) (map eigen_triple stf) =
      map (\<lambda>(a, b, x). (Some a, Some b, x)) (stfs ! rk) \<and>
    (\<forall>(i, j, x) \<in> set (map eigen_triple stf).
      0 \<le> i \<and> i < int (length rm) \<and> 0 \<le> j \<and> j < int (length cm))"
proof -
  let ?R = "ids_rows stfs (set (row_group ny (length stfs) rk))"
  let ?C = "ids_cols stfs (set (col_group ny (length stfs) rk))"
  have small: "\<forall>a \<in> ?R. a < 2 ^ 31" "\<forall>b \<in> ?C. b < 2 ^ 31"
    using ids by (fastforce simp: ids_rows_def ids_cols_def row_group_set col_group_set)+
  then have wid: "\<forall>a \<in> ?R \<union> ?C. word_of_int (to_int32 a) = a" by (auto simp: to_int32_small)
  have ok: "\<forall>q < length stfs. length (map (\<lambda>(i, j, x). to_int32 i) (stfs ! q)) < 2 ^ 31 \<and>
      length (map (\<lambda>(i, j, x). to_int32 j) (stfs ! q)) < 2 ^ 31" using len by simp
  obtain stf rm cm where im: "index_mapping_u64 ny stfs rk [] [] = Inr (stf, rm, cm)"
    "map (\<lambda>(i, j, x). (dict_get rm i, dict_get cm j, x)) stf = map (\<lambda>(a, b, x). (Some a, Some b, x)) (stfs ! rk)"
    "\<And>i. dict_get rm i = (if unat i < card ?R then Some (numbered_by to_int32 word_of_int ?R ! unat i) else None)"
    "\<And>i. dict_get cm i = (if unat i < card ?C then Some (numbered_by to_int32 word_of_int ?C ! unat i) else None)"
    "length rm = card ?R" "length cm = card ?C"
    using index_mapping_numbers [OF intlst.wire_axioms rk ok wid card_ids [OF len n, of ny rk]]
    unfolding index_mapping_u64_def by blast
  have in_range: "unat i < card ?R \<and> unat j < card ?C" if t: "(i, j, x) \<in> set stf" for i j x
  proof -
    have "(dict_get rm i, dict_get cm j, x) \<in> set (map (\<lambda>(i, j, x). (dict_get rm i, dict_get cm j, x)) stf)"
      using t by force
    then have "dict_get rm i \<noteq> None" "dict_get cm j \<noteq> None" unfolding im(2) by auto
    then show ?thesis unfolding im(3,4) by (metis option.distinct(1))
  qed
  note R = card_small_ids [OF small(1)] and C = card_small_ids [OF small(2)]
  have "map (\<lambda>(i, j, x). (dict_get rm (word_of_int i), dict_get cm (word_of_int j), x)) (map eigen_triple stf) =
      map (\<lambda>(i, j, x). (dict_get rm i, dict_get cm j, x)) stf"
    using in_range eigen_index(1) [OF _ R] eigen_index(1) [OF _ C]
    by (auto simp: eigen_triple_def)
  also note im(2)
  finally have m: "map (\<lambda>(i, j, x). (dict_get rm (word_of_int i), dict_get cm (word_of_int j), x)) (map eigen_triple stf) =
      map (\<lambda>(a, b, x). (Some a, Some b, x)) (stfs ! rk)" .
  have "0 \<le> i \<and> i < int (length rm) \<and> 0 \<le> j \<and> j < int (length cm)"
    if t: "(i, j, x) \<in> set (map eigen_triple stf)" for i j x
    using t in_range eigen_index(2,3) [OF _ R] eigen_index(2,3) [OF _ C]
    by (fastforce simp: eigen_triple_def im(5,6))
  then have "\<forall>(i, j, x) \<in> set (map eigen_triple stf).
      0 \<le> i \<and> i < int (length rm) \<and> 0 \<le> j \<and> j < int (length cm)"
    by (intro ballI) (simp only: split_paired_all prod.case)
  with im(1) m show ?thesis by blast
qed

lemma held_bounds:
  assumes "mset stf = (\<Sum>f \<in> {0..<n}. mset (map (held r f norm) (filter q (tss ! f))))"
    and "\<forall>f < n. \<forall>(a, b, x) \<in> set (tss ! f). P a \<and> P b"
  shows "\<forall>(a, b, y) \<in> set stf. P a \<and> P b"
proof clarify
  fix a b y
  assume "(a, b, y) \<in> set stf"
  from held_ids [OF assms(1) this] obtain f x where "f < n" "(a, b, x) \<in> set (tss ! f)" by blast
  then show "P a \<and> P b" using assms(2) by fastforce
qed

section \<open>Properties\<close>


lemma two_rank_facts:
  defines "ld \<equiv> \<lparr>l_names = [], l_size = 2, l_parser = (\<lambda>l. parser_a l CHR '' ''), l_pattern = ''fmap'', l_mix = False\<rparr>"
  shows "dim_init (l_pattern ld) (l_size ld) = Inr (2, 1)"
    and "rmapM (triples_of nat_dbl 1 stoull (l_mix ld) (l_parser ld)) [[''2 7 5'', ''3 7''], [''4 9:6'']] =
      Inr [[(2, 7, 5), (3, 7, 1)], [(4, 9, 6)]]"
    and "f < 2 \<Longrightarrow> r < 2 \<Longrightarrow> compacts_ok nat_dbl (\<lambda>s sep. word_split sep s)
      (filter (slot_is id (2, 1) r) ([[(2, 7, 5), (3, 7, 1)], [(4, 9, 6)]] ! f))"
    and "f < 2 \<Longrightarrow> \<forall>(a, b, x) \<in> set ([[(2, 7, 5), (3, 7, 1 :: nat)], [(4, 9, 6)]] ! f). a < (2 ^ 31 :: u64) \<and> b < (2 ^ 31 :: u64)"
    and "(\<Sum>f \<in> {0..<2}. length ([[(2 :: u64, 7 :: u64, 5 :: nat), (3, 7, 1)], [(4, 9, 6)]] ! f)) < 2 ^ 31"
proof -
  show "dim_init (l_pattern ld) (l_size ld) = Inr (2, 1)"
    by (simp add: ld_def dim_init_def npfactx_def)
  show "rmapM (triples_of nat_dbl 1 stoull (l_mix ld) (l_parser ld)) [[''2 7 5'', ''3 7''], [''4 9:6'']] =
      Inr [[(2, 7, 5), (3, 7, 1)], [(4, 9, 6)]]"
    by (simp add: ld_def triples_of_def parser_a_def split_lines line_triples_def item_triple_def stod_def
        digits_stoull)
  have "compacts_ok nat_dbl (\<lambda>s sep. word_split sep s) [(2, 7, 5)]" "compacts_ok nat_dbl (\<lambda>s sep. word_split sep s) [(3, 7, 1)]"
    "compacts_ok nat_dbl (\<lambda>s sep. word_split sep s) [(4, 9, 6)]" "compacts_ok nat_dbl (\<lambda>s sep. word_split sep s) []"
    by (simp_all add: compacts_ok_def literal_plain nat_dbl_ok pack_all_def pack_compact_def
        to_string.simps seperator_def seperator_inner_def)
  then show "f < 2 \<Longrightarrow> r < 2 \<Longrightarrow> compacts_ok nat_dbl (\<lambda>s sep. word_split sep s)
      (filter (slot_is id (2, 1) r) ([[(2, 7, 5), (3, 7, 1)], [(4, 9, 6)]] ! f))"
    by (auto simp: less_2_cases_iff h_slot_def)
  show "f < 2 \<Longrightarrow> \<forall>(a, b, x) \<in> set ([[(2, 7, 5), (3, 7, 1 :: nat)], [(4, 9, 6)]] ! f). a < (2 ^ 31 :: u64) \<and> b < (2 ^ 31 :: u64)"
    by (auto simp: less_2_cases_iff)
  show "(\<Sum>f \<in> {0..<2}. length ([[(2 :: u64, 7 :: u64, 5 :: nat), (3, 7, 1)], [(4, 9, 6)]] ! f)) < 2 ^ 31"
  proof -
    have "sum F {0..<2} = F 0 + F 1" for F :: "nat \<Rightarrow> nat" by (simp add: numeral_2_eq_2)
    then show ?thesis by simp
  qed
qed


text \<open>
  C24: \<open>create_graph\<close> builds on every rank a sound digraph of its part of the edges: an edge
  of the lines of any rank is in the graph of the rank its ends hash to, and no other edge is.
\<close>

theorem create_digraph_edges:
  assumes "0 < l_size ld" "length linelsts = l_size ld" "rk < l_size ld"
    and "dim_init (l_pattern ld) (l_size ld) = Inr grid"
    and "rmapM (triples_of D one stoull (l_mix ld) (l_parser ld)) linelsts = Inr tss"
    and "\<forall>f < l_size ld. \<forall>r < l_size ld. compacts_ok D rx (filter (slot_is hf grid r) (tss ! f))"
  shows "\<exists>g. create_digraph_u64 D one rx dflt hf ld linelsts rk empty_digraph = Inr g \<and> dg_inv g \<and>
    (\<forall>v w. wgt_of (adj g) v w \<noteq> None \<longleftrightarrow>
       h_slot hf v w (fst grid) (snd grid) = rk \<and> (\<exists>f < l_size ld. \<exists>x. (v, w, x) \<in> set (tss ! f)))"
proof -
  obtain stfs where ex: "exchanged_u64 D one rx dflt hf ld linelsts = Inr (grid, stfs)"
    "\<And>r. r < l_size ld \<Longrightarrow> mset (stfs ! r) = (\<Sum>f \<in> {0..<l_size ld}.
      mset (map (held r f (reread D)) (filter (slot_is hf grid r) (tss ! f))))"
    using exchanged_u64_held [OF assms(1,2,4,5,6)] by blast
  have s: "set (stfs ! rk) = (\<Union>f \<in> {0..<l_size ld}. held rk f (reread D) ` {t \<in> set (tss ! f). slot_is hf grid rk t})"
    using arg_cong [OF ex(2) [OF assms(3)], of set_mset] by (simp add: set_mset_sum)
  have "(\<exists>x. (v, w, x) \<in> set (stfs ! rk)) \<longleftrightarrow>
      h_slot hf v w (fst grid) (snd grid) = rk \<and> (\<exists>f < l_size ld. \<exists>x. (v, w, x) \<in> set (tss ! f))" for v w
  proof
    assume "\<exists>x. (v, w, x) \<in> set (stfs ! rk)"
    then show "h_slot hf v w (fst grid) (snd grid) = rk \<and> (\<exists>f < l_size ld. \<exists>x. (v, w, x) \<in> set (tss ! f))"
      using held_ids [OF ex(2) [OF assms(3)]] by fastforce
  next
    assume r: "h_slot hf v w (fst grid) (snd grid) = rk \<and> (\<exists>f < l_size ld. \<exists>x. (v, w, x) \<in> set (tss ! f))"
    then obtain f x where f: "f < l_size ld" "(v, w, x) \<in> set (tss ! f)" by blast
    then have "held rk f (reread D) (v, w, x) \<in> set (stfs ! rk)" unfolding s using r by force
    then show "\<exists>x. (v, w, x) \<in> set (stfs ! rk)" by (auto simp: held_def)
  qed
  then show ?thesis
    using ex(1) dg_inv_of_triples [of "stfs ! rk"] dg_of_triples_edges [of "stfs ! rk"]
    by (auto simp: create_digraph_u64_def dg_of_triples_def)
qed

theorem create_digraph_edges_witness:
  "\<exists>g. create_digraph_u64 nat_dbl 1 (\<lambda>s sep. word_split sep s) (0, 0, 0) id
      \<lparr>l_names = [], l_size = 2, l_parser = (\<lambda>l. parser_a l CHR '' ''), l_pattern = ''fmap'', l_mix = False\<rparr>
      [[''2 7 5'', ''3 7''], [''4 9:6'']] 0 empty_digraph = Inr g \<and>
    wgt_of (adj g) 4 9 \<noteq> None \<and> wgt_of (adj g) 3 7 = None"
proof -
  let ?ld = "\<lparr>l_names = [], l_size = 2, l_parser = (\<lambda>l. parser_a l CHR '' ''), l_pattern = ''fmap'', l_mix = False\<rparr>"
  let ?tss = "[[(2, 7, 5), (3, 7, 1)], [(4, 9, 6)]] :: nat compact_triple list list"
  obtain g where g: "create_digraph_u64 nat_dbl 1 (\<lambda>s sep. word_split sep s) (0, 0, 0) id ?ld
      [[''2 7 5'', ''3 7''], [''4 9:6'']] 0 empty_digraph = Inr g"
    "\<And>v w. wgt_of (adj g) v w \<noteq> None \<longleftrightarrow>
       h_slot id v w (fst (2, 1)) (snd (2, 1)) = 0 \<and> (\<exists>f < l_size ?ld. \<exists>x. (v, w, x) \<in> set (?tss ! f))"
    using create_digraph_edges [OF _ _ _ two_rank_facts(1,2), of 0 "\<lambda>s sep. word_split sep s" id "(0, 0, 0)"]
      two_rank_facts(3) by auto
  have "\<exists>f < 2. \<exists>x. (4, 9, x) \<in> set (?tss ! f)" by (rule exI [of _ 1]) simp
  then have "wgt_of (adj g) 4 9 \<noteq> None" unfolding g(2) by (simp add: h_slot_def)
  moreover have "\<not> wgt_of (adj g) 3 7 \<noteq> None" unfolding g(2) by (simp add: h_slot_def)
  ultimately show ?thesis using g(1) by (intro exI [of _ g]) simp
qed

text \<open>A line that parses to an identifier and values.\<close>

definition parses_to :: "'d dbl \<Rightarrow> (string \<Rightarrow> string list res) \<Rightarrow> string \<Rightarrow> string \<times> 'd list \<Rightarrow> bool" where
  "parses_to D parser line = (\<lambda>(a, xs). \<exists>vs. parser line = Inr (a # vs) \<and> rmapM (stod D) vs = Inr xs)"

lemma parse_values:
  assumes "rmapM (stod D) vs = Inr xs"
  shows "rmapM (\<lambda>i. rbind (nth_res (a # vs) (i + 1)) (stod D)) [0..<n] =
    (if n \<le> length xs then Inr (take n xs) else Inl UndefinedRead)"
proof -
  have len: "length xs = length vs" by (rule rmapM_length [OF assms])
  have get: "rbind (nth_res (a # vs) (i + 1)) (stod D) = (if i < length xs then Inr (xs ! i) else Inl UndefinedRead)" for i
    using rmapM_nth [OF assms, of i] by (simp add: nth_res_def len)
  show ?thesis unfolding get
    by (induction n) (auto simp: rmapM_append take_Suc_conv_app_nth)
qed

abbreviation numbered_ids :: "nat \<Rightarrow> (string \<times> 'd list) list \<Rightarrow> (u64, string) dict" where
  "numbered_ids m parsed \<equiv> zip (map word_of_nat [m..<m + length parsed]) (map fst parsed)"

lemma dense_str_fold:
  assumes "list_all2 (parses_to D parser) lines parsed" "m + length lines \<le> 2 ^ 64" "length rm = m"
    "map fst rm = map word_of_nat [0..<m]"
  shows "rfold (dense_line D Inr True parser) lines (csz, True, word_of_nat m, rm, mtx) =
    Inr (if parsed = [] then csz else int (length (snd (last parsed))), True, word_of_nat (m + length lines),
      rm @ numbered_ids m parsed, mtx @ map snd parsed)"
  using assms
proof (induction arbitrary: m rm csz mtx rule: list_all2_induct)
  case (Cons line lines p parsed)
  obtain a xs where p: "p = (a, xs)" by (cases p)
  obtain vs where vs: "parser line = Inr (a # vs)" "rmapM (stod D) vs = Inr xs"
    using Cons.hyps(1) by (auto simp: p parses_to_def)
  have len: "length vs = length xs" using rmapM_length [OF vs(2)] by simp
  have "(word_of_nat m :: u64) \<notin> word_of_nat ` {0..<m}"
  proof
    assume "(word_of_nat m :: u64) \<in> word_of_nat ` {0..<m}"
    then obtain k where "k < m" "(word_of_nat m :: u64) = word_of_nat k" by auto
    then have "m = k" using Cons.prems(1) by (simp only: word_of_nat_eq_iff) (simp add: take_bit_nat_eq_self)
    then show False using \<open>k < m\<close> by simp
  qed
  then have "dict_get rm (word_of_nat m) = None"
    using Cons.prems(3) by (metis dict_has_def dict_has_iff list.set_map set_upt)
  then have set: "dict_set (word_of_nat m) a rm = rm @ [(word_of_nat m, a)]" by (rule dict_set_new)
  have step: "dense_line D Inr True parser line (csz, True, word_of_nat m, rm, mtx) =
      Inr (int (length xs), True, word_of_nat (Suc m), rm @ [(word_of_nat m, a)], mtx @ [xs])"
    using parse_values [OF vs(2), of a "length xs"]
    by (simp add: dense_line_def vs(1) len set nth_res_def add.commute)
  have "map fst (rm @ [(word_of_nat m, a)]) = map word_of_nat [0..<Suc m]" using Cons.prems(3) by simp
  then have "rfold (dense_line D Inr True parser) lines (int (length xs), True, word_of_nat (Suc m), rm @ [(word_of_nat m, a)], mtx @ [xs]) =
      Inr (if parsed = [] then int (length xs) else int (length (snd (last parsed))), True, word_of_nat (Suc m + length lines),
        (rm @ [(word_of_nat m, a)]) @ numbered_ids (Suc m) parsed, (mtx @ [xs]) @ map snd parsed)"
    using Cons.prems by (intro Cons.IH) auto
  then show ?case by (simp add: step p upt_conv_Cons del: upt_Suc)
qed simp

lemma rmapM_index: "rmapM (\<lambda>i. rbind (nth_res xs i) g) [0..<length xs] = rmapM g xs"
proof (induction xs rule: rev_induct)
  case (snoc x xs)
  have "rmapM (\<lambda>i. rbind (nth_res (xs @ [x]) i) g) [0..<length xs] = rmapM (\<lambda>i. rbind (nth_res xs i) g) [0..<length xs]"
    by (rule rmapM_cong) (auto simp: nth_res_def nth_append)
  then show ?case using snoc by (simp add: rmapM_append nth_res_def nth_append)
qed simp

text \<open>
  The overload of \<open>create_matrix\<close> for dense matrices with string identifiers never
  clears its flag, so the width is that of the last line. It returns the rows exactly as they are
  when all lines have equally many values; otherwise, shorter or longer, an assertion of Eigen
  fails on the first row whose width differs from the last one.
\<close>

theorem create_dense_str_widths:
  assumes "list_all2 (parses_to D (l_parser ld)) lines parsed" "length lines \<le> 2 ^ 64"
  shows "create_dense_str D ld lines [] =
    (if \<forall>p \<in> set parsed. length (snd p) = length (snd (last parsed))
     then Inr (map snd parsed, numbered_ids 0 parsed) else Inl AssertFailed)"
proof -
  let ?csz = "if parsed = [] then 0 else int (length (snd (last parsed)))"
  have len: "length parsed = length lines" using list_all2_lengthD [OF assms(1)] by simp
  have run: "rfold (dense_line D Inr True (l_parser ld)) lines (0, True, 0, [], []) =
      Inr (?csz, True, word_of_nat (length lines), numbered_ids 0 parsed, map snd parsed)"
    using dense_str_fold [OF assms(1), of 0 "[]" 0 "[]"] assms(2) by simp
  have rows: "rmapM (\<lambda>v. if int (length v) = c then Inr v else Inl AssertFailed) (map snd ps) =
      (if \<forall>p \<in> set ps. int (length (snd p)) = c then Inr (map snd ps) else Inl AssertFailed)"
    for c and ps :: "(string \<times> 'a list) list" by (induction ps) auto
  have "dense_rows (length parsed) ?csz (map snd parsed) =
      rmapM (\<lambda>v. if int (length v) = ?csz then Inr v else Inl AssertFailed) (map snd parsed)"
    using rmapM_index [of "map snd parsed" "\<lambda>v. if int (length v) = ?csz then Inr v else Inl AssertFailed"]
    by (simp only: dense_rows_def length_map)
  also have "\<dots> = (if \<forall>p \<in> set parsed. int (length (snd p)) = ?csz then Inr (map snd parsed) else Inl AssertFailed)"
    by (rule rows)
  also have "(\<forall>p \<in> set parsed. int (length (snd p)) = ?csz) \<longleftrightarrow>
      (\<forall>p \<in> set parsed. length (snd p) = length (snd (last parsed)))" by auto
  finally have d: "dense_rows (length parsed) ?csz (map snd parsed) =
    (if \<forall>p \<in> set parsed. length (snd p) = length (snd (last parsed)) then Inr (map snd parsed) else Inl AssertFailed)" .
  have "length (numbered_ids 0 parsed) = length parsed" by simp
  then show ?thesis by (simp only: create_dense_str_def run rbind_Inr prod.case d) simp
qed

lemma word_lines:
  "str_split ''u 1 2'' CHR '' '' = [''u'', ''1'', ''2'']" "str_split ''v 3'' CHR '' '' = [''v'', ''3'']"
  "str_split ''w 4 5'' CHR '' '' = [''w'', ''4'', ''5'']"
  "rmapM (stod nat_dbl) [''1'', ''2''] = Inr [1, 2]" "rmapM (stod nat_dbl) [''3''] = Inr [3]"
  "rmapM (stod nat_dbl) [''4'', ''5''] = Inr [4, 5]"
  by code_simp+

theorem create_dense_str_widths_witness:
  "create_dense_str nat_dbl
      \<lparr>l_names = [], l_size = 1, l_parser = (\<lambda>l. parser_a l CHR '' ''), l_pattern = ''fvec'', l_mix = True\<rparr>
      [''u 1 2'', ''w 4 5''] [] = Inr ([[1, 2], [4, 5]], [(0, ''u''), (1, ''w'')]) \<and>
   create_dense_str nat_dbl
      \<lparr>l_names = [], l_size = 1, l_parser = (\<lambda>l. parser_a l CHR '' ''), l_pattern = ''fvec'', l_mix = True\<rparr>
      [''u 1 2'', ''v 3''] [] = Inl AssertFailed"
proof -
  let ?ld = "\<lparr>l_names = [], l_size = 1, l_parser = (\<lambda>l. parser_a l CHR '' ''), l_pattern = ''fvec'', l_mix = True\<rparr>"
  have p: "list_all2 (parses_to nat_dbl (l_parser ?ld)) [''u 1 2'', ''w 4 5''] [(''u'', [1, 2]), (''w'', [4, 5])]"
    "list_all2 (parses_to nat_dbl (l_parser ?ld)) [''u 1 2'', ''v 3''] [(''u'', [1, 2]), (''v'', [3])]"
    using word_lines by (simp_all add: parses_to_def parser_a_def)
  from create_dense_str_widths [OF p(1)] create_dense_str_widths [OF p(2)]
  show ?thesis by (simp add: upt_rec)
qed

lemma set_decomp_linesplit: "\<exists>x y. set_decomp_info ''linesplit'' p = Inr (p\<lparr>npx := x, npy := y\<rparr>)"
  by (intro exI [of _ "fst (npfactx (worker_size p))"] exI [of _ "snd (npfactx (worker_size p))"])
    (simp add: set_decomp_info_def case_prod_unfold Let_def)

text \<open>The ranks of a run load the lines of all files, each its part, in the order of the ranks.\<close>

lemma paracel_load_ranks:
  assumes "ps \<noteq> []" "\<forall>i < length ps. worker_rank (ps ! i) = i \<and> worker_size (ps ! i) = length ps"
    and "files_partition fs (int BLK_SZ) (new_partition names (int (length ps)) ''linesplit'') = Inr P'"
    and "\<forall>nm \<in> set names. fs nm \<noteq> None" "no_blank fs P'"
  shows "\<exists>ls. length ls = length ps \<and>
    (\<forall>i < length ps. \<exists>x y. paracel_load fs names parser (ps ! i) = Inr (ls ! i, (ps ! i)\<lparr>npx := x, npy := y\<rparr>)) \<and>
    concat ls = concat (map (\<lambda>nm. read_lines (file_text fs nm)) names)"
proof -
  let ?P = "new_partition names (int (length ps)) ''linesplit''"
  have sel: "namelst ?P = names" "pattern ?P = ''linesplit''" "np ?P = int (length ps)"
    by (simp_all add: new_partition_def)
  obtain ls where ls: "rmapM (structure_load fs P' ''linesplit'') [0..<length ps] = Inr ls"
    "concat ls = concat (map (\<lambda>nm. read_lines (file_text fs nm)) names)"
    using structure_load_all [OF assms(3), unfolded sel] assms(1,4,5) by auto
  have len: "length ls = length ps" using rmapM_length [OF ls(1)] by simp
  have "paracel_load fs names parser (ps ! i) =
      rbind (structure_load fs P' ''linesplit'' i) (\<lambda>lines. rbind (set_decomp_info ''linesplit'' (ps ! i)) (\<lambda>p. Inr (lines, p)))"
    if "i < length ps" for i
    using assms(2,3) that by (simp add: paracel_load_def fixload_def loader_partition_def)
  moreover have "structure_load fs P' ''linesplit'' i = Inr (ls ! i)" if "i < length ps" for i
    using rmapM_nth [OF ls(1)] that by simp
  ultimately have "\<exists>x y. paracel_load fs names parser (ps ! i) = Inr (ls ! i, (ps ! i)\<lparr>npx := x, npy := y\<rparr>)"
    if "i < length ps" for i
    using that set_decomp_linesplit [of "ps ! i"] by (elim exE) (simp, blast)
  then show ?thesis using len ls(2) by blast
qed

end
