(* ===== verification/Vertex.thy ===== *)
theory Vertex
  imports Loader
begin

text \<open>
  \<open>include/pregel/vertex.hpp\<close>: vertex programs in supersteps. Every rank holds the vertices of
  its part of the graph; in a superstep it calls \<open>compute\<close> along the edges of its active
  vertices, reads the new values of all its vertices back from the servers and votes; the
  supersteps end when no rank had an active vertex.

  A run is a step relation over the states of all ranks and the world behind them (the clients
  and the servers): a rank takes one call of \<open>compute\<close> or one read at a time, in any interleaving
  with the others, and \<open>paracel_sync\<close> and \<open>allreduce\<close> are steps of all ranks together. The two
  virtual functions, \<open>compute\<close> and \<open>mutable_value\<close>, are arguments.
\<close>

section \<open>The state of a rank\<close>

text \<open>
  Where a rank is in \<open>run_supersteps\<close>: in the loops over the edges (with the calls still to
  make), at the barrier behind them, in \<open>vote_to_halt\<close> (with the vertices still to read), at
  \<open>allreduce\<close>, at the barrier that ends the superstep, at the one behind the loop, out.
\<close>

datatype ('x, 'd) vpc =
  Compute "(string \<times> 'd \<times> 'x) list" | Sync1 | Vote "string list" | Reduce | Sync2 | Sync3 | Finished

record ('x, 'v, 'd) vertex =
  vx_pt :: "'v paralg"
  vx_grp :: "(string, 'd) digraph"
  vx_val :: "(string, 'x) dict"
  vx_adj :: "(string, (string, 'd) dict) dict"
  vx_act :: "(string, bool) dict"
  vx_pc :: "('x, 'd) vpc"
  vx_halt :: int

text \<open>
  \<open>vertex_val_map[vtx]\<close> and \<open>vertex_adj_edge_val_map[vtx]\<close> on a key of \<open>vertex_active_map\<close>. The
  three maps always have the same keys (\<open>vx_ok\<close> below), so the reads never create an entry.
\<close>

definition vx_value :: "('x, 'v, 'd) vertex \<Rightarrow> string \<Rightarrow> 'x" where
  "vx_value r vtx = the (dict_get (vx_val r) vtx)"

definition vx_edges :: "('x, 'v, 'd) vertex \<Rightarrow> string \<Rightarrow> (string, 'd) dict" where
  "vx_edges r vtx = (case dict_get (vx_adj r) vtx of Some d \<Rightarrow> d | None \<Rightarrow> [])"

section \<open>Construction\<close>

text \<open>
  \<open>init_vars\<close>: the values, then one entry in the two other maps for each of them. The overload
  for functions of a vertex is read with the key of the visited pair as the argument (as it is
  written it passes the whole pair).
\<close>

definition fill_vertex :: "string \<Rightarrow> ('x, 'v, 'd) vertex \<Rightarrow> ('x, 'v, 'd) vertex" where
  "fill_vertex v r =
     (let (a, g) = dg_adjacent (vx_grp r) v
      in r\<lparr>vx_grp := g, vx_adj := dict_set v a (vx_adj r), vx_act := dict_set v True (vx_act r)\<rparr>)"

definition fill_maps :: "('x, 'v, 'd) vertex \<Rightarrow> ('x, 'v, 'd) vertex" where
  "fill_maps r = fold (\<lambda>(v, _). fill_vertex v) (vx_val r) r"

definition init_vars_vertex :: "(string \<Rightarrow> 'x res) \<Rightarrow> ('x, 'v, 'd) vertex \<Rightarrow> ('x, 'v, 'd) vertex res" where
  "init_vars_vertex func r =
     rbind (rfold (\<lambda>(v, _) m. rbind (func v) (\<lambda>x. Inr (dict_set v x m))) (adj (vx_grp r)) (vx_val r)) (\<lambda>m.
     Inr (fill_maps (r\<lparr>vx_val := m\<rparr>)))"

definition init_vars_edge ::
  "(string \<Rightarrow> string \<Rightarrow> 'd \<Rightarrow> 'x res) \<Rightarrow> ('x, 'v, 'd) vertex \<Rightarrow> ('x, 'v, 'd) vertex res"
where
  "init_vars_edge func r =
     rbind (rfold (\<lambda>(rid, cid, w) m. rbind (func rid cid w) (\<lambda>x. Inr (dict_set rid x m)))
       (adj_triples (adj (vx_grp r))) (vx_val r)) (\<lambda>m.
     Inr (fill_maps (r\<lparr>vx_val := m\<rparr>)))"

definition bare_vertex :: "'v paralg \<Rightarrow> (string, 'd) digraph \<Rightarrow> ('x, 'v, 'd) vertex" where
  "bare_vertex p g = \<lparr>vx_pt = p, vx_grp = g, vx_val = [], vx_adj = [], vx_act = [],
     vx_pc = Compute [], vx_halt = 1\<rparr>"

text \<open>The constructor: connect to the servers, load the graph over all ranks, set the maps up.\<close>

definition new_vertex ::
  "('v, kvclt list \<times> 'w) kvm_ops \<Rightarrow> (string \<Rightarrow> string \<Rightarrow> string list) \<Rightarrow> (string \<Rightarrow> u64) \<Rightarrow> 'd dbl \<Rightarrow> 'd \<Rightarrow>
     'd triple \<Rightarrow> files \<Rightarrow> string \<Rightarrow> string list \<Rightarrow> (string \<Rightarrow> string list res) \<Rightarrow>
     (('x, 'v, 'd) vertex \<Rightarrow> ('x, 'v, 'd) vertex res) \<Rightarrow> nat \<Rightarrow> nat \<Rightarrow> 'w \<Rightarrow>
     (('x, 'v, 'd) vertex \<times> (kvclt list \<times> 'w)) res"
where
  "new_vertex K rx hf D one dflt fs hosts_dct_str input parser init_vars rank sz w =
     rbind (paralg_init K rx hf hosts_dct_str rank sz 1 0 False w) (\<lambda>(p, w).
     rbind (paracel_load_as (\<lambda>ld lns rk. create_digraph_str D one rx dflt hf ld lns rk empty_digraph)
         fs input parser ''fmap'' False p) (\<lambda>(g, p).
     rbind (init_vars (bare_vertex p g)) (\<lambda>r. Inr (r, w))))"

section \<open>Supersteps\<close>

text \<open>The virtual functions and the read of a value from the servers.\<close>

record ('x, 'v, 'd, 'w) vprog =
  vp_compute :: "string \<Rightarrow> 'd \<Rightarrow> 'x \<Rightarrow> (unit, 'v, 'w) ps_op"
  vp_mutable :: "'v \<Rightarrow> 'x"
  vp_read :: "string \<Rightarrow> ('v, 'v, 'w) ps_op"

record ('x, 'v, 'd, 'w) supersteps =
  ss_ranks :: "('x, 'v, 'd) vertex list"
  ss_world :: 'w

text \<open>
  The calls of one superstep: for every active vertex one per edge, with the value of the
  vertex. \<open>compute\<close> does not touch the maps, so the loops make just these calls, in this order.
\<close>

definition ss_calls :: "('x, 'v, 'd) vertex \<Rightarrow> (string \<times> 'd \<times> 'x) list" where
  "ss_calls r = concat (map (\<lambda>(vtx, active).
       if active then map (\<lambda>(nb, wgt). (nb, wgt, vx_value r vtx)) (vx_edges r vtx) else []) (vx_act r))"

definition enter_superstep :: "('x, 'v, 'd) vertex \<Rightarrow> ('x, 'v, 'd) vertex" where
  "enter_superstep r =
     r\<lparr>vx_pc := Compute (ss_calls r), vx_halt := (if \<exists>(_, active) \<in> set (vx_act r). active then 0 else 1)\<rparr>"

text \<open>\<open>vote_to_halt\<close> for one vertex: the new value, and whether it differs from the old one.\<close>

definition vote_vertex :: "string \<Rightarrow> 'x \<Rightarrow> ('x, 'v, 'd) vertex \<Rightarrow> ('x, 'v, 'd) vertex" where
  "vote_vertex vtx new_val r =
     (let old_val = vx_value r vtx
      in r\<lparr>vx_val := dict_set vtx new_val (vx_val r),
           vx_act := dict_set vtx (old_val \<noteq> new_val) (vx_act r)\<rparr>)"

text \<open>What a rank does behind a barrier it waits at.\<close>

definition pass_sync :: "('x, 'v, 'd) vertex \<Rightarrow> ('x, 'v, 'd) vertex" where
  "pass_sync r = (case vx_pc r of
      Sync1 \<Rightarrow> r\<lparr>vx_pc := Vote (map fst (vx_act r))\<rparr>
    | Sync2 \<Rightarrow> enter_superstep r
    | Sync3 \<Rightarrow> r\<lparr>vx_pc := Finished\<rparr>
    | _ \<Rightarrow> r)"

text \<open>\<open>allreduce(halt_flag)\<close>, and the test of the sum against the number of workers.\<close>

definition after_reduce :: "int \<Rightarrow> nat \<Rightarrow> ('x, 'v, 'd) vertex \<Rightarrow> ('x, 'v, 'd) vertex" where
  "after_reduce flags sz r =
     r\<lparr>vx_halt := flags, vx_pc := (if flags = int sz then Sync3 else Sync2)\<rparr>"

abbreviation upd_rank ::
  "nat \<Rightarrow> ('x, 'v, 'd) vertex \<Rightarrow> ('x, 'v, 'd, 'w) supersteps \<Rightarrow> ('x, 'v, 'd, 'w) supersteps"
where
  "upd_rank i r s \<equiv> s\<lparr>ss_ranks := (ss_ranks s)[i := r]\<rparr>"

text \<open>The next operation of a rank on its own: the rank and the world after it, or its fault.\<close>

definition own_op ::
  "('x, 'v, 'd, 'w) vprog \<Rightarrow> ('x, 'v, 'd) vertex \<Rightarrow> 'w \<Rightarrow> (('x, 'v, 'd) vertex \<times> 'w) res option"
where
  "own_op P r w = (case vx_pc r of
      Compute [] \<Rightarrow> Some (Inr (r\<lparr>vx_pc := Sync1\<rparr>, w))
    | Compute ((nb, wgt, val) # cs) \<Rightarrow>
        Some (rbind (vp_compute P nb wgt val (vx_pt r) w) (\<lambda>(_, p, w).
          Inr (r\<lparr>vx_pt := p, vx_pc := Compute cs\<rparr>, w)))
    | Vote [] \<Rightarrow> Some (Inr (r\<lparr>vx_pc := Reduce\<rparr>, w))
    | Vote (vtx # vs) \<Rightarrow>
        Some (rbind (vp_read P vtx (vx_pt r) w) (\<lambda>(m, p, w).
          Inr ((vote_vertex vtx (vp_mutable P m) r)\<lparr>vx_pt := p, vx_pc := Vote vs\<rparr>, w)))
    | _ \<Rightarrow> None)"

inductive ss_step ::
  "('x, 'v, 'd, 'w) vprog \<Rightarrow> ('x, 'v, 'd, 'w) supersteps \<Rightarrow> ('x, 'v, 'd, 'w) supersteps \<Rightarrow> bool"
  for P :: "('x, 'v, 'd, 'w) vprog"
where
  own: "i < length (ss_ranks s) \<Longrightarrow> own_op P (ss_ranks s ! i) (ss_world s) = Some (Inr (r, w)) \<Longrightarrow>
    ss_step P s (upd_rank i r (s\<lparr>ss_world := w\<rparr>))"
| sync: "ss_ranks s \<noteq> [] \<Longrightarrow> b \<in> {Sync1, Sync2, Sync3} \<Longrightarrow> \<forall>r \<in> set (ss_ranks s). vx_pc r = b \<Longrightarrow>
    ss_step P s (s\<lparr>ss_ranks := map pass_sync (ss_ranks s)\<rparr>)"
| reduce: "ss_ranks s \<noteq> [] \<Longrightarrow> \<forall>r \<in> set (ss_ranks s). vx_pc r = Reduce \<Longrightarrow>
    ss_step P s (s\<lparr>ss_ranks :=
      map (after_reduce (sum_list (map vx_halt (ss_ranks s))) (length (ss_ranks s))) (ss_ranks s)\<rparr>)"

definition start_supersteps :: "('x, 'v, 'd) vertex list \<Rightarrow> 'w \<Rightarrow> ('x, 'v, 'd, 'w) supersteps" where
  "start_supersteps rs w = \<lparr>ss_ranks = map enter_superstep rs, ss_world = w\<rparr>"

inductive ss_reach ::
  "('x, 'v, 'd, 'w) vprog \<Rightarrow> ('x, 'v, 'd) vertex list \<Rightarrow> 'w \<Rightarrow> ('x, 'v, 'd, 'w) supersteps \<Rightarrow> bool"
  for P :: "('x, 'v, 'd, 'w) vprog" and rs :: "('x, 'v, 'd) vertex list" and w :: 'w
where
  start: "ss_reach P rs w (start_supersteps rs w)"
| step: "ss_reach P rs w s \<Longrightarrow> ss_step P s s' \<Longrightarrow> ss_reach P rs w s'"

section \<open>The three maps\<close>

text \<open>What every rank keeps: three dictionaries over the same vertices, and a vote over them.\<close>

definition vx_ok :: "('x, 'v, 'd) vertex \<Rightarrow> bool" where
  "vx_ok r \<longleftrightarrow> wf_dict (vx_val r) \<and> wf_dict (vx_adj r) \<and> wf_dict (vx_act r) \<and>
     fst ` set (vx_adj r) = fst ` set (vx_val r) \<and> fst ` set (vx_act r) = fst ` set (vx_val r) \<and>
     (case vx_pc r of Vote vs \<Rightarrow> distinct vs \<and> set vs \<subseteq> fst ` set (vx_val r) | _ \<Rightarrow> True)"

lemma adj_at_touch: "adj_at (adj_touch v a) u = adj_at a u"
  by (auto simp: adj_at_def adj_touch_def dict_has_def split: option.splits)

lemma fill_fold:
  "fold (\<lambda>(v, _). fill_vertex v) d r =
   r\<lparr>vx_grp := fold (\<lambda>(v, _) g. snd (dg_adjacent g v)) d (vx_grp r),
     vx_adj := fold (\<lambda>(v, _) m. dict_set v (adj_at (adj (vx_grp r)) v) m) d (vx_adj r),
     vx_act := fold (\<lambda>(v, _) m. dict_set v True m) d (vx_act r)\<rparr>"
proof (induction d arbitrary: r)
  case (Cons p d)
  obtain v x where p: "p = (v, x)" by (cases p)
  have "vx_adj (fill_vertex v r) = dict_set v (adj_at (adj (vx_grp r)) v) (vx_adj r)"
    "vx_act (fill_vertex v r) = dict_set v True (vx_act r)"
    "vx_grp (fill_vertex v r) = snd (dg_adjacent (vx_grp r) v)"
    "adj_at (adj (vx_grp (fill_vertex v r))) u = adj_at (adj (vx_grp r)) u"
    "fill_vertex v r\<lparr>vx_grp := g, vx_adj := a, vx_act := b\<rparr> = r\<lparr>vx_grp := g, vx_adj := a, vx_act := b\<rparr>" for u g a b
    by (simp_all add: fill_vertex_def dg_adjacent_def adj_at_touch)
  then show ?case by (simp add: p Cons.IH)
qed simp

lemma fold_dict_set_keys:
  "wf_dict m \<Longrightarrow> wf_dict (fold (\<lambda>(v, _) m. dict_set v (f v) m) d m)"
  "fst ` set (fold (\<lambda>(v, _) m. dict_set v (f v) m) d m) = fst ` set d \<union> fst ` set m"
  "dict_get (fold (\<lambda>(v, _) m. dict_set v (f v) m) d m) u =
     (if u \<in> fst ` set d then Some (f u) else dict_get m u)"
proof (induction d arbitrary: m)
  case (Cons p d)
  case 1
  then show ?case using Cons.IH(1) by (cases p) simp
next
  case (Cons p d)
  case 2
  then show ?case using Cons.IH(2) by (cases p) (auto simp: dict_keys_set)
next
  case (Cons p d)
  case 3
  then show ?case using Cons.IH(3) by (cases p) auto
qed simp_all

text \<open>\<open>init_vars\<close> on maps that are empty, as the constructor leaves them.\<close>

lemma fill_maps_sel:
  assumes "vx_adj r = []" "vx_act r = []"
  shows "vx_val (fill_maps r) = vx_val r" "vx_pt (fill_maps r) = vx_pt r" "vx_pc (fill_maps r) = vx_pc r"
    "dict_get (vx_adj (fill_maps r)) u =
      (if u \<in> fst ` set (vx_val r) then Some (adj_at (adj (vx_grp r)) u) else None)"
    "dict_get (vx_act (fill_maps r)) u = (if u \<in> fst ` set (vx_val r) then Some True else None)"
    "fst ` set (vx_adj (fill_maps r)) = fst ` set (vx_val r)"
    "fst ` set (vx_act (fill_maps r)) = fst ` set (vx_val r)"
    "wf_dict (vx_adj (fill_maps r))" "wf_dict (vx_act (fill_maps r))"
  using assms by (simp_all add: fill_maps_def fill_fold fold_dict_set_keys)

lemma vx_ok_fill_maps:
  "vx_adj r = [] \<Longrightarrow> vx_act r = [] \<Longrightarrow> wf_dict (vx_val r) \<Longrightarrow> vx_pc r = Compute [] \<Longrightarrow> vx_ok (fill_maps r)"
  by (simp add: vx_ok_def fill_maps_sel)

lemma rfold_wf_dict:
  assumes "rfold f xs m = Inr m'" "wf_dict m"
    and "\<And>x m m'. f x m = Inr m' \<Longrightarrow> wf_dict m \<Longrightarrow> wf_dict m'"
  shows "wf_dict m'"
  using assms(1,2) by (induction xs arbitrary: m) (auto simp: res_simps dest: assms(3))

lemma vx_ok_init:
  "init_vars_vertex fv (bare_vertex p g) = Inr r \<Longrightarrow> vx_ok r"
  "init_vars_edge fe (bare_vertex p g) = Inr r \<Longrightarrow> vx_ok r"
proof -
  show "vx_ok r" if init: "init_vars_vertex fv (bare_vertex p g) = Inr r"
  proof -
    obtain m where m: "rfold (\<lambda>(v, _) m. rbind (fv v) (\<lambda>x. Inr (dict_set v x m))) (adj g) [] = Inr m"
      "r = fill_maps ((bare_vertex p g)\<lparr>vx_val := m\<rparr>)"
      using init by (auto simp: init_vars_vertex_def bare_vertex_def res_simps)
    have "wf_dict m" by (rule rfold_wf_dict [OF m(1)]) (auto simp: res_simps)
    then show ?thesis by (simp add: m(2) vx_ok_fill_maps bare_vertex_def)
  qed
  show "vx_ok r" if init: "init_vars_edge fe (bare_vertex p g) = Inr r"
  proof -
    obtain m where m: "rfold (\<lambda>(rid, cid, w) m. rbind (fe rid cid w) (\<lambda>x. Inr (dict_set rid x m)))
        (adj_triples (adj g)) [] = Inr m" "r = fill_maps ((bare_vertex p g)\<lparr>vx_val := m\<rparr>)"
      using init by (auto simp: init_vars_edge_def bare_vertex_def res_simps)
    have "wf_dict m" by (rule rfold_wf_dict [OF m(1)]) (auto simp: res_simps)
    then show ?thesis by (simp add: m(2) vx_ok_fill_maps bare_vertex_def)
  qed
qed

text \<open>Steps of one rank.\<close>

lemma own_op_cases:
  assumes "own_op P r w = Some (Inr (r', w'))"
  obtains (compute_end) "vx_pc r = Compute []" "r' = r\<lparr>vx_pc := Sync1\<rparr>" "w' = w"
  | (compute) nb wgt x cs p' where "vx_pc r = Compute ((nb, wgt, x) # cs)"
      "vp_compute P nb wgt x (vx_pt r) w = Inr ((), p', w')" "r' = r\<lparr>vx_pt := p', vx_pc := Compute cs\<rparr>"
  | (vote_end) "vx_pc r = Vote []" "r' = r\<lparr>vx_pc := Reduce\<rparr>" "w' = w"
  | (vote) v vs m p' where "vx_pc r = Vote (v # vs)" "vp_read P v (vx_pt r) w = Inr (m, p', w')"
      "r' = (vote_vertex v (vp_mutable P m) r)\<lparr>vx_pt := p', vx_pc := Vote vs\<rparr>"
  using assms by (auto simp: own_op_def res_simps split: vpc.splits list.splits)

lemma vote_vertex_sel [simp]:
  "vx_adj (vote_vertex v x r) = vx_adj r" "vx_pt (vote_vertex v x r) = vx_pt r"
  "vx_pc (vote_vertex v x r) = vx_pc r" "vx_halt (vote_vertex v x r) = vx_halt r"
  "vx_val (vote_vertex v x r) = dict_set v x (vx_val r)"
  "vx_act (vote_vertex v x r) = dict_set v (vx_value r v \<noteq> x) (vx_act r)"
  by (simp_all add: vote_vertex_def Let_def)

lemma enter_superstep_sel [simp]:
  "vx_adj (enter_superstep r) = vx_adj r" "vx_pt (enter_superstep r) = vx_pt r"
  "vx_pc (enter_superstep r) = Compute (ss_calls r)" "vx_val (enter_superstep r) = vx_val r"
  "vx_act (enter_superstep r) = vx_act r"
  "vx_halt (enter_superstep r) = (if \<exists>(_, active) \<in> set (vx_act r). active then 0 else 1)"
  by (simp_all add: enter_superstep_def)

lemma after_reduce_sel [simp]:
  "vx_adj (after_reduce k sz r) = vx_adj r" "vx_pt (after_reduce k sz r) = vx_pt r"
  "vx_pc (after_reduce k sz r) = (if k = int sz then Sync3 else Sync2)"
  "vx_val (after_reduce k sz r) = vx_val r" "vx_act (after_reduce k sz r) = vx_act r"
  by (simp_all add: after_reduce_def)

lemma pass_sync_sel [simp]:
  "vx_adj (pass_sync r) = vx_adj r" "vx_pt (pass_sync r) = vx_pt r"
  "vx_val (pass_sync r) = vx_val r" "vx_act (pass_sync r) = vx_act r"
  by (simp_all add: pass_sync_def split: vpc.splits)

lemma pass_sync_pc:
  "vx_pc r = Sync1 \<Longrightarrow> pass_sync r = r\<lparr>vx_pc := Vote (map fst (vx_act r))\<rparr>"
  "vx_pc r = Sync2 \<Longrightarrow> pass_sync r = enter_superstep r"
  "vx_pc r = Sync3 \<Longrightarrow> pass_sync r = r\<lparr>vx_pc := Finished\<rparr>"
  by (simp_all add: pass_sync_def)

text \<open>The maps keep their keys, and the edges stay what they were.\<close>

definition same_maps :: "('x, 'v, 'd) vertex \<Rightarrow> ('x, 'v, 'd) vertex \<Rightarrow> bool" where
  "same_maps r r' \<longleftrightarrow> vx_ok r' \<and> vx_adj r' = vx_adj r \<and> fst ` set (vx_val r') = fst ` set (vx_val r)"

lemma own_op_maps:
  assumes "vx_ok r" "own_op P r w = Some (Inr (r', w'))"
  shows "same_maps r r'"
  using assms(2)
proof (cases rule: own_op_cases)
  case (vote v vs m p')
  then have "v \<in> fst ` set (vx_val r)" "set vs \<subseteq> fst ` set (vx_val r)"
    using assms(1) by (auto simp: vx_ok_def)
  then show ?thesis
    using assms(1) vote by (auto simp: same_maps_def vx_ok_def dict_keys_set)
qed (use assms(1) in \<open>auto simp: same_maps_def vx_ok_def\<close>)

lemma ss_step_maps:
  assumes "ss_step P s s'" "\<forall>r \<in> set (ss_ranks s). vx_ok r"
  shows "list_all2 same_maps (ss_ranks s) (ss_ranks s')"
  using assms
proof cases
  case (own i r w)
  then have "same_maps (ss_ranks s ! i) r" using assms(2) by (intro own_op_maps) auto
  then show ?thesis
    using own assms(2)
    by (auto simp: list_all2_conv_all_nth nth_list_update same_maps_def)
next
  case (sync b)
  have "same_maps r (pass_sync r)" if "r \<in> set (ss_ranks s)" for r
    using that sync(3,4) assms(2) by (auto simp: same_maps_def vx_ok_def pass_sync_pc wf_dict_def)
  then show ?thesis using sync(1) by (simp add: list_all2_map2 list_all2_same)
next
  case reduce
  have "same_maps r (after_reduce k sz r)" if "r \<in> set (ss_ranks s)" for r k sz
    using that reduce(3) assms(2) by (auto simp: same_maps_def vx_ok_def)
  then show ?thesis using reduce(1) by (simp add: list_all2_map2 list_all2_same)
qed

lemma same_maps_trans: "same_maps r r' \<Longrightarrow> same_maps r' r'' \<Longrightarrow> same_maps r r''"
  by (simp add: same_maps_def)

lemma ss_reach_maps:
  assumes "ss_reach P rs w s" "\<forall>r \<in> set rs. vx_ok r"
  shows "list_all2 same_maps rs (ss_ranks s)"
  using assms(1)
proof induction
  case start
  have "same_maps r (enter_superstep r)" if "r \<in> set rs" for r
    using that assms(2) by (auto simp: same_maps_def vx_ok_def)
  then show ?case by (simp add: start_supersteps_def list_all2_map2 list_all2_same)
next
  case (step s s')
  have "\<forall>r \<in> set (ss_ranks s). vx_ok r"
    using step.IH by (auto simp: list_all2_conv_all_nth in_set_conv_nth same_maps_def)
  from list_all2_trans [OF same_maps_trans step.IH ss_step_maps [OF step.hyps(2) this]] show ?case .
qed

section \<open>Ranks in step\<close>

text \<open>The part of a superstep a rank is in: sending, voting, ending it, leaving, out.\<close>

fun stage :: "('x, 'd) vpc \<Rightarrow> nat" where
  "stage (Compute _) = 0"
| "stage Sync1 = 0"
| "stage (Vote _) = 1"
| "stage Reduce = 1"
| "stage Sync2 = 2"
| "stage Sync3 = 3"
| "stage Finished = 4"

lemma own_op_stage: "own_op P r w = Some (Inr (r', w')) \<Longrightarrow> stage (vx_pc r') = stage (vx_pc r)"
  by (erule own_op_cases) auto

lemma pass_sync_stage:
  "vx_pc r = b \<Longrightarrow> b \<in> {Sync1, Sync2, Sync3} \<Longrightarrow>
     stage (vx_pc (pass_sync r)) = (if b = Sync1 then 1 else if b = Sync2 then 0 else 4)"
  by (auto simp: pass_sync_pc)

lemma ss_step_stage:
  assumes "ss_step P s s'" "\<forall>r \<in> set (ss_ranks s). stage (vx_pc r) = k"
  shows "\<exists>k. \<forall>r \<in> set (ss_ranks s'). stage (vx_pc r) = k"
  using assms(1)
proof cases
  case (own i r w)
  then have "stage (vx_pc r) = k" using own_op_stage [OF own(3)] assms(2) by simp
  then show ?thesis using own(1) assms(2) by (auto dest!: set_update_subset_insert [THEN subsetD])
next
  case (sync b)
  then show ?thesis using pass_sync_stage by fastforce
next
  case reduce
  then show ?thesis by auto
qed

lemma ss_reach_stage:
  assumes "ss_reach P rs w s"
  shows "\<exists>k. \<forall>r \<in> set (ss_ranks s). stage (vx_pc r) = k"
  using assms
proof induction
  case start
  show ?case by (simp add: start_supersteps_def)
next
  case (step s s')
  then show ?case using ss_step_stage by blast
qed

text \<open>A rank that cannot move on its own waits for the others.\<close>

definition waiting :: "('x, 'd) vpc \<Rightarrow> bool" where
  "waiting pc \<longleftrightarrow> pc \<in> {Sync1, Reduce, Sync2, Sync3}"

lemma own_op_None: "own_op P r w = None \<longleftrightarrow> waiting (vx_pc r) \<or> vx_pc r = Finished"
  by (auto simp: own_op_def waiting_def split: vpc.splits list.splits)

lemma ss_progress:
  assumes "ss_ranks s \<noteq> []" "\<forall>r \<in> set (ss_ranks s). stage (vx_pc r) = k"
  shows "(\<forall>r \<in> set (ss_ranks s). vx_pc r = Finished) \<or> (\<exists>s'. ss_step P s s') \<or>
    (\<exists>r \<in> set (ss_ranks s). \<exists>e. own_op P r (ss_world s) = Some (Inl e))"
proof (cases "\<forall>r \<in> set (ss_ranks s). own_op P r (ss_world s) = None")
  case True
  then have here: "waiting (vx_pc r) \<or> vx_pc r = Finished" if "r \<in> set (ss_ranks s)" for r
    using that by (simp add: own_op_None)
  obtain r0 where r0: "r0 \<in> set (ss_ranks s)" using assms(1) by (cases "ss_ranks s") auto
  have all: "vx_pc r = vx_pc r0" if "r \<in> set (ss_ranks s)" for r
    using here [OF that] here [OF r0] bspec [OF assms(2) that] bspec [OF assms(2) r0]
    by (auto simp: waiting_def)
  consider "vx_pc r0 \<in> {Sync1, Sync2, Sync3}" | "vx_pc r0 = Reduce" | "vx_pc r0 = Finished"
    using here [OF r0] by (auto simp: waiting_def)
  then show ?thesis
  proof cases
    case 1
    then show ?thesis using ss_step.sync [OF assms(1), of "vx_pc r0" P] all by blast
  next
    case 2
    then show ?thesis using ss_step.reduce [OF assms(1), of P] all by metis
  next
    case 3
    then show ?thesis using all by simp
  qed
next
  case False
  then obtain i x where i: "i < length (ss_ranks s)" "own_op P (ss_ranks s ! i) (ss_world s) = Some x"
    by (auto simp: in_set_conv_nth)
  show ?thesis
  proof (cases x)
    case (Inl e)
    then show ?thesis using i nth_mem [OF i(1)] by blast
  next
    case (Inr p)
    then show ?thesis using ss_step.own [OF i(1), of P "fst p" "snd p"] i(2) by auto
  qed
qed

end
