(* ===== verification/Worker.thy ===== *)
theory Worker
  imports Ps
begin

text \<open>
  What the worker operations of \<open>include/ps.hpp\<close> (theory \<open>Ps\<close>) give a program: over the
  clients and servers of \<open>Cluster\<close> (interpretation \<open>svc\<close> of \<open>Kvm\<close>) the sharded servers act
  as one key-value map; under SSP a read is never staler than the bound, and the wait ends
  as soon as the server clock allows it; the top-k read returns the greatest values.
\<close>

section \<open>Stale synchronous reads\<close>

lemma ssp_wait_bound:
  "ssp_wait K fuel p w = Inr (u, p', w') \<Longrightarrow>
     clock p' \<le> stale_cache p' + limit_s p' \<and> p' = p\<lparr>stale_cache := stale_cache p'\<rparr>"
  by (induction K fuel p w rule: ssp_wait.induct) (auto simp: res_simps split: if_splits)

lemma pull_cached_sel:
  "pull_cached K hf key p w = Inr (v, p', w') \<Longrightarrow>
     get_cache key p' = Inr v \<and> clock p' = clock p \<and> stale_cache p' = stale_cache p \<and>
     limit_s p' = limit_s p"
  by (auto simp: pull_cached_def ps_route_def res_simps set_cache_def get_cache_def Let_def)

text \<open>The answers of the clock server to a series of asks.\<close>

fun clock_reads :: "('v, 'w) kvm_ops \<Rightarrow> nat \<Rightarrow> nat \<Rightarrow> 'w \<Rightarrow> (int list \<times> 'w) res" where
  "clock_reads K s 0 w = Inr ([], w)"
| "clock_reads K s (Suc n) w =
     rbind (m_pull_int K s ''server_clock'' w) (\<lambda>(c, w).
     rbind (clock_reads K s n w) (\<lambda>(cs, w). Inr (c # cs, w)))"

lemma ssp_wait_reads:
  "clock_reads K (clock_server p) n w = Inr (cs, w') \<Longrightarrow>
     if \<exists>c \<in> set (stale_cache p # cs). clock p \<le> c + limit_s p
     then \<exists>p' w''. ssp_wait K n p w = Inr ((), p', w'')
     else ssp_wait K n p w = Inl NoProgress"
proof (induction n arbitrary: p w cs)
  case (Suc n)
  obtain c w1 cs' where c: "m_pull_int K (clock_server p) ''server_clock'' w = Inr (c, w1)"
    "clock_reads K (clock_server p) n w1 = Inr (cs', w')" "cs = c # cs'"
    using Suc.prems by (auto simp: res_simps)
  then show ?case
    using Suc.IH [of "p\<lparr>stale_cache := c\<rparr>" w1 cs'] by auto
qed auto

section \<open>The greatest values\<close>

lemma map_snd_insort_key: "map snd (insort_key snd x h) = insort (snd x) (map snd h)"
  by (induction h) auto

lemma tl_insort_drop:
  "sorted xs \<Longrightarrow> m \<le> length xs \<Longrightarrow> tl (insort x (drop m xs)) = drop (Suc m) (insort x xs)"
proof (induction xs arbitrary: m)
  case (Cons a xs)
  show ?case
  proof (cases m)
    case 0
    then show ?thesis by (simp only: drop_0 drop_Suc tl_drop)
  next
    case (Suc m')
    have IH: "tl (insort x (drop m' xs)) = drop (Suc m') (insort x xs)"
      using Cons Suc by simp
    have "x \<le> a \<Longrightarrow> insort x xs = x # xs"
      using Cons.prems(1) by (intro insort_is_Cons) auto
    then show ?thesis using IH Suc by (auto simp del: drop_Suc)
  qed
qed simp

lemma topk_fold:
  "0 \<le> k \<Longrightarrow> map snd h = drop (length ys - nat k) (sort ys) \<Longrightarrow> mset h \<subseteq># A \<Longrightarrow>
     map snd (fold (topk_insert k) xs h) =
       drop (length (ys @ map snd xs) - nat k) (sort (ys @ map snd xs)) \<and>
     mset (fold (topk_insert k) xs h) \<subseteq># A + mset xs"
proof (induction xs arbitrary: h ys A)
  case (Cons x xs)
  let ?h = "topk_insert k x h" and ?m = "length ys - nat k"
  have len: "length h = length ys - ?m"
    using arg_cong [OF Cons.prems(2), of length] by simp
  have srt: "sort (ys @ [snd x]) = insort (snd x) (sort ys)"
    by (rule properties_for_sort) (simp_all add: sorted_insort)
  have ins: "map snd (heap_push x h) = insort (snd x) (drop ?m (sort ys))"
    using Cons.prems(2) by (simp add: heap_push_def map_snd_insort_key)
  have "map snd ?h = drop (length (ys @ [snd x]) - nat k) (sort (ys @ [snd x]))"
  proof (cases "nat k \<le> length ys")
    case True
    then have "k < int (length (heap_push x h))"
      using len Cons.prems(1) by (simp add: heap_push_def)
    then have "map snd ?h = tl (insort (snd x) (drop ?m (sort ys)))"
      using ins by (simp add: topk_insert_def Let_def map_tl)
    also have "\<dots> = drop (Suc ?m) (insort (snd x) (sort ys))"
      by (rule tl_insort_drop) simp_all
    finally show ?thesis using True srt by (simp add: Suc_diff_le)
  next
    case False
    then have "\<not> k < int (length (heap_push x h))"
      using len by (simp add: heap_push_def)
    then show ?thesis using False ins srt by (simp add: topk_insert_def Let_def)
  qed
  moreover have "mset ?h \<subseteq># A + {#x#}"
  proof -
    have "mset (heap_push x h) \<subseteq># A + {#x#}" using Cons.prems(3) by (simp add: heap_push_def)
    moreover have "mset (tl (heap_push x h)) \<subseteq># mset (heap_push x h)"
      by (cases "heap_push x h") auto
    ultimately show ?thesis by (auto simp: topk_insert_def Let_def)
  qed
  ultimately show ?case
    using Cons.IH [OF Cons.prems(1), of ?h "ys @ [snd x]" "A + {#x#}"] by (simp add: ac_simps)
qed simp

text \<open>The dictionaries of the servers, in order: what a read of all servers folds over.\<close>

fun server_dicts ::
  "(nat \<Rightarrow> 'w \<Rightarrow> ((string, 'v) dict \<times> 'w) res) \<Rightarrow> nat list \<Rightarrow> 'w \<Rightarrow> ((string, 'v) dict list \<times> 'w) res"
where
  "server_dicts pull [] w = Inr ([], w)"
| "server_dicts pull (i # is) w =
     rbind (pull i w) (\<lambda>(d, w). rbind (server_dicts pull is w) (\<lambda>(ds, w). Inr (d # ds, w)))"

lemma read_servers_fold:
  "server_dicts pull is w = Inr (ds, w') \<Longrightarrow> read_servers pull func is s w = Inr (fold func ds s, w')"
  by (induction pull "is" w arbitrary: ds s rule: server_dicts.induct) (auto simp: res_simps)

lemma fold_topk_handler:
  "\<forall>d \<in> set ds. wf_dict d \<Longrightarrow>
     fold (\<lambda>tmp. topk_handler k (dict_set_all tmp [])) ds h = fold (topk_insert k) (concat ds) h"
  by (induction ds arbitrary: h) (auto simp: topk_handler_def dict_set_all_copy)

lemma topk_all:
  assumes "0 \<le> k"
  shows "map snd (rev (fold (topk_insert k) xs [])) = take (nat k) (rev (sort (map snd xs)))"
    "mset (fold (topk_insert k) xs []) \<subseteq># mset xs"
proof -
  have "map snd (fold (topk_insert k) xs []) = drop (length (map snd xs) - nat k) (sort (map snd xs)) \<and>
    mset (fold (topk_insert k) xs []) \<subseteq># mset xs"
    using topk_fold [OF assms, of "[]" "[]" "{#}" xs] by simp
  then show "map snd (rev (fold (topk_insert k) xs [])) = take (nat k) (rev (sort (map snd xs)))"
    "mset (fold (topk_insert k) xs []) \<subseteq># mset xs"
    by (simp_all add: take_rev rev_map [symmetric])
qed

lemma read_topk_run:
  assumes "server_dicts (m_pullall K) [0..<srv_sz p] w = Inr (ds, w')"
    and "\<forall>d \<in> set ds. wf_dict d" "0 \<le> k"
  shows "\<exists>r. paracel_read_topk K k p w = Inr (r, p, w') \<and>
    map snd r = take (nat k) (rev (sort (map snd (concat ds)))) \<and> mset r \<subseteq># mset (concat ds)"
proof -
  let ?h = "fold (topk_insert k) (concat ds) []"
  have "read_servers (m_pullall K) (\<lambda>tmp. topk_handler k (dict_set_all tmp [])) [0..<srv_sz p] [] w =
      Inr (?h, w')"
    by (simp add: read_servers_fold [OF assms(1)] fold_topk_handler [OF assms(2)])
  then have "paracel_read_topk K k p w = Inr (rev ?h, p, w')"
    by (simp add: paracel_read_topk_def paracel_readall_handle_def)
  then show ?thesis using topk_all [OF assms(3), of "concat ds"] by auto
qed

text \<open>Reading all servers gives what each of them stores, up to the order of its entries.\<close>

context kv_scan
begin

lemma server_dicts_ok:
  assumes "inv w" "\<forall>j \<in> set js. j < n \<and> wf_dict (D j) \<and> dct_ok (D j) \<and>
    (\<forall>k. view w j k = map_option encv (dict_get (D j) k))"
  shows "\<exists>ds w'. server_dicts (m_pullall K) js w = Inr (ds, w') \<and> inv w' \<and> view w' = view w \<and>
    list_all2 (\<lambda>j d. mset d = mset (D j)) js ds"
  using assms
proof (induction js arbitrary: w)
  case (Cons j js)
  obtain d' w' where w': "m_pullall K j w = Inr (d', w')" "mset d' = mset (D j)" "inv w'" "view w' = view w"
    using pullall [of w j "D j"] Cons.prems by auto
  then show ?case using Cons.IH [of w'] Cons.prems by auto
qed simp

end

context kv_special
begin

lemma special_dicts_ok:
  assumes "inv w" "\<forall>j \<in> set js. j < n \<and> wf_dict (D j) \<and> dct_ok (D j) \<and>
    (\<forall>k. (if keep k then view w j k else None) = map_option encv (dict_get (D j) k))"
  shows "\<exists>ds w'. server_dicts (\<lambda>i. m_pullall_special K i (Some ffn)) js w = Inr (ds, w') \<and> inv w' \<and>
    view w' = view w \<and> list_all2 (\<lambda>j d. mset d = mset (D j)) js ds"
  using assms
proof (induction js arbitrary: w)
  case (Cons j js)
  obtain d' w' where w': "m_pullall_special K j (Some ffn) w = Inr (d', w')" "mset d' = mset (D j)" "inv w'" "view w' = view w"
    using pullall_special [of w j "D j"] Cons.prems by auto
  have "\<forall>j \<in> set js. j < n \<and> wf_dict (D j) \<and> dct_ok (D j) \<and>
      (\<forall>k. (if keep k then view w' j k else None) = map_option encv (dict_get (D j) k))"
    using Cons.prems(2) by (simp only: w'(4) list.set) blast
  from Cons.IH [OF w'(3) this] w' show ?case by auto
qed simp

end

text \<open>Servers that split a dictionary between them give all of its entries.\<close>

lemma split_dicts:
  assumes "list_all2 (\<lambda>j d. mset d = mset (filter (\<lambda>p. srv (fst p) = j) all)) [0..<n] ds"
    and "wf_dict all" "\<forall>p \<in> set all. srv (fst p) < n"
  shows "\<forall>d \<in> set ds. wf_dict d" "mset (concat ds) = mset all"
proof -
  have len: "length ds = n" using list_all2_lengthD [OF assms(1)] by simp
  show "\<forall>d \<in> set ds. wf_dict d"
  proof
    fix d assume "d \<in> set ds"
    then obtain j where "mset d = mset (filter (\<lambda>p. srv (fst p) = j) all)"
      using assms(1) by (fastforce simp: list_all2_conv_all_nth in_set_conv_nth)
    then have "mset (map fst d) = mset (map fst (filter (\<lambda>p. srv (fst p) = j) all))" by simp
    from mset_eq_imp_distinct_iff [OF this] show "wf_dict d"
      using assms(2) by (simp add: wf_dict_def distinct_map_filter)
  qed
  have "mset (concat (map (\<lambda>j. filter (\<lambda>p. srv (fst p) = j) all) [0..<m])) = filter_mset (\<lambda>p. srv (fst p) < m) (mset all)" for m
  proof (induction m)
    case (Suc m)
    have "filter_mset (\<lambda>p. srv (fst p) < m) (mset all) + filter_mset (\<lambda>p. srv (fst p) = m) (mset all) =
        filter_mset (\<lambda>p. srv (fst p) < Suc m) (mset all)"
      by (intro multiset_eqI) (auto simp: less_Suc_eq)
    then show ?case using Suc by simp
  qed simp
  moreover have "filter_mset (\<lambda>p. srv (fst p) < n) (mset all) = mset all"
    using assms(3) by (auto simp: filter_mset_eq_conv)
  moreover have "map mset ds = map (mset \<circ> (\<lambda>j. filter (\<lambda>p. srv (fst p) = j) all)) [0..<n]"
    using assms(1) len by (auto simp: list_all2_conv_all_nth intro: nth_equalityI)
  ultimately show "mset (concat ds) = mset all" by (simp add: mset_concat)
qed

section \<open>One concrete worker\<close>

text \<open>For concrete runs: a worker connected to the one server of \<open>plain_addr\<close>.\<close>

definition plain_world :: "kvclt list \<times> node list" where
  "plain_world = ([plain_clt], [new_node])"

definition plain_stored :: "kvclt list \<times> node list" where
  "plain_stored = ([plain_clt], [new_node\<lparr>n_tbl := [(''k'', pk_pack (\<lambda>s. s) ''v'')]\<rparr>])"

definition plain_kvm :: "(string, kvclt list \<times> node list) kvm_ops" where
  "plain_kvm = client_kvm plain_msgpack (cluster_zmq plain_env plain_addr) plain_codec"

definition plain_worker :: "'v paralg" where
  "plain_worker = new_paralg (\<lambda>s. word_of_nat (length s)) 1 0 1 10 2 False"

lemma plain_sinv: "sinv plain_addr 1 plain_world" "sinv plain_addr 1 plain_stored"
  by (simp_all add: sinv_def plain_world_def plain_stored_def plain_clt_ok)

lemma plain_routes: "routes (\<lambda>s. word_of_nat (length s)) 1 plain_worker"
  unfolding plain_worker_def by (rule routes_new_paralg) simp

lemma plain_server: "server_of (\<lambda>s. word_of_nat (length s)) plain_worker k = 0"
  using routes_server [OF plain_routes, of k] by simp

lemma plain_kv: "str_wire plain_msgpack ''k''" "wire_ok (venc plain_codec) (vdec plain_codec) ''v''"
  "lst_wire plain_msgpack [''k'', ''k'']" "vals_wire plain_msgpack plain_codec [''v'', ''v'']"
proof -
  have c: "clean seperator (pk_pack (\<lambda>s. s) ''k'')" "clean seperator (pk_pack (\<lambda>s. s) ''v'')"
    "clean seperator (pk_pack lst_bytes [''k'', ''k''])"
    "clean seperator (pk_pack lst_bytes (map (pk_pack (\<lambda>s. s)) [''v'', ''v'']))"
    by (simp_all add: pk_pack_def le_encode_numeral, simp_all add: char_of_def,
        simp_all add: clean_Cons, simp_all add: seperator_def)
  show "str_wire plain_msgpack ''k''" "wire_ok (venc plain_codec) (vdec plain_codec) ''v''"
    using plain_wire [of "''k''"] plain_wire [of "''v''"] c(1,2) by simp_all
  show "lst_wire plain_msgpack [''k'', ''k'']"
    using c(3) plain_packable(2) [of "[''k'', ''k'']"] by (simp add: wire_ok_def)
  have "lst_ok plain_msgpack (map (pk_pack (\<lambda>s. s)) [''v'', ''v''])"
    by (intro plain_packable(2)) (simp_all add: length_pk_pack)
  then show "vals_wire plain_msgpack plain_codec [''v'', ''v'']"
    using c(4) by (simp add: vals_wire_def wire_ok_def packable_def pk_pack_def)
qed

lemma worker_cong [simp]: "ssp_switch plain_worker = False" "srv_sz plain_worker = 1"
  by (simp_all add: plain_worker_def new_paralg_def)

section \<open>Properties\<close>

text \<open>
  C2: bounded staleness. An SSP read that returns, outside the first and the last
  iteration, leaves the worker at most \<open>limit_s\<close> clocks ahead of the server clock it last saw,
  and its value is the cached one. A hit changes nothing; on a miss the value was pulled from
  the server of the key after the wait.
\<close>

theorem read_bounded_staleness:
  assumes "read_ssp K hf fuel key p w = Inr (v, p', w')" "clock p \<noteq> 0" "clock p \<noteq> total_iters p"
  shows "clock p' = clock p \<and> clock p' \<le> stale_cache p' + limit_s p' \<and> get_cache key p' = Inr v \<and>
    (if clock p < stale_cache p + limit_s p then p' = p \<and> w' = w
     else \<exists>p1 w1. ssp_wait K fuel p w = Inr ((), p1, w1) \<and>
       pull_cached K hf key p1 w1 = Inr (v, p', w'))"
proof (cases "clock p < stale_cache p + limit_s p")
  case True
  then show ?thesis using assms by (auto simp: read_ssp_def res_simps)
next
  case False
  then obtain p1 w1 where p1: "ssp_wait K fuel p w = Inr ((), p1, w1)"
    "pull_cached K hf key p1 w1 = Inr (v, p', w')"
    using assms by (auto simp: read_ssp_def res_simps)
  have "clock p1 \<le> stale_cache p1 + limit_s p1" "clock p1 = clock p"
    using ssp_wait_bound [OF p1(1)] by (metis paralg.ext_inject paralg.surjective paralg.update_convs(3))+
  then show ?thesis using False p1 pull_cached_sel [OF p1(2)] by auto
qed

theorem read_bounded_staleness_witness:
  "read_ssp (plain_kvm\<lparr>m_pull_int := \<lambda>j k w. Inr (2, w), m_pull := \<lambda>j k w. Inr (''v'', w)\<rparr>)
     (\<lambda>s. word_of_nat (length s)) 3 ''k'' (plain_worker\<lparr>clock := 4\<rparr>) plain_world =
   Inr (''v'', set_cache ''k'' ''v'' (plain_worker\<lparr>clock := 4, stale_cache := 2\<rparr>), plain_world) \<and>
   (4 :: int) \<le> 2 + 2"
proof -
  let ?K = "plain_kvm\<lparr>m_pull_int := \<lambda>j k w. Inr (2, w), m_pull := \<lambda>j k w. Inr (''v'', w)\<rparr>"
  let ?p = "plain_worker\<lparr>clock := 4\<rparr> :: string paralg"
  have sel: "total_iters ?p = 10" "stale_cache ?p = 0" "limit_s ?p = 2" "clock ?p = 4"
    by (simp_all add: plain_worker_def new_paralg_def)
  have "routes (\<lambda>s. word_of_nat (length s)) 1 (?p\<lparr>stale_cache := 2\<rparr>)"
    using plain_routes by (simp add: routes_def)
  note rt = ps_route_ok [OF this]
  have run: "read_ssp ?K (\<lambda>s. word_of_nat (length s)) 3 ''k'' ?p plain_world =
      Inr (''v'', set_cache ''k'' ''v'' (?p\<lparr>stale_cache := 2\<rparr>), plain_world)"
    using sel rt [of "''k''"] by (simp add: read_ssp_def numeral_eq_Suc pull_cached_def Let_def)
  from read_bounded_staleness [OF this] sel have "(4 :: int) \<le> 2 + 2" by simp
  with run show ?thesis by simp
qed

text \<open>
  C29: the wait ends exactly when it may. Over the answers the clock server gives to \<open>n\<close>
  asks, the loop returns within \<open>n\<close> rounds if one of them (or the clock already cached)
  brings the worker within the bound, and is still waiting after \<open>n\<close> rounds if none does.
\<close>

theorem ssp_wait_returns:
  assumes "clock_reads K (clock_server p) n w = Inr (cs, w')"
  shows "if \<exists>c \<in> set (stale_cache p # cs). clock p \<le> c + limit_s p
    then \<exists>p' w''. ssp_wait K n p w = Inr ((), p', w'')
    else ssp_wait K n p w = Inl NoProgress"
  by (rule ssp_wait_reads [OF assms])

theorem ssp_wait_returns_witness:
  "\<exists>p' w''. ssp_wait (plain_kvm\<lparr>m_pull_int := \<lambda>j k w. Inr (2, w)\<rparr>) 1
     (plain_worker\<lparr>clock := 4\<rparr>) plain_world = Inr ((), p', w'')"
proof -
  have "clock_reads (plain_kvm\<lparr>m_pull_int := \<lambda>j k w. Inr (2, w)\<rparr>)
      (clock_server (plain_worker\<lparr>clock := 4\<rparr> :: string paralg)) 1 plain_world = Inr ([2], plain_world)"
    by simp
  from ssp_wait_returns [OF this] show ?thesis by (simp add: plain_worker_def new_paralg_def)
qed

text \<open>
  C36: the top-k read returns the greatest values over all servers, in descending order,
  each with a key it is stored under: as many as asked for, or all if there are fewer.
\<close>

theorem read_topk_greatest:
  assumes "server_dicts (m_pullall K) [0..<srv_sz p] w = Inr (ds, w')"
    and "\<forall>d \<in> set ds. wf_dict d" "0 \<le> k"
  shows "\<exists>r. paracel_read_topk K k p w = Inr (r, p, w') \<and>
    map snd r = take (nat k) (rev (sort (map snd (concat ds)))) \<and> mset r \<subseteq># mset (concat ds)"
  by (rule read_topk_run [OF assms])

theorem read_topk_greatest_witness:
  "\<exists>r. paracel_read_topk (client_kvm plain_msgpack (cluster_zmq plain_env plain_addr)
        \<lparr>venc = to_string, vdec = Map.empty\<rparr>
        \<lparr>m_pullall := \<lambda>j w. Inr (if j = 0 then [(''a'', 3 :: nat), (''b'', 1)] else [(''c'', 2)], w)\<rparr>)
      2 (plain_worker\<lparr>srv_sz := 2\<rparr>) plain_world = Inr (r, plain_worker\<lparr>srv_sz := 2\<rparr>, plain_world) \<and>
    map snd r = [3, 2]"
proof -
  let ?K = "client_kvm plain_msgpack (cluster_zmq plain_env plain_addr)
        \<lparr>venc = to_string, vdec = Map.empty\<rparr>
        \<lparr>m_pullall := \<lambda>j w. Inr (if j = 0 then [(''a'', 3 :: nat), (''b'', 1)] else [(''c'', 2)], w)\<rparr>"
  let ?p = "plain_worker\<lparr>srv_sz := 2\<rparr> :: nat paralg"
  let ?ds = "[[(''a'', 3 :: nat), (''b'', 1)], [(''c'', 2)]]"
  have "server_dicts (m_pullall ?K) [0..<srv_sz ?p] plain_world = Inr (?ds, plain_world)"
    by (simp add: numeral_2_eq_2)
  from read_topk_greatest [OF this, of 2] show ?thesis by (auto simp: wf_dict_def)
qed

text \<open>
  C1: the sharded servers refine one map. Over real clients and server threads, with keys
  and values that cross the wire whole, a write of a key succeeds and sets that key in the
  union of the servers' tables and nothing else, a membership test and a removal answer from
  that union, and a removal deletes the key from it and nothing else.
\<close>

theorem servers_refine_map:
  assumes "wire_env E" "sinv addr n w" "routes hf n p"
    and "str_wire (env_mp E) key" "wire_ok (venc V) (vdec V) v"
  shows "(\<exists>p' w'. paracel_write (client_kvm (env_mp E) (cluster_zmq E addr) V) hf key v p w =
        Inr (True, p', w') \<and> sinv addr n w' \<and> routes hf n p' \<and> server_of hf p' = server_of hf p \<and>
        global_view sview (server_of hf p) w' =
          (global_view sview (server_of hf p) w)(key \<mapsto> pk_pack (venc V) v)) \<and>
    (\<exists>w'. paracel_contains (client_kvm (env_mp E) (cluster_zmq E addr) V) hf key p w =
        Inr (global_view sview (server_of hf p) w key \<noteq> None, p, w') \<and> sinv addr n w' \<and>
        global_view sview (server_of hf p) w' = global_view sview (server_of hf p) w) \<and>
    (\<exists>w'. paracel_remove (client_kvm (env_mp E) (cluster_zmq E addr) V) hf key p w =
        Inr (global_view sview (server_of hf p) w key \<noteq> None, p, w') \<and> sinv addr n w' \<and>
        global_view sview (server_of hf p) w' = (global_view sview (server_of hf p) w)(key := None))"
  using svc.write_refines [of E addr n w hf p key V v] svc.contains_refines [of E addr n w hf p key V]
    svc.remove_refines [of E addr n w hf p key V] assms
  by (auto simp del: fun_upd_apply)

theorem servers_refine_map_witness:
  "\<exists>p' w'. paracel_write plain_kvm (\<lambda>s. word_of_nat (length s)) ''k'' ''v'' plain_worker plain_world =
     Inr (True, p', w')"
  using servers_refine_map [of plain_env plain_addr 1 plain_world "\<lambda>s. word_of_nat (length s)"
      plain_worker "''k''" plain_codec "''v''"] wire_env_plain plain_sinv(1) plain_routes plain_kv
  by (auto simp: plain_kvm_def simp del: plain_msgpack_simps)

text \<open>
  C13: a written value reads back, from a fresh worker as from the writer: after a write
  without SSP, a read of the key returns the value, and the read of another worker with the
  same ring does.
\<close>

theorem write_then_read:
  assumes "wire_env E" "sinv addr n w" "routes hf n p" "\<not> ssp_switch p"
    and "str_wire (env_mp E) key" "wire_ok (venc V) (vdec V) v"
    and "routes hf n q" "server_of hf q = server_of hf p" "\<not> ssp_switch q"
  shows "\<exists>p' w'. paracel_write (client_kvm (env_mp E) (cluster_zmq E addr) V) hf key v p w =
      Inr (True, p', w') \<and>
    (\<exists>w''. paracel_read (client_kvm (env_mp E) (cluster_zmq E addr) V) hf fuel key q w' =
      Inr (v, q, w''))"
proof -
  obtain p' w' where w': "paracel_write (client_kvm (env_mp E) (cluster_zmq E addr) V) hf key v p w =
      Inr (True, p', w')" "sinv addr n w'"
    "global_view sview (server_of hf p) w' =
      (global_view sview (server_of hf p) w)(key \<mapsto> pk_pack (venc V) v)"
    using svc.write_refines [of E addr n w hf p key V v] assms(1-3,5,6) by blast
  then have "global_view sview (server_of hf q) w' key = Some (pk_pack (venc V) v)"
    using assms(8) by simp
  then show ?thesis
    using svc.read_refines [of E addr n w' hf q key V v fuel] w'(1,2) assms by blast
qed

theorem write_then_read_witness:
  "\<exists>p' w'. paracel_write plain_kvm (\<lambda>s. word_of_nat (length s)) ''k'' ''v'' plain_worker plain_world =
      Inr (True, p', w') \<and>
    (\<exists>w''. paracel_read plain_kvm (\<lambda>s. word_of_nat (length s)) 0 ''k'' plain_worker w' =
      Inr (''v'', plain_worker, w''))"
  using write_then_read [of plain_env plain_addr 1 plain_world "\<lambda>s. word_of_nat (length s)"
      plain_worker "''k''" plain_codec "''v''" plain_worker 0]
    wire_env_plain plain_sinv(1) plain_routes plain_kv
  by (simp add: plain_kvm_def del: plain_msgpack_simps)

text \<open>
  C28: a multi-key read returns, for each key, the stored value, at the last position
  the key has in the request; an earlier position of a repeated key keeps the default value
  instead, because the answers are placed by an index that remembers one position per key.
\<close>

theorem read_multi_positions:
  assumes "wire_env E" "sinv addr n w" "routes hf n p" "\<not> ssp_switch p"
    and "\<forall>j < n. lst_wire (env_mp E) (filter (\<lambda>k. server_of hf p k = j) keys) \<and>
      vals_wire (env_mp E) V (map f (filter (\<lambda>k. server_of hf p k = j) keys))"
    and "\<forall>k \<in> set keys. global_view sview (server_of hf p) w k = Some (pk_pack (venc V) (f k))"
  shows "\<exists>vals w'. paracel_read_multi (client_kvm (env_mp E) (cluster_zmq E addr) V) hf fuel dflt keys p w =
      Inr (vals, p, w') \<and> sview w' = sview w \<and> length vals = length keys \<and>
    (\<forall>i < length keys. vals ! i =
      (if keys ! i \<in> set (drop (Suc i) keys) then dflt else f (keys ! i)))"
proof -
  obtain w' where "paracel_read_multi (client_kvm (env_mp E) (cluster_zmq E addr) V) hf fuel dflt keys p w =
      Inr (map (\<lambda>i. if keys ! i \<in> set (drop (Suc i) keys) then dflt else f (keys ! i))
        [0..<length keys], p, w')" "sview w' = sview w"
    using svc.read_multi_refines [OF _ assms(3,4,5,6)] assms(1,2) by blast
  then show ?thesis by auto
qed

theorem read_multi_positions_witness:
  "\<exists>vals w'. paracel_read_multi plain_kvm (\<lambda>s. word_of_nat (length s)) 0 [] [''k'', ''k'']
      plain_worker plain_stored = Inr (vals, plain_worker, w') \<and> vals ! 0 = [] \<and> vals ! 1 = ''v''"
proof -
  have "\<forall>k \<in> set [''k'', ''k'']. global_view sview (server_of (\<lambda>s. word_of_nat (length s)) plain_worker)
      plain_stored k = Some (pk_pack (venc plain_codec) ''v'')"
    by (simp add: global_view_def plain_server sview_def plain_stored_def kvs_get_def pk_pack_def)
  moreover have "\<forall>j < 1. lst_wire (env_mp plain_env)
        (filter (\<lambda>k. server_of (\<lambda>s. word_of_nat (length s)) plain_worker k = j) [''k'', ''k'']) \<and>
      vals_wire (env_mp plain_env) plain_codec (map (\<lambda>_. ''v'')
        (filter (\<lambda>k. server_of (\<lambda>s. word_of_nat (length s)) plain_worker k = j) [''k'', ''k'']))"
    using plain_kv by (simp add: plain_server del: plain_msgpack_simps)
  ultimately show ?thesis
    using read_multi_positions [OF wire_env_plain plain_sinv(2) plain_routes, of "[''k'', ''k'']"
        plain_codec "\<lambda>_. ''v''" 0 "[]"]
    by (fastforce simp: plain_kvm_def simp del: plain_msgpack_simps)
qed

end
