(* ===== verification/MaxVertex.thy ===== *)
theory MaxVertex
  imports Vertex Worker
begin

text \<open>
  \<open>alg/max_vertex_value/max_vertex_value_pregel.cpp\<close> with its updater in \<open>update.cpp\<close>: the vertex
  program that spreads the greatest vertex value along the edges. A vertex sends its value to its
  neighbours with a \<open>bupdate\<close> whose updater keeps the greater of two values, and takes the value
  the servers hold for it.

  The locale \<open>max_store\<close> is what the program needs of the servers: they act as one map that keeps
  the maximum of what is sent. The interpretation \<open>mvv\<close> is on the program itself, over the clients
  and servers of the model. Doubles are any linear order, which leaves out NaN.
\<close>

section \<open>The program\<close>

definition local_update :: "'v :: linorder \<Rightarrow> 'v \<Rightarrow> 'v" where
  "local_update a b = (if b < a then a else b)"

definition max_updater :: "('v :: linorder) vcodec \<Rightarrow> update_result" where
  "max_updater V = update_proxy (venc V) (vdec V) (vdec V) (\<lambda>a b. Inr (local_update a b))"

definition mvv_fn :: "string \<times> string" where
  "mvv_fn = (''/mfs/user/wuhong/paracel/local/lib/libmvv_update.so'', ''max_updater'')"

definition mvv_compute ::
  "('v, 'w) kvm_ops \<Rightarrow> (string \<Rightarrow> u64) \<Rightarrow> string \<Rightarrow> 'd \<Rightarrow> 'v \<Rightarrow> (unit, 'v, 'w) ps_op"
where
  "mvv_compute K hf neighbor wgt val p w =
     rbind (paracel_bupdate K hf neighbor val (Some mvv_fn) p w) (\<lambda>(_, p, w). Inr ((), p, w))"

definition mvv_mutable_value :: "'v \<Rightarrow> 'v" where
  "mvv_mutable_value val = val"

definition mvv_prog ::
  "('v, 'w) kvm_ops \<Rightarrow> (string \<Rightarrow> u64) \<Rightarrow> nat \<Rightarrow> ('v, 'v, 'd, 'w) vprog"
where
  "mvv_prog K hf fuel =
     \<lparr>vp_compute = mvv_compute K hf, vp_mutable = mvv_mutable_value, vp_read = paracel_read K hf fuel\<rparr>"

text \<open>\<open>main\<close>: the parser of the input lines, the first value of a vertex, the object.\<close>

definition mvv_parser :: "string \<Rightarrow> string list res" where
  "mvv_parser line = Inr (str_split line (CHR '',''))"

definition new_max_vertex_value where
  "new_max_vertex_value K rx hf D one dflt fs hosts_dct_str input rank sz w =
     new_vertex K rx hf D one dflt fs hosts_dct_str input mvv_parser (init_vars_vertex (stod D)) rank sz w"

section \<open>What the program needs of the servers\<close>

locale max_store =
  fixes P :: "('v :: linorder, 'v, 'd, 'w) vprog"
    and pok :: "'v paralg \<Rightarrow> bool"
    and stored :: "'w \<Rightarrow> (string \<Rightarrow> 'v option) \<Rightarrow> bool"
    and key_ok :: "string \<Rightarrow> bool"
    and val_ok :: "'v \<Rightarrow> bool"
  assumes send: "pok p \<Longrightarrow> stored w S \<Longrightarrow> key_ok k \<Longrightarrow> val_ok x \<Longrightarrow>
      \<exists>p' w'. vp_compute P k d x p w = Inr ((), p', w') \<and> pok p' \<and>
        stored w' (S(k \<mapsto> (case S k of None \<Rightarrow> x | Some y \<Rightarrow> max y x)))"
    and recv: "pok p \<Longrightarrow> stored w S \<Longrightarrow> key_ok k \<Longrightarrow> S k = Some y \<Longrightarrow>
      \<exists>p' w'. vp_read P k p w = Inr (y, p', w') \<and> pok p' \<and> stored w' S"
    and recv_missing: "pok p \<Longrightarrow> stored w S \<Longrightarrow> key_ok k \<Longrightarrow> S k = None \<Longrightarrow>
      \<exists>e. vp_read P k p w = Inl e"
    and mutable_same: "vp_mutable P x = x"

text \<open>The parts of a rank the argument is about.\<close>

definition held :: "('x, 'v, 'd) vertex \<Rightarrow> string set" where
  "held r = fst ` set (vx_val r)"

definition outbox :: "('x, 'v, 'd) vertex \<Rightarrow> (string \<times> 'd \<times> 'x) list" where
  "outbox r = (case vx_pc r of Compute cs \<Rightarrow> cs | _ \<Rightarrow> [])"

definition voted :: "('x, 'v, 'd) vertex \<Rightarrow> string \<Rightarrow> bool" where
  "voted r u = (case vx_pc r of Compute _ \<Rightarrow> False | Sync1 \<Rightarrow> False | Vote vs \<Rightarrow> u \<notin> set vs | _ \<Rightarrow> True)"

definition active :: "('x, 'v, 'd) vertex \<Rightarrow> string \<Rightarrow> bool" where
  "active r u \<longleftrightarrow> dict_get (vx_act r) u = Some True"

definition targets :: "('x, 'v, 'd) vertex \<Rightarrow> string \<Rightarrow> string set" where
  "targets r u = fst ` set (vx_edges r u)"

text \<open>The edges of all ranks, and the first values that reach a vertex along them.\<close>

definition edges_of :: "('x, 'v, 'd) vertex list \<Rightarrow> (string \<times> string) set" where
  "edges_of rs = {(u, v). \<exists>r \<in> set rs. v \<in> targets r u}"

definition reaching :: "(string \<times> string) set \<Rightarrow> (string \<Rightarrow> 'x) \<Rightarrow> string \<Rightarrow> 'x set" where
  "reaching E idv k = {idv x | x. (x, k) \<in> E\<^sup>+}"

text \<open>A value has arrived: the servers hold at least it; or it is on its way.\<close>

definition arrived :: "(string \<Rightarrow> ('x :: linorder) option) \<Rightarrow> string \<Rightarrow> 'x \<Rightarrow> bool" where
  "arrived S v x \<longleftrightarrow> (\<exists>y. S v = Some y \<and> x \<le> y)"

definition sent :: "(string \<Rightarrow> ('x :: linorder) option) \<Rightarrow> ('x, 'v, 'd) vertex \<Rightarrow> string \<Rightarrow> 'x \<Rightarrow> bool" where
  "sent S r v x \<longleftrightarrow> arrived S v x \<or> (\<exists>d. (v, d, x) \<in> set (outbox r))"

text \<open>
  The invariant of one rank. Only values that reach a vertex are held or sent; the first value
  of a vertex, and its present one unless the vote has just changed it, are sent along every
  edge; a vertex that has voted holds the value of the servers; a rank with its flag set has
  nothing to send.
\<close>

definition rank_inv ::
  "(string \<times> string) set \<Rightarrow> (string \<Rightarrow> 'x :: linorder) \<Rightarrow> (string \<Rightarrow> 'x option) \<Rightarrow> ('x, 'v, 'd) vertex \<Rightarrow> bool"
where
  "rank_inv E idv S r \<longleftrightarrow> vx_ok r \<and>
     (\<forall>u \<in> held r. vx_value r u = idv u \<or> vx_value r u \<in> reaching E idv u) \<and>
     (\<forall>(k, d, x) \<in> set (outbox r). x \<in> reaching E idv k) \<and>
     (\<forall>u v. v \<in> targets r u \<longrightarrow> (u, v) \<in> E \<and> sent S r v (idv u) \<and>
       (active r u \<and> voted r u \<or> sent S r v (vx_value r u))) \<and>
     (\<forall>u \<in> held r. voted r u \<longrightarrow> S u = Some (vx_value r u)) \<and>
     (stage (vx_pc r) \<le> 1 \<longrightarrow> vx_halt r = 0 \<or> vx_halt r = 1 \<and> outbox r = [])"

text \<open>All vertices of a rank agree with the servers and none is active.\<close>

definition settled :: "(string \<Rightarrow> 'x option) \<Rightarrow> ('x, 'v, 'd) vertex \<Rightarrow> bool" where
  "settled S r \<longleftrightarrow> (\<forall>u \<in> held r. S u = Some (vx_value r u) \<and> \<not> active r u)"

definition all_flags :: "('x, 'v, 'd) vertex list \<Rightarrow> bool" where
  "all_flags rs \<longleftrightarrow> (\<forall>r \<in> set rs. vx_halt r = 1)"

text \<open>
  The invariant of a run, at a stage: when every rank has its flag set, or the loop is left,
  all ranks are settled.
\<close>

definition run_inv ::
  "(string \<times> string) set \<Rightarrow> (string \<Rightarrow> 'x :: linorder) \<Rightarrow> (string \<Rightarrow> 'x option) \<Rightarrow> ('x, 'v, 'd) vertex list \<Rightarrow> bool"
where
  "run_inv E idv S rs \<longleftrightarrow> (\<forall>r \<in> set rs. rank_inv E idv S r) \<and>
     (\<exists>k. \<forall>r \<in> set rs. stage (vx_pc r) = k) \<and>
     (\<forall>k y. S k = Some y \<longrightarrow> y \<in> reaching E idv k) \<and>
     ((\<forall>r \<in> set rs. stage (vx_pc r) \<le> 1) \<and> all_flags rs \<or> (\<forall>r \<in> set rs. 3 \<le> stage (vx_pc r)) \<longrightarrow>
       (\<forall>r \<in> set rs. settled S r))"

section \<open>Steps of one rank\<close>

lemma rank_sel [simp]:
  "targets (r\<lparr>vx_pt := p\<rparr>) = targets r" "targets (r\<lparr>vx_pc := c\<rparr>) = targets r"
  "held (r\<lparr>vx_pt := p\<rparr>) = held r" "held (r\<lparr>vx_pc := c\<rparr>) = held r"
  "active (r\<lparr>vx_pt := p\<rparr>) = active r" "active (r\<lparr>vx_pc := c\<rparr>) = active r"
  "vx_value (r\<lparr>vx_pt := p\<rparr>) = vx_value r" "vx_value (r\<lparr>vx_pc := c\<rparr>) = vx_value r"
  "outbox (r\<lparr>vx_pt := p\<rparr>) = outbox r" "voted (r\<lparr>vx_pt := p\<rparr>) = voted r"
  by (simp_all add: targets_def vx_edges_def held_def active_def vx_value_def outbox_def voted_def fun_eq_iff)

lemma vote_sel [simp]:
  "targets (vote_vertex v y r) = targets r"
  "vx_value (vote_vertex v y r) u = (if u = v then y else vx_value r u)"
  "active (vote_vertex v y r) u = (if u = v then vx_value r v \<noteq> y else active r u)"
  "held (vote_vertex v y r) = insert v (held r)"
  by (auto simp: targets_def vx_edges_def vx_value_def active_def held_def fun_eq_iff dict_keys_set)

lemma enter_sel [simp]:
  "targets (enter_superstep r) = targets r" "held (enter_superstep r) = held r"
  "active (enter_superstep r) = active r" "vx_value (enter_superstep r) = vx_value r"
  "outbox (enter_superstep r) = ss_calls r" "voted (enter_superstep r) u = False"
  by (simp_all add: targets_def vx_edges_def held_def active_def vx_value_def outbox_def voted_def fun_eq_iff)

lemma reduce_sel [simp]:
  "targets (after_reduce k sz r) = targets r" "held (after_reduce k sz r) = held r"
  "active (after_reduce k sz r) = active r" "vx_value (after_reduce k sz r) = vx_value r"
  "outbox (after_reduce k sz r) = []" "voted (after_reduce k sz r) u = True"
  by (simp_all add: targets_def vx_edges_def held_def active_def vx_value_def outbox_def voted_def fun_eq_iff)

lemma pc_sel [simp]:
  "outbox (r\<lparr>vx_pc := Compute cs\<rparr>) = cs" "outbox (r\<lparr>vx_pc := Sync1\<rparr>) = []"
  "outbox (r\<lparr>vx_pc := Vote vs\<rparr>) = []" "outbox (r\<lparr>vx_pc := Reduce\<rparr>) = []"
  "outbox (r\<lparr>vx_pc := Finished\<rparr>) = []"
  "voted (r\<lparr>vx_pc := Compute cs\<rparr>) u = False" "voted (r\<lparr>vx_pc := Sync1\<rparr>) u = False"
  "voted (r\<lparr>vx_pc := Vote vs\<rparr>) u = (u \<notin> set vs)" "voted (r\<lparr>vx_pc := Reduce\<rparr>) u = True"
  "voted (r\<lparr>vx_pc := Finished\<rparr>) u = True"
  by (simp_all add: outbox_def voted_def)

lemma pc_now:
  "vx_pc r = Compute cs \<Longrightarrow> outbox r = cs" "vx_pc r = Sync1 \<Longrightarrow> outbox r = []"
  "vx_pc r = Vote vs \<Longrightarrow> outbox r = []" "vx_pc r = Reduce \<Longrightarrow> outbox r = []"
  "vx_pc r = Sync2 \<Longrightarrow> outbox r = []" "vx_pc r = Sync3 \<Longrightarrow> outbox r = []" "vx_pc r = Finished \<Longrightarrow> outbox r = []"
  "vx_pc r = Vote vs \<Longrightarrow> voted r u \<longleftrightarrow> u \<notin> set vs" "vx_pc r = Reduce \<Longrightarrow> voted r u"
  "vx_pc r = Sync2 \<Longrightarrow> voted r u" "vx_pc r = Sync3 \<Longrightarrow> voted r u" "vx_pc r = Finished \<Longrightarrow> voted r u"
  "stage (vx_pc r) = 0 \<Longrightarrow> \<not> voted r u"
  by (auto simp: outbox_def voted_def split: vpc.splits)

text \<open>An active vertex is one of the keys, and its calls are those along its edges.\<close>

lemma vx_ok_keys:
  assumes "vx_ok r"
  shows "active r u \<Longrightarrow> u \<in> held r" "v \<in> targets r u \<Longrightarrow> u \<in> held r"
    "u \<in> held r \<Longrightarrow> \<exists>b. dict_get (vx_act r) u = Some b" "set (map fst (vx_act r)) = held r"
proof -
  have k: "fst ` set (vx_adj r) = held r" "fst ` set (vx_act r) = held r" "wf_dict (vx_act r)"
    using assms by (auto simp: vx_ok_def held_def)
  then show "set (map fst (vx_act r)) = held r" by simp
  show "u \<in> held r" if "active r u"
    using that k(2) by (metis active_def dict_has_def dict_has_iff option.distinct(1))
  show "u \<in> held r" if "v \<in> targets r u"
    using that k(1) by (auto simp: targets_def vx_edges_def dict_has_iff [symmetric] dict_has_def split: option.splits)
  show "\<exists>b. dict_get (vx_act r) u = Some b" if "u \<in> held r"
    using that k(2) by (metis dict_has_def dict_has_iff option.exhaust)
qed

lemma ss_calls_iff:
  assumes "vx_ok r"
  shows "(v, d, x) \<in> set (ss_calls r) \<longleftrightarrow> (\<exists>u. active r u \<and> x = vx_value r u \<and> (v, d) \<in> set (vx_edges r u))"
proof -
  have "wf_dict (vx_act r)" using assms by (simp add: vx_ok_def)
  then have "active r u \<longleftrightarrow> (u, True) \<in> set (vx_act r)" for u by (simp add: active_def dict_get_iff)
  then show ?thesis by (fastforce simp: ss_calls_def)
qed

lemma ss_calls_targets:
  assumes "vx_ok r"
  shows "(\<exists>d. (v, d, x) \<in> set (ss_calls r)) \<longleftrightarrow> (\<exists>u. active r u \<and> x = vx_value r u \<and> v \<in> targets r u)"
  by (force simp: ss_calls_iff [OF assms] targets_def image_iff)

lemma some_active:
  assumes "vx_ok r"
  shows "(\<exists>(_, b) \<in> set (vx_act r). b) \<longleftrightarrow> (\<exists>u. active r u)"
proof -
  have "wf_dict (vx_act r)" using assms by (simp add: vx_ok_def)
  then have "active r u \<longleftrightarrow> (u, True) \<in> set (vx_act r)" for u by (simp add: active_def dict_get_iff)
  then show ?thesis by auto
qed

lemma vx_ok_own: "vx_ok r \<Longrightarrow> own_op P r w = Some (Inr (r', w')) \<Longrightarrow> vx_ok r'"
  by (drule (1) own_op_maps) (simp add: same_maps_def)

lemma arrived_mono:
  "arrived S v x \<Longrightarrow> \<forall>k y. S k = Some y \<longrightarrow> (\<exists>y'. S' k = Some y' \<and> y \<le> y') \<Longrightarrow> arrived S' v x"
  unfolding arrived_def by (meson order_trans)

lemma rank_inv_mono:
  assumes "rank_inv E idv S r" "stage (vx_pc r) = 0"
    and "\<forall>k y. S k = Some y \<longrightarrow> (\<exists>y'. S' k = Some y' \<and> y \<le> y')"
  shows "rank_inv E idv S' r"
proof -
  have "sent S r v x \<Longrightarrow> sent S' r v x" for v x
    unfolding sent_def using arrived_mono [OF _ assms(3)] by blast
  then show ?thesis
    using assms(1) pc_now(13) [OF assms(2)] unfolding rank_inv_def by blast
qed

lemma rank_inv_compute:
  assumes "rank_inv E idv S r" "vx_pc r = Compute ((nb, wgt, x) # cs)"
    and S': "S' = S(nb \<mapsto> (case S nb of None \<Rightarrow> x | Some y \<Rightarrow> max y x))"
  shows "rank_inv E idv S' (r\<lparr>vx_pt := p, vx_pc := Compute cs\<rparr>)" (is "rank_inv _ _ _ ?r")
proof -
  have up: "\<forall>k y. S k = Some y \<longrightarrow> (\<exists>y'. S' k = Some y' \<and> y \<le> y')" and here: "arrived S' nb x"
    by (auto simp: S' arrived_def split: option.splits)
  have sent: "sent S r v y \<Longrightarrow> sent S' ?r v y" for v y
    using arrived_mono [OF _ up] here assms(2) by (auto simp: sent_def pc_now)
  have ok: "vx_ok ?r" using assms(1,2) by (auto simp: rank_inv_def vx_ok_def)
  have "\<not> voted r u" for u using assms(2) pc_now(13) [of r] by simp
  then show ?thesis
    using assms(1,2) ok sent unfolding rank_inv_def by (auto simp: pc_now)
qed

lemma rank_inv_ends:
  "rank_inv E idv S r \<Longrightarrow> vx_pc r = Compute [] \<Longrightarrow> rank_inv E idv S (r\<lparr>vx_pc := Sync1\<rparr>)"
  "rank_inv E idv S r \<Longrightarrow> vx_pc r = Vote [] \<Longrightarrow> rank_inv E idv S (r\<lparr>vx_pc := Reduce\<rparr>)"
  "rank_inv E idv S r \<Longrightarrow> vx_pc r = Sync1 \<Longrightarrow> rank_inv E idv S (pass_sync r)"
  "rank_inv E idv S r \<Longrightarrow> vx_pc r = Sync3 \<Longrightarrow> rank_inv E idv S (pass_sync r)"
  "rank_inv E idv S r \<Longrightarrow> vx_pc r = Reduce \<Longrightarrow> rank_inv E idv S (after_reduce k sz r)"
  by (auto simp: rank_inv_def sent_def pc_now pass_sync_pc vx_ok_def held_def wf_dict_def)

lemma rank_inv_vote:
  assumes "rank_inv E idv S r" "vx_pc r = Vote (v # vs)" "S v = Some y" "y \<in> reaching E idv v"
  shows "rank_inv E idv S ((vote_vertex v y r)\<lparr>vx_pt := p, vx_pc := Vote vs\<rparr>)" (is "rank_inv _ _ _ ?r")
proof -
  have ok: "vx_ok r" and v: "v \<in> held r" and vs: "set vs \<subseteq> held r" "v \<notin> set vs" "distinct vs"
    using assms(1,2) by (auto simp: rank_inv_def vx_ok_def held_def)
  have "vx_ok ?r" using ok v vs by (auto simp: vx_ok_def held_def dict_keys_set)
  moreover have "sent S ?r w x = sent S r w x" for w x
    using assms(2) by (simp add: sent_def pc_now)
  ultimately show ?thesis
    using assms v vs unfolding rank_inv_def by (auto simp: pc_now insert_absorb)
qed

lemma rank_inv_enter:
  assumes "rank_inv E idv S r" "vx_pc r = Sync2"
  shows "rank_inv E idv S (enter_superstep r)"
proof -
  have ok: "vx_ok r" using assms(1) by (simp add: rank_inv_def)
  have old: "sent S r w x \<Longrightarrow> sent S (enter_superstep r) w x" for w x
    using assms(2) by (simp add: sent_def pc_now)
  have new: "active r u \<Longrightarrow> w \<in> targets r u \<Longrightarrow> sent S (enter_superstep r) w (vx_value r u)" for u w
    using ss_calls_targets [OF ok] by (auto simp: sent_def)
  have out: "x \<in> reaching E idv k" if call: "(k, d, x) \<in> set (ss_calls r)" for k d x
  proof -
    obtain u where u: "u \<in> held r" "x = vx_value r u" "k \<in> targets r u"
      using ss_calls_targets [OF ok, of k x] call vx_ok_keys(1) [OF ok] by blast
    then have edge: "(u, k) \<in> E" and val: "x = idv u \<or> x \<in> reaching E idv u"
      using assms(1) by (auto simp: rank_inv_def)
    then show ?thesis by (auto simp: reaching_def intro: trancl.intros)
  qed
  have flag: "vx_halt (enter_superstep r) = 0 \<or> vx_halt (enter_superstep r) = 1 \<and> ss_calls r = []"
  proof (cases "\<exists>u. active r u")
    case True
    then show ?thesis by (simp add: some_active [OF ok])
  next
    case False
    then have "ss_calls r = []"
      using ss_calls_targets [OF ok] by (metis ex_in_conv prod_cases3 set_empty)
    then show ?thesis using False by (simp add: some_active [OF ok])
  qed
  have "vx_ok (enter_superstep r)" using ok by (simp add: vx_ok_def)
  then show ?thesis
    using assms(1) old new out flag unfolding rank_inv_def enter_sel by blast
qed

text \<open>The start of a run, with the first values in the maps and nothing on the servers.\<close>

lemma rank_inv_start:
  assumes "vx_ok r" "\<forall>u \<in> held r. vx_value r u = idv u \<and> active r u" "\<forall>u. \<forall>v \<in> targets r u. (u, v) \<in> E"
  shows "rank_inv E idv Map.empty (enter_superstep r)"
proof -
  have sent: "w \<in> targets r u \<Longrightarrow> sent Map.empty (enter_superstep r) w (idv u)" for u w
    using ss_calls_targets [OF assms(1)] assms(2) vx_ok_keys(2) [OF assms(1)] by (fastforce simp: sent_def)
  have out: "x \<in> reaching E idv k" if call: "(k, d, x) \<in> set (ss_calls r)" for k d x
    using ss_calls_targets [OF assms(1), of k x] call assms(2,3) vx_ok_keys(1) [OF assms(1)]
    by (fastforce simp: reaching_def)
  have flag: "vx_halt (enter_superstep r) = 0 \<or> vx_halt (enter_superstep r) = 1 \<and> ss_calls r = []"
  proof (cases "\<exists>u. active r u")
    case False
    then have "ss_calls r = []"
      using ss_calls_targets [OF assms(1)] by (metis ex_in_conv prod_cases3 set_empty)
    then show ?thesis using False by (simp add: some_active [OF assms(1)])
  qed (simp add: some_active [OF assms(1)])
  have "vx_ok (enter_superstep r)" using assms(1) by (simp add: vx_ok_def)
  then show ?thesis
    using assms(2,3) sent out flag vx_ok_keys(2) [OF assms(1)] unfolding rank_inv_def enter_sel by auto
qed

section \<open>Steps of a run\<close>

definition raise_at :: "string \<Rightarrow> ('x :: linorder) \<Rightarrow> (string \<Rightarrow> 'x option) \<Rightarrow> string \<Rightarrow> 'x option" where
  "raise_at k x S = S(k \<mapsto> (case S k of None \<Rightarrow> x | Some y \<Rightarrow> max y x))"

lemma raise_at_mono: "S k = Some y \<Longrightarrow> \<exists>y'. raise_at nb x S k = Some y' \<and> y \<le> y'"
  by (auto simp: raise_at_def)

text \<open>What a step of one rank does, in terms of the map the servers act as.\<close>

definition own_effect ::
  "('x :: linorder, 'v, 'd) vertex \<Rightarrow> (string \<Rightarrow> 'x option) \<Rightarrow> ('x, 'v, 'd) vertex \<Rightarrow> (string \<Rightarrow> 'x option) \<Rightarrow> bool"
where
  "own_effect r S r' S' \<longleftrightarrow>
     (\<exists>nb wgt x cs p. vx_pc r = Compute ((nb, wgt, x) # cs) \<and> S' = raise_at nb x S \<and>
        r' = r\<lparr>vx_pt := p, vx_pc := Compute cs\<rparr>) \<or>
     S' = S \<and> (vx_pc r = Compute [] \<and> r' = r\<lparr>vx_pc := Sync1\<rparr> \<or>
       vx_pc r = Vote [] \<and> r' = r\<lparr>vx_pc := Reduce\<rparr> \<or>
       (\<exists>v vs y p. vx_pc r = Vote (v # vs) \<and> S v = Some y \<and>
          r' = (vote_vertex v y r)\<lparr>vx_pt := p, vx_pc := Vote vs\<rparr>))"

lemma own_effect_rank:
  assumes "own_effect r S r' S'" "rank_inv E idv S r" "\<forall>k y. S k = Some y \<longrightarrow> y \<in> reaching E idv k"
  shows "rank_inv E idv S' r'" "\<forall>k y. S' k = Some y \<longrightarrow> y \<in> reaching E idv k"
    "\<forall>k y. S k = Some y \<longrightarrow> (\<exists>y'. S' k = Some y' \<and> y \<le> y')" "S' = S \<or> stage (vx_pc r) = 0 \<and> outbox r \<noteq> []"
    "stage (vx_pc r') = stage (vx_pc r)" "vx_halt r' = vx_halt r" "held r' = held r" "targets r' = targets r"
    "settled S r \<Longrightarrow> S' = S \<Longrightarrow> settled S' r'"
proof -
  consider (compute) nb wgt x cs p where "vx_pc r = Compute ((nb, wgt, x) # cs)" "S' = raise_at nb x S"
      "r' = r\<lparr>vx_pt := p, vx_pc := Compute cs\<rparr>"
    | (compute_end) "S' = S" "vx_pc r = Compute []" "r' = r\<lparr>vx_pc := Sync1\<rparr>"
    | (vote_end) "S' = S" "vx_pc r = Vote []" "r' = r\<lparr>vx_pc := Reduce\<rparr>"
    | (vote) v vs y p where "S' = S" "vx_pc r = Vote (v # vs)" "S v = Some y"
      "r' = (vote_vertex v y r)\<lparr>vx_pt := p, vx_pc := Vote vs\<rparr>"
    using assms(1) unfolding own_effect_def by blast
  note cases = this
  have v: "v \<in> held r" if "vx_pc r = Vote (v # vs)" for v vs
    using that assms(2) by (auto simp: rank_inv_def vx_ok_def held_def)
  show "rank_inv E idv S' r'"
  proof (cases rule: cases)
    case compute
    then show ?thesis using rank_inv_compute [OF assms(2)] by (simp add: raise_at_def)
  next
    case vote
    then show ?thesis using rank_inv_vote [OF assms(2)] assms(3) by simp
  qed (use rank_inv_ends(1,2) [OF assms(2)] in auto)
  show "\<forall>k y. S' k = Some y \<longrightarrow> y \<in> reaching E idv k"
  proof (cases rule: cases)
    case compute
    then have "x \<in> reaching E idv nb" using assms(2) by (auto simp: rank_inv_def pc_now)
    then show ?thesis using compute assms(3) by (auto simp: raise_at_def max_def split: option.splits)
  qed (use assms(3) in auto)
  show "\<forall>k y. S k = Some y \<longrightarrow> (\<exists>y'. S' k = Some y' \<and> y \<le> y')"
    by (cases rule: cases) (auto intro: raise_at_mono)
  show "S' = S \<or> stage (vx_pc r) = 0 \<and> outbox r \<noteq> []"
    by (cases rule: cases) (auto simp: pc_now)
  show "stage (vx_pc r') = stage (vx_pc r)" "vx_halt r' = vx_halt r" "targets r' = targets r"
    by (cases rule: cases; simp)+
  show "held r' = held r"
    by (cases rule: cases) (use v in \<open>auto simp: insert_absorb\<close>)
  show "settled S' r'" if "settled S r" "S' = S"
    using that by (cases rule: cases) (use v in \<open>auto simp: settled_def\<close>)
qed

lemma run_inv_own:
  assumes "run_inv E idv S rs" "i < length rs" "own_effect (rs ! i) S r' S'"
  shows "run_inv E idv S' (rs[i := r'])"
proof -
  have ri: "\<forall>r \<in> set rs. rank_inv E idv S r" and so: "\<forall>k y. S k = Some y \<longrightarrow> y \<in> reaching E idv k"
    and st: "\<exists>k. \<forall>r \<in> set rs. stage (vx_pc r) = k"
    and se: "(\<forall>r \<in> set rs. stage (vx_pc r) \<le> 1) \<and> all_flags rs \<or> (\<forall>r \<in> set rs. 3 \<le> stage (vx_pc r)) \<longrightarrow>
       (\<forall>r \<in> set rs. settled S r)"
    using assms(1) unfolding run_inv_def by blast+
  have mem: "rs ! i \<in> set rs" using assms(2) by simp
  note eff = own_effect_rank [OF assms(3) bspec [OF ri mem] so]
  have sub: "set (rs[i := r']) \<subseteq> insert r' (set rs)" by (rule set_update_subset_insert)
  have other: "rank_inv E idv S' r" if "r \<in> set rs" for r
  proof (cases "S' = S")
    case False
    then have "stage (vx_pc (rs ! i)) = 0" using eff(4) by blast
    then have "stage (vx_pc r) = 0" using st that mem by force
    then show ?thesis using rank_inv_mono [OF bspec [OF ri that] _ eff(3)] by blast
  qed (use ri that in simp)
  have same: "(\<forall>r \<in> set (rs[i := r']). Q (stage (vx_pc r)) (vx_halt r)) \<longleftrightarrow>
      (\<forall>r \<in> set rs. Q (stage (vx_pc r)) (vx_halt r))" for Q
    using eff(5,6) assms(2) by (auto simp: all_set_conv_all_nth nth_list_update)
  have "\<forall>r \<in> set (rs[i := r']). settled S' r"
    if cond: "(\<forall>r \<in> set (rs[i := r']). stage (vx_pc r) \<le> 1) \<and> all_flags (rs[i := r']) \<or>
      (\<forall>r \<in> set (rs[i := r']). 3 \<le> stage (vx_pc r))"
  proof -
    have c: "(\<forall>r \<in> set rs. stage (vx_pc r) \<le> 1) \<and> all_flags rs \<or> (\<forall>r \<in> set rs. 3 \<le> stage (vx_pc r))"
      using cond same [of "\<lambda>k _. k \<le> 1"] same [of "\<lambda>k _. 3 \<le> k"] same [of "\<lambda>_ h. h = 1"]
      unfolding all_flags_def by blast
    then have "outbox (rs ! i) = [] \<or> stage (vx_pc (rs ! i)) \<noteq> 0"
      using bspec [OF ri mem] mem by (auto simp: rank_inv_def all_flags_def)
    then have "S' = S" using eff(4) by metis
    then show ?thesis using se c sub eff(9) mem by blast
  qed
  moreover have "\<forall>r \<in> set (rs[i := r']). rank_inv E idv S' r" using sub other eff(1) by blast
  moreover have "\<exists>k. \<forall>r \<in> set (rs[i := r']). stage (vx_pc r) = k"
    using st same [of "\<lambda>k' _. k' = k" for k] by blast
  ultimately show ?thesis using eff(2) unfolding run_inv_def by blast
qed

lemma run_inv_sync:
  assumes "run_inv E idv S rs" "b \<in> {Sync1, Sync2, Sync3}" "\<forall>r \<in> set rs. vx_pc r = b"
  shows "run_inv E idv S (map pass_sync rs)"
proof -
  have ri: "\<forall>r \<in> set rs. rank_inv E idv S r" using assms(1) by (simp add: run_inv_def)
  have "rank_inv E idv S (pass_sync r)" if "r \<in> set rs" for r
    using ri that assms(2,3) rank_inv_ends(3,4) [of E idv S r] rank_inv_enter [of E idv S r]
    by (auto simp: pass_sync_pc)
  moreover have "\<exists>k. \<forall>r \<in> set (map pass_sync rs). stage (vx_pc r) = k"
    using assms(2,3) pass_sync_stage by fastforce
  moreover have "settled S (pass_sync r)"
    if r: "r \<in> set rs" and cond: "(\<forall>r \<in> set (map pass_sync rs). stage (vx_pc r) \<le> 1) \<and>
        all_flags (map pass_sync rs) \<or> (\<forall>r \<in> set (map pass_sync rs). 3 \<le> stage (vx_pc r))" for r
  proof (cases "b = Sync2")
    case True
    then have pc: "vx_pc r = Sync2" using r assms(3) by simp
    have ok: "vx_ok r" "\<forall>u \<in> held r. S u = Some (vx_value r u)"
      using bspec [OF ri r] pc pc_now(10) [OF pc] by (auto simp: rank_inv_def)
    have enter: "pass_sync r = enter_superstep r" using pc by (rule pass_sync_pc)
    then have "\<not> 3 \<le> stage (vx_pc (pass_sync r))" by simp
    then have "vx_halt (pass_sync r) = 1" using cond r unfolding all_flags_def by auto
    then have "vx_halt (enter_superstep r) = 1" unfolding enter .
    then have "\<nexists>u. active r u" using some_active [OF ok(1)] by (auto split: if_splits)
    then show ?thesis using ok(2) pc by (simp add: pass_sync_pc settled_def)
  next
    case False
    then have pc: "\<forall>r \<in> set rs. vx_pc r = Sync1 \<or> vx_pc r = Sync3" using assms(2,3) by auto
    have same: "vx_halt (pass_sync r) = vx_halt r \<and> (settled S r \<longrightarrow> settled S (pass_sync r)) \<and>
        (stage (vx_pc (pass_sync r)) \<le> 1 \<longrightarrow> stage (vx_pc r) \<le> 1) \<and>
        (3 \<le> stage (vx_pc (pass_sync r)) \<longrightarrow> 3 \<le> stage (vx_pc r))" if "r \<in> set rs" for r
      using pc that by (auto simp: pass_sync_pc settled_def)
    then have "(\<forall>r \<in> set rs. stage (vx_pc r) \<le> 1) \<and> all_flags rs \<or> (\<forall>r \<in> set rs. 3 \<le> stage (vx_pc r))"
      using cond by (auto simp: all_flags_def)
    then have "settled S r" using assms(1) r unfolding run_inv_def by blast
    then show ?thesis using same r by blast
  qed
  ultimately show ?thesis using assms(1) unfolding run_inv_def by auto
qed

text \<open>The sum of the flags reaches the number of ranks only if every flag is set.\<close>

lemma flags_sum:
  "\<forall>r \<in> set rs. vx_halt r = 0 \<or> vx_halt r = 1 \<Longrightarrow>
     sum_list (map vx_halt rs) \<le> int (length rs) \<and>
     (sum_list (map vx_halt rs) = int (length rs) \<longleftrightarrow> all_flags rs)"
proof (induction rs)
  case (Cons r rs)
  then have IH: "sum_list (map vx_halt rs) \<le> int (length rs)"
    "sum_list (map vx_halt rs) = int (length rs) \<longleftrightarrow> all_flags rs" by simp_all
  have "vx_halt r = 0 \<or> vx_halt r = 1" using Cons.prems by simp
  then show ?case using IH by (auto simp: all_flags_def)
qed (simp add: all_flags_def)

lemma run_inv_reduce:
  assumes "run_inv E idv S rs" "\<forall>r \<in> set rs. vx_pc r = Reduce"
  shows "run_inv E idv S (map (after_reduce (sum_list (map vx_halt rs)) (length rs)) rs)"
proof -
  let ?t = "sum_list (map vx_halt rs)"
  have ri: "\<forall>r \<in> set rs. rank_inv E idv S r" using assms(1) by (simp add: run_inv_def)
  have flags: "?t = int (length rs) \<longleftrightarrow> all_flags rs"
    using flags_sum [of rs] ri assms(2) by (auto simp: rank_inv_def)
  have "settled S (after_reduce ?t (length rs) r)" if "all_flags rs" "r \<in> set rs" for r
  proof -
    have "settled S r" using assms that unfolding run_inv_def by auto
    then show ?thesis by (simp add: settled_def)
  qed
  moreover have "rank_inv E idv S (after_reduce ?t (length rs) r)" if "r \<in> set rs" for r
    using ri that assms(2) rank_inv_ends(5) by blast
  ultimately show ?thesis using assms(1) flags unfolding run_inv_def by (cases rs) auto
qed

section \<open>Runs against the servers\<close>

text \<open>Keys and values that can be stored: the vertices, the ends of edges, the first values.\<close>

definition names_ok ::
  "(string \<Rightarrow> bool) \<Rightarrow> ('x \<Rightarrow> bool) \<Rightarrow> (string \<Rightarrow> 'x) \<Rightarrow> ('x, 'v, 'd) vertex list \<Rightarrow> bool"
where
  "names_ok key_ok val_ok idv rs \<longleftrightarrow> (\<forall>(u, v) \<in> edges_of rs. key_ok v \<and> val_ok (idv u)) \<and>
     (\<forall>r \<in> set rs. \<forall>u \<in> held r. key_ok u)"

text \<open>Ranks as \<open>init_vars\<close> leaves them, with the first values of a function \<open>idv\<close>.\<close>

definition fresh_ranks :: "(string \<Rightarrow> 'x) \<Rightarrow> ('x, 'v, 'd) vertex list \<Rightarrow> bool" where
  "fresh_ranks idv rs \<longleftrightarrow>
     (\<forall>r \<in> set rs. vx_ok r \<and> (\<forall>u \<in> held r. vx_value r u = idv u \<and> active r u))"

lemma same_maps_ranks:
  assumes "list_all2 same_maps rs rs'"
  shows "edges_of rs' = edges_of rs" "names_ok key_ok val_ok idv rs' = names_ok key_ok val_ok idv rs"
proof -
  have maps: "map (\<lambda>r. (held r, targets r)) rs' = map (\<lambda>r. (held r, targets r)) rs"
    using assms
  proof induction
    case (Cons r rs r' rs')
    have "held r' = held r" "targets r' = targets r"
      using Cons.hyps(1) by (auto simp: same_maps_def held_def targets_def vx_edges_def fun_eq_iff)
    then show ?case using Cons.IH by (simp only: list.map)
  qed (simp only: list.map)
  then have h: "(\<lambda>r. (held r, targets r)) ` set rs' = (\<lambda>r. (held r, targets r)) ` set rs"
    by (simp only: set_map [symmetric] maps)
  have "edges_of qs = {(u, v). \<exists>(h, t) \<in> (\<lambda>r. (held r, targets r)) ` set qs. v \<in> t u}"
    for qs :: "('a, 'b, 'c) vertex list"
    by (auto simp: edges_of_def)
  with h show edges: "edges_of rs' = edges_of rs" by (simp only:)
  have "(\<forall>r \<in> set qs. \<forall>u \<in> held r. key_ok u) \<longleftrightarrow>
      (\<forall>(h, t) \<in> (\<lambda>r. (held r, targets r)) ` set qs. \<forall>u \<in> h. key_ok u)" for qs :: "('a, 'b, 'c) vertex list"
    by auto
  with h edges show "names_ok key_ok val_ok idv rs' = names_ok key_ok val_ok idv rs"
    by (simp only: names_ok_def)
qed

lemma run_inv_start:
  assumes "fresh_ranks idv rs"
  shows "run_inv (edges_of rs) idv Map.empty (map enter_superstep rs)"
proof -
  have "rank_inv (edges_of rs) idv Map.empty (enter_superstep r)" if "r \<in> set rs" for r
    using assms that by (intro rank_inv_start) (auto simp: fresh_ranks_def edges_of_def)
  moreover have "settled Map.empty (enter_superstep r)"
    if r: "r \<in> set rs" and flags: "all_flags (map enter_superstep rs)" for r
  proof -
    have ok: "vx_ok r" "\<forall>u \<in> held r. active r u" using assms r by (auto simp: fresh_ranks_def)
    have "vx_halt (enter_superstep r) = 1" using flags r unfolding all_flags_def by auto
    then have "\<nexists>u. active r u" using some_active [OF ok(1)] by (auto split: if_splits)
    then show ?thesis using ok(2) by (auto simp: settled_def)
  qed
  ultimately show ?thesis unfolding run_inv_def by (cases rs) auto
qed

lemma finite_edges_of: "finite (edges_of rs)"
proof -
  have "finite {u. targets q u \<noteq> {}}" for q :: "('a, 'b, 'c) vertex"
  proof (rule finite_subset)
    show "{u. targets q u \<noteq> {}} \<subseteq> fst ` set (vx_adj q)"
    proof
      fix u assume "u \<in> {u. targets q u \<noteq> {}}"
      then have "dict_get (vx_adj q) u \<noteq> None"
        by (cases "dict_get (vx_adj q) u") (auto simp: targets_def vx_edges_def)
      then show "u \<in> fst ` set (vx_adj q)" by (simp add: dict_has_iff [symmetric] dict_has_def)
    qed
  qed simp
  then have "finite (Sigma {u. targets q u \<noteq> {}} (targets q))" for q :: "('a, 'b, 'c) vertex"
    by (intro finite_SigmaI) (auto simp: targets_def)
  moreover have "edges_of rs = (\<Union>q \<in> set rs. Sigma {u. targets q u \<noteq> {}} (targets q))"
    by (auto simp: edges_of_def)
  ultimately show ?thesis by simp
qed

lemma finite_reaching: "finite E \<Longrightarrow> finite (reaching E idv u)"
proof -
  assume "finite E"
  then have "finite (E\<^sup>+)" by simp
  then have "finite {x. (x, u) \<in> E\<^sup>+}" by (rule finite_subset [rotated, OF finite_imageI]) force
  then show "finite (reaching E idv u)" by (simp add: reaching_def setcompr_eq_image)
qed

text \<open>At the end the values are the greatest that reach a vertex.\<close>

lemma run_inv_final:
  assumes inv: "run_inv E idv S rs" and E: "E = edges_of rs"
    and fin: "\<forall>r \<in> set rs. vx_pc r = Finished" and r: "r \<in> set rs" "u \<in> held r"
  shows "vx_value r u = Max (reaching E idv u)"
proof (rule Max_eqI [symmetric])
  have ri: "\<forall>r \<in> set rs. rank_inv E idv S r" and so: "\<forall>k y. S k = Some y \<longrightarrow> y \<in> reaching E idv k"
    and se: "\<forall>r \<in> set rs. settled S r"
    using inv fin unfolding run_inv_def by auto
  have val: "S u = Some (vx_value r u)" if "r \<in> set rs" "u \<in> held r" for r u
    using se that by (simp add: settled_def)
  have edge: "(\<exists>y. S v = Some y \<and> idv u \<le> y) \<and> (\<forall>z. S u = Some z \<longrightarrow> (\<exists>y. S v = Some y \<and> z \<le> y))"
    if uv: "(u, v) \<in> E" for u v
  proof -
    obtain r where r: "r \<in> set rs" "v \<in> targets r u" using uv E by (auto simp: edges_of_def)
    have ok: "vx_ok r" using ri r(1) by (simp add: rank_inv_def)
    have h: "u \<in> held r" by (rule vx_ok_keys(2) [OF ok r(2)])
    have "\<not> active r u" using se r(1) h by (simp add: settled_def)
    then have "sent S r v (idv u) \<and> sent S r v (vx_value r u)"
      using ri r by (auto simp: rank_inv_def)
    moreover have "outbox r = []" using fin r(1) by (simp add: pc_now)
    ultimately show ?thesis using val [OF r(1) h] by (simp add: sent_def arrived_def)
  qed
  have le: "\<exists>y. S v = Some y \<and> idv x \<le> y" if "(x, v) \<in> E\<^sup>+" for x v
    using that
  proof induction
    case (base v)
    then show ?case using edge by blast
  next
    case (step v v')
    then show ?case using edge by (meson order_trans)
  qed
  show "vx_value r u \<in> reaching E idv u" using so val [OF r] by blast
  show "x \<le> vx_value r u" if "x \<in> reaching E idv u" for x
    using that le val [OF r] by (fastforce simp: reaching_def)
  show "finite (reaching E idv u)" by (simp add: E finite_reaching finite_edges_of)
qed

section \<open>Progress\<close>

text \<open>
  Every step brings a run closer to its end: the servers rise, or the ranks come to agree with
  them and fall silent (\<open>level\<close>), or a rank gets on in its superstep (\<open>weight\<close>).
\<close>

definition gaps :: "(string \<times> string) set \<Rightarrow> (string \<Rightarrow> 'x :: linorder) \<Rightarrow> (string \<Rightarrow> 'x option) \<Rightarrow> nat" where
  "gaps E idv S = (\<Sum>k \<in> Range E. card {y \<in> reaching E idv k. \<not> arrived S k y})"

definition unsettled :: "(string \<Rightarrow> 'x option) \<Rightarrow> ('x, 'v, 'd) vertex \<Rightarrow> bool" where
  "unsettled S r \<longleftrightarrow> (\<exists>u \<in> held r. S u \<noteq> Some (vx_value r u) \<or> voted r u \<and> active r u)"

definition level :: "(string \<Rightarrow> 'x option) \<Rightarrow> ('x, 'v, 'd) vertex list \<Rightarrow> nat" where
  "level S rs =
     (if \<exists>r \<in> set rs. 3 \<le> stage (vx_pc r) then 0
      else if \<exists>r \<in> set rs. unsettled S r then 3
      else if (\<exists>r \<in> set rs. stage (vx_pc r) = 2) \<or> \<not> all_flags rs then 2 else 1)"

definition weight :: "('x, 'v, 'd) vertex \<Rightarrow> nat" where
  "weight r = (case vx_pc r of
      Compute cs \<Rightarrow> length cs + length (vx_act r) + 6 | Sync1 \<Rightarrow> length (vx_act r) + 5
    | Vote vs \<Rightarrow> length vs + 4 | Reduce \<Rightarrow> 3 | Sync2 \<Rightarrow> 2 | Sync3 \<Rightarrow> 1 | Finished \<Rightarrow> 0)"

definition to_do ::
  "(string \<times> string) set \<Rightarrow> (string \<Rightarrow> 'x :: linorder) \<Rightarrow> (string \<Rightarrow> 'x option) \<Rightarrow> ('x, 'v, 'd) vertex list \<Rightarrow>
     nat \<times> nat \<times> nat"
where
  "to_do E idv S rs = (gaps E idv S, level S rs, sum_list (map weight rs))"

abbreviation closer :: "((nat \<times> nat \<times> nat) \<times> nat \<times> nat \<times> nat) set" where
  "closer \<equiv> less_than <*lex*> less_than <*lex*> less_than"

lemma gaps_raise:
  assumes "finite E" "x \<in> reaching E idv nb" "raise_at nb x S \<noteq> S"
  shows "gaps E idv (raise_at nb x S) < gaps E idv S"
  unfolding gaps_def
proof (rule sum_strict_mono_ex1)
  let ?gap = "\<lambda>S k. {y \<in> reaching E idv k. \<not> arrived S k y}"
  have sub: "?gap (raise_at nb x S) k \<subseteq> ?gap S k" for k
    using arrived_mono [of S k _ "raise_at nb x S"] raise_at_mono by fast
  have fin: "finite (?gap S k)" for S k using finite_reaching [OF assms(1), of idv k] by simp
  show "finite (Range E)" using assms(1) by (rule finite_Range)
  show "\<forall>k \<in> Range E. card (?gap (raise_at nb x S) k) \<le> card (?gap S k)"
    using sub fin by (intro ballI card_mono)
  have "\<not> arrived S nb x"
    using assms(3) by (auto simp: arrived_def raise_at_def max_def fun_eq_iff split: if_splits)
  moreover have "arrived (raise_at nb x S) nb x" by (auto simp: arrived_def raise_at_def split: option.splits)
  ultimately have "?gap (raise_at nb x S) nb \<subset> ?gap S nb" using sub [of nb] assms(2) by blast
  then have "card (?gap (raise_at nb x S) nb) < card (?gap S nb)"
    by (rule psubset_card_mono [OF fin])
  moreover have "nb \<in> Range E" using assms(2) by (auto simp: reaching_def elim: tranclE)
  ultimately show "\<exists>k \<in> Range E. card (?gap (raise_at nb x S) k) < card (?gap S k)" by blast
qed

lemma own_effect_closer:
  assumes "own_effect r S r' S" "rank_inv E idv S r"
  shows "weight r' < weight r" "unsettled S r' \<Longrightarrow> unsettled S r"
proof -
  have v: "v \<in> held r" "v \<notin> set vs" if "vx_pc r = Vote (v # vs)" for v vs
    using that assms(2) by (auto simp: rank_inv_def vx_ok_def held_def)
  show "weight r' < weight r"
    using assms(1) by (auto simp: own_effect_def weight_def)
  show "unsettled S r" if un: "unsettled S r'"
  proof (rule ccontr)
    assume "\<not> unsettled S r"
    then have s: "\<And>u. u \<in> held r \<Longrightarrow> S u = Some (vx_value r u)"
      "\<And>u. u \<in> held r \<Longrightarrow> voted r u \<Longrightarrow> \<not> active r u"
      by (auto simp: unsettled_def)
    show False
      using assms(1) un v s unfolding own_effect_def
      by (elim disjE exE conjE) (auto simp: unsettled_def pc_now split: if_splits)
  qed
qed

lemma sum_list_less:
  fixes f g :: "'a \<Rightarrow> nat"
  assumes "rs \<noteq> []" "\<forall>r \<in> set rs. f r < g r"
  shows "sum_list (map f rs) < sum_list (map g rs)"
  using assms by (induction rs rule: list_nonempty_induct) auto

lemma sum_list_update_less:
  fixes f :: "'a \<Rightarrow> nat"
  assumes "i < length rs" "f r < f (rs ! i)"
  shows "sum_list (map f (rs[i := r])) < sum_list (map f rs)"
  using assms by (induction rs arbitrary: i) (auto split: nat.splits)

lemma own_closer:
  assumes "run_inv E idv S rs" "i < length rs" "own_effect (rs ! i) S r' S'" "finite E"
  shows "(to_do E idv S' (rs[i := r']), to_do E idv S rs) \<in> closer"
proof (cases "S' = S")
  case True
  have mem: "rs ! i \<in> set rs" using assms(2) by simp
  have ri: "rank_inv E idv S (rs ! i)" and so: "\<forall>k y. S k = Some y \<longrightarrow> y \<in> reaching E idv k"
    using assms(1) mem by (simp_all add: run_inv_def)
  note eff = own_effect_rank [OF assms(3) ri so]
  note clo = own_effect_closer [OF assms(3) [unfolded True] ri]
  have sub: "set (rs[i := r']) \<subseteq> insert r' (set rs)" by (rule set_update_subset_insert)
  have same: "(\<forall>r \<in> set (rs[i := r']). Q (stage (vx_pc r)) (vx_halt r)) \<longleftrightarrow>
      (\<forall>r \<in> set rs. Q (stage (vx_pc r)) (vx_halt r))" for Q
    using eff(5,6) assms(2) by (auto simp: all_set_conv_all_nth nth_list_update)
  have "(\<exists>r \<in> set (rs[i := r']). unsettled S r) \<Longrightarrow> (\<exists>r \<in> set rs. unsettled S r)"
    using sub clo(2) mem by blast
  then have "level S (rs[i := r']) \<le> level S rs"
    using same [of "\<lambda>k _. \<not> 3 \<le> k"] same [of "\<lambda>k _. k \<noteq> 2"] same [of "\<lambda>_ h. h = 1"]
    unfolding level_def all_flags_def by auto
  moreover have "sum_list (map weight (rs[i := r'])) < sum_list (map weight rs)"
    by (rule sum_list_update_less [OF assms(2) clo(1)])
  ultimately show ?thesis by (auto simp: to_do_def True)
next
  case False
  have mem: "rs ! i \<in> set rs" using assms(2) by simp
  have ri: "rank_inv E idv S (rs ! i)" using assms(1) mem by (simp add: run_inv_def)
  obtain nb x where "S' = raise_at nb x S" "x \<in> reaching E idv nb"
    using assms(3) False ri by (fastforce simp: own_effect_def rank_inv_def pc_now)
  then show ?thesis using gaps_raise [OF assms(4), of x idv nb S] False by (simp add: to_do_def)
qed

lemma sync_closer:
  assumes "run_inv E idv S rs" "rs \<noteq> []" "b \<in> {Sync1, Sync2, Sync3}" "\<forall>r \<in> set rs. vx_pc r = b"
  shows "(to_do E idv S (map pass_sync rs), to_do E idv S rs) \<in> closer"
proof -
  have ri: "\<forall>r \<in> set rs. rank_inv E idv S r" using assms(1) by (simp add: run_inv_def)
  obtain r0 where r0: "r0 \<in> set rs" using assms(2) by (cases rs) auto
  consider "b = Sync2" | "b = Sync1" | "b = Sync3" using assms(3) by auto
  then show ?thesis
  proof cases
    case 1
    have pass: "pass_sync r = enter_superstep r" if "r \<in> set rs" for r
      using that assms(4) 1 by (simp add: pass_sync_pc)
    have agree: "S u = Some (vx_value r u)" if "r \<in> set rs" "u \<in> held r" for r u
      using ri that assms(4) 1 by (simp add: rank_inv_def pc_now)
    have un: "unsettled S r \<longleftrightarrow> (\<exists>u. active r u)" if r: "r \<in> set rs" for r
    proof -
      have ok: "vx_ok r" using ri r by (simp add: rank_inv_def)
      have "voted r u" for u using r assms(4) 1 by (simp add: pc_now)
      then show ?thesis using agree [OF r] vx_ok_keys(1) [OF ok] by (auto simp: unsettled_def)
    qed
    have after: "\<not> unsettled S (pass_sync r)" if "r \<in> set rs" for r
      using agree [OF that] pass [OF that] by (simp add: unsettled_def)
    have halt: "vx_halt (pass_sync r) = 1 \<longleftrightarrow> \<not> unsettled S r" if r: "r \<in> set rs" for r
    proof -
      have ok: "vx_ok r" using ri r by (simp add: rank_inv_def)
      show ?thesis using pass [OF r] un [OF r] some_active [OF ok] by (simp split: if_splits)
    qed
    have "level S (map pass_sync rs) < level S rs"
      using r0 after halt pass assms(4) 1 by (auto simp: level_def all_flags_def)
    then show ?thesis by (simp add: to_do_def)
  next
    case 2
    have pass: "pass_sync r = r\<lparr>vx_pc := Vote (map fst (vx_act r))\<rparr>" if "r \<in> set rs" for r
      using that assms(4) 2 by (simp add: pass_sync_pc)
    have "unsettled S (pass_sync r) = unsettled S r" "vx_halt (pass_sync r) = vx_halt r"
      "weight (pass_sync r) < weight r" if r: "r \<in> set rs" for r
    proof -
      have "vx_ok r" using ri r by (simp add: rank_inv_def)
      from vx_ok_keys(4) [OF this] have "fst ` set (vx_act r) = held r" by simp
      moreover have "\<not> voted r u" for u using r assms(4) 2 by (simp add: pc_now)
      ultimately show "unsettled S (pass_sync r) = unsettled S r"
        using pass [OF r] by (auto simp: unsettled_def)
      show "vx_halt (pass_sync r) = vx_halt r" "weight (pass_sync r) < weight r"
        using pass [OF r] r assms(4) 2 by (simp_all add: weight_def)
    qed
    moreover from this have "level S (map pass_sync rs) = level S rs"
      using pass assms(4) 2 by (auto simp: level_def all_flags_def)
    ultimately show ?thesis
      using sum_list_less [OF assms(2), of "\<lambda>r. weight (pass_sync r)" weight] by (simp add: to_do_def o_def)
  next
    case 3
    have pass: "pass_sync r = r\<lparr>vx_pc := Finished\<rparr>" if "r \<in> set rs" for r
      using that assms(4) 3 by (simp add: pass_sync_pc)
    have "level S (map pass_sync rs) = 0" "level S rs = 0"
      using r0 pass assms(4) 3 by (auto simp: level_def)
    moreover have "\<forall>r \<in> set rs. weight (pass_sync r) < weight r"
      using pass assms(4) 3 by (simp add: weight_def)
    ultimately show ?thesis
      using sum_list_less [OF assms(2), of "\<lambda>r. weight (pass_sync r)" weight] by (simp add: to_do_def o_def)
  qed
qed

lemma reduce_closer:
  assumes "run_inv E idv S rs" "rs \<noteq> []" "\<forall>r \<in> set rs. vx_pc r = Reduce"
  shows "(to_do E idv S (map (after_reduce (sum_list (map vx_halt rs)) (length rs)) rs), to_do E idv S rs) \<in> closer"
proof -
  let ?f = "after_reduce (sum_list (map vx_halt rs)) (length rs)"
  have ri: "\<forall>r \<in> set rs. rank_inv E idv S r" using assms(1) by (simp add: run_inv_def)
  have flags: "sum_list (map vx_halt rs) = int (length rs) \<longleftrightarrow> all_flags rs"
    using flags_sum [of rs] ri assms(3) by (auto simp: rank_inv_def)
  obtain r0 where r0: "r0 \<in> set rs" using assms(2) by (cases rs) auto
  have "unsettled S (?f r) = unsettled S r" if "r \<in> set rs" for r
    using that assms(3) by (simp add: unsettled_def pc_now)
  then have "level S (map ?f rs) \<le> level S rs"
    using r0 flags assms(3) by (cases "all_flags rs") (auto simp: level_def)
  moreover have "\<forall>r \<in> set rs. weight (?f r) < weight r"
    using assms(3) by (simp add: weight_def)
  then have "sum_list (map weight (map ?f rs)) < sum_list (map weight rs)"
    using sum_list_less [OF assms(2), of "\<lambda>r. weight (?f r)" weight] by (simp add: o_def)
  ultimately show ?thesis by (auto simp: to_do_def)
qed

context max_store
begin

lemma own_op_effect:
  assumes "own_op P r w = Some (Inr (r', w'))" "pok (vx_pt r)" "stored w S" "rank_inv E idv S r"
    and "\<forall>(u, v) \<in> E. key_ok v \<and> val_ok (idv u)" "\<forall>u \<in> held r. key_ok u"
  shows "\<exists>S'. own_effect r S r' S' \<and> stored w' S' \<and> pok (vx_pt r')"
  using assms(1)
proof (cases rule: own_op_cases)
  case (compute nb wgt x cs p')
  then have "x \<in> reaching E idv nb" using assms(4) by (auto simp: rank_inv_def pc_now)
  then obtain u where u: "x = idv u" "(u, nb) \<in> E\<^sup>+" by (auto simp: reaching_def)
  then have "key_ok nb" "val_ok x" using assms(5) by (auto elim: tranclE dest: tranclD)
  from send [OF assms(2,3) this, of wgt] compute(2)
  have "pok p'" "stored w' (raise_at nb x S)" by (auto simp: raise_at_def)
  then show ?thesis using compute unfolding own_effect_def by fastforce
next
  case (vote v vs m p')
  then have v: "v \<in> held r" using assms(4) by (auto simp: rank_inv_def vx_ok_def held_def)
  have "S v \<noteq> None"
    using recv_missing [OF assms(2,3) bspec [OF assms(6) v]] vote(2) by auto
  then obtain y where y: "S v = Some y" by blast
  from recv [OF assms(2,3) bspec [OF assms(6) v] y] vote(2)
  have "m = y" "pok p'" "stored w' S" by auto
  then show ?thesis using vote y mutable_same unfolding own_effect_def by auto
qed (use assms in \<open>auto simp: own_effect_def\<close>)

text \<open>The invariant of a run together with the servers.\<close>

lemma ss_step_inv:
  assumes "ss_step P s s'" "run_inv E idv S (ss_ranks s)" "stored (ss_world s) S"
    and "\<forall>r \<in> set (ss_ranks s). pok (vx_pt r)" "names_ok key_ok val_ok idv (ss_ranks s)"
    and "E = edges_of (ss_ranks s)"
  shows "\<exists>S'. run_inv E idv S' (ss_ranks s') \<and> stored (ss_world s') S' \<and>
    (\<forall>r \<in> set (ss_ranks s'). pok (vx_pt r)) \<and>
    (to_do E idv S' (ss_ranks s'), to_do E idv S (ss_ranks s)) \<in> closer"
  using assms(1)
proof cases
  case (own i r w)
  have mem: "ss_ranks s ! i \<in> set (ss_ranks s)" using own(2) by simp
  have ri: "rank_inv E idv S (ss_ranks s ! i)" using assms(2) mem by (simp add: run_inv_def)
  obtain S' where S': "own_effect (ss_ranks s ! i) S r S'" "stored w S'" "pok (vx_pt r)"
    using own_op_effect [OF own(3) _ assms(3) ri] assms(4,5,6) mem by (auto simp: names_ok_def)
  have "\<forall>q \<in> set ((ss_ranks s)[i := r]). pok (vx_pt q)"
    using set_update_subset_insert [of "ss_ranks s" i r] assms(4) S'(3) by blast
  moreover have "(to_do E idv S' ((ss_ranks s)[i := r]), to_do E idv S (ss_ranks s)) \<in> closer"
    by (rule own_closer [OF assms(2) own(2) S'(1)]) (simp add: assms(6) finite_edges_of)
  ultimately show ?thesis
    using own(1) S' run_inv_own [OF assms(2) own(2) S'(1)] by auto
next
  case (sync b)
  then show ?thesis
    using run_inv_sync [OF assms(2) sync(3,4)] sync_closer [OF assms(2) sync(2-4)] assms(3,4) by auto
next
  case reduce
  then show ?thesis
    using run_inv_reduce [OF assms(2) reduce(3)] reduce_closer [OF assms(2) reduce(2,3)] assms(3,4) by auto
qed

lemma ss_reach_inv:
  assumes "ss_reach P rs w s" "fresh_ranks idv rs" "names_ok key_ok val_ok idv rs"
    and "stored w Map.empty" "\<forall>r \<in> set rs. pok (vx_pt r)"
  shows "\<exists>S. run_inv (edges_of rs) idv S (ss_ranks s) \<and> stored (ss_world s) S \<and>
    (\<forall>r \<in> set (ss_ranks s). pok (vx_pt r))"
  using assms(1)
proof induction
  case start
  show ?case
    using run_inv_start [OF assms(2)] assms(4,5) by (auto simp: start_supersteps_def)
next
  case (step s s')
  have "\<forall>r \<in> set rs. vx_ok r" using assms(2) by (simp add: fresh_ranks_def)
  note maps = same_maps_ranks [OF ss_reach_maps [OF step.hyps(1) this]]
  have names: "names_ok key_ok val_ok idv (ss_ranks s)" using maps(2) assms(3) by simp
  from step.IH obtain S where "run_inv (edges_of rs) idv S (ss_ranks s)" "stored (ss_world s) S"
    "\<forall>r \<in> set (ss_ranks s). pok (vx_pt r)" by blast
  from ss_step_inv [OF step.hyps(2) this names maps(1) [symmetric]] show ?case by blast
qed

lemma final_values:
  assumes "ss_reach P rs w s" "fresh_ranks idv rs" "names_ok key_ok val_ok idv rs"
    and "stored w Map.empty" "\<forall>r \<in> set rs. pok (vx_pt r)"
    and "\<forall>r \<in> set (ss_ranks s). vx_pc r = Finished" "r \<in> set (ss_ranks s)" "u \<in> held r"
  shows "vx_value r u = Max (reaching (edges_of rs) idv u)"
proof -
  obtain S where S: "run_inv (edges_of rs) idv S (ss_ranks s)" using ss_reach_inv [OF assms(1-5)] by blast
  have "\<forall>r \<in> set rs. vx_ok r" using assms(2) by (simp add: fresh_ranks_def)
  then have "edges_of (ss_ranks s) = edges_of rs" by (rule same_maps_ranks [OF ss_reach_maps [OF assms(1)]])
  from run_inv_final [OF S this [symmetric] assms(6-8)] show ?thesis .
qed

text \<open>No rank faults, when every vertex has an edge into it: what it reads has been sent.\<close>

lemma no_fault:
  assumes "ss_reach P rs w s" "fresh_ranks idv rs" "names_ok key_ok val_ok idv rs"
    and "stored w Map.empty" "\<forall>r \<in> set rs. pok (vx_pt r)"
    and "\<forall>r \<in> set rs. \<forall>v \<in> held r. v \<in> Range (edges_of rs)" "r \<in> set (ss_ranks s)"
  shows "own_op P r (ss_world s) \<noteq> Some (Inl e)"
proof
  assume fault: "own_op P r (ss_world s) = Some (Inl e)"
  let ?E = "edges_of rs"
  have "\<forall>r \<in> set rs. vx_ok r" using assms(2) by (simp add: fresh_ranks_def)
  then have maps: "list_all2 same_maps rs (ss_ranks s)" by (rule ss_reach_maps [OF assms(1)])
  have "edges_of (ss_ranks s) = ?E" "names_ok key_ok val_ok idv (ss_ranks s)"
    using same_maps_ranks [OF maps] assms(3) by simp_all
  then have edges: "edges_of (ss_ranks s) = ?E" and keys: "\<forall>u \<in> held r. key_ok u"
    and ends: "\<forall>(u, v) \<in> ?E. key_ok v \<and> val_ok (idv u)"
    using assms(7) unfolding names_ok_def by auto
  obtain S where S: "run_inv ?E idv S (ss_ranks s)" "stored (ss_world s) S" "pok (vx_pt r)"
    using ss_reach_inv [OF assms(1-5)] assms(7) by blast
  have ri: "\<forall>r \<in> set (ss_ranks s). rank_inv ?E idv S r" using S(1) by (simp add: run_inv_def)
  show False
  proof (cases "\<exists>nb wgt x cs. vx_pc r = Compute ((nb, wgt, x) # cs)")
    case True
    then obtain nb wgt x cs where pc: "vx_pc r = Compute ((nb, wgt, x) # cs)" by blast
    then have "x \<in> reaching ?E idv nb" using bspec [OF ri assms(7)] by (auto simp: rank_inv_def pc_now)
    then obtain u where "x = idv u" "(u, nb) \<in> ?E\<^sup>+" by (auto simp: reaching_def)
    then have "key_ok nb" "val_ok x" using ends by (auto elim: tranclE dest: tranclD)
    from send [OF S(3,2) this, of wgt] fault pc show False by (auto simp: own_op_def)
  next
    case False
    then obtain v vs where pc: "vx_pc r = Vote (v # vs)"
      using fault by (auto simp: own_op_def split: vpc.splits list.splits)
    then have v: "v \<in> held r" using bspec [OF ri assms(7)] by (auto simp: rank_inv_def vx_ok_def held_def)
    obtain q where "q \<in> set rs" "held q = held r"
    proof -
      obtain i where i: "i < length (ss_ranks s)" "r = ss_ranks s ! i" using assms(7) by (auto simp: in_set_conv_nth)
      then have "rs ! i \<in> set rs" "held (rs ! i) = held r"
        using maps by (simp_all add: list_all2_conv_all_nth same_maps_def held_def)
      then show thesis by (rule that)
    qed
    then obtain x where "(x, v) \<in> ?E" using assms(6) v by blast
    then have "(x, v) \<in> edges_of (ss_ranks s)" by (simp only: edges)
    then obtain q' where q': "q' \<in> set (ss_ranks s)" "v \<in> targets q' x" by (auto simp: edges_of_def)
    have "sent S q' v (idv x)" using ri q' by (auto simp: rank_inv_def)
    moreover have "stage (vx_pc q') = 1"
      using S(1) q'(1) assms(7) pc unfolding run_inv_def by force
    then have "outbox q' = []" by (auto simp: outbox_def split: vpc.splits)
    ultimately obtain y where "S v = Some y" by (auto simp: sent_def arrived_def)
    from recv [OF S(3,2) bspec [OF keys v] this] fault pc show False by (auto simp: own_op_def)
  qed
qed

lemma no_endless_run:
  assumes "run_inv E idv S (ss_ranks s)" "stored (ss_world s) S" "\<forall>r \<in> set (ss_ranks s). pok (vx_pt r)"
    and "\<forall>r \<in> set (ss_ranks s). vx_ok r" "names_ok key_ok val_ok idv (ss_ranks s)" "E = edges_of (ss_ranks s)"
    and "f 0 = s" "\<forall>i. ss_step P (f i) (f (Suc i))"
  shows False
proof -
  have "wf closer" by (intro wf_lex_prod wf_less_than)
  then show False using assms
  proof (induction "to_do E idv S (ss_ranks s)" arbitrary: S s f rule: wf_induct_rule)
    case less
    have st: "ss_step P s (f 1)" using less.prems(7,8) by (metis One_nat_def)
    obtain S' where S': "run_inv E idv S' (ss_ranks (f 1))" "stored (ss_world (f 1)) S'"
      "\<forall>r \<in> set (ss_ranks (f 1)). pok (vx_pt r)"
      "(to_do E idv S' (ss_ranks (f 1)), to_do E idv S (ss_ranks s)) \<in> closer"
      using ss_step_inv [OF st less.prems(1,2,3,5,6)] by blast
    have maps: "list_all2 same_maps (ss_ranks s) (ss_ranks (f 1))" by (rule ss_step_maps [OF st less.prems(4)])
    have "\<forall>r \<in> set (ss_ranks (f 1)). vx_ok r" using S'(1) by (simp add: run_inv_def rank_inv_def)
    moreover have "names_ok key_ok val_ok idv (ss_ranks (f 1))" "E = edges_of (ss_ranks (f 1))"
      using same_maps_ranks [OF maps] less.prems(5,6) by simp_all
    ultimately show False
      by (rule less.hyps [OF S'(4,1-3), of "\<lambda>i. f (Suc i)"]) (use less.prems(8) in simp_all)
  qed
qed

lemma runs_end:
  assumes "fresh_ranks idv rs" "names_ok key_ok val_ok idv rs" "stored w Map.empty" "\<forall>r \<in> set rs. pok (vx_pt r)"
  shows "wf {(s', s). ss_reach P rs w s \<and> ss_step P s s'}"
  unfolding wf_iff_no_infinite_down_chain
proof
  assume "\<exists>f. \<forall>i. (f (Suc i), f i) \<in> {(s', s). ss_reach P rs w s \<and> ss_step P s s'}"
  then obtain f where f: "ss_reach P rs w (f 0)" "\<forall>i. ss_step P (f i) (f (Suc i))" by blast
  have ok: "\<forall>r \<in> set rs. vx_ok r" using assms(1) by (simp add: fresh_ranks_def)
  note maps = same_maps_ranks [OF ss_reach_maps [OF f(1) ok]]
  obtain S where S: "run_inv (edges_of rs) idv S (ss_ranks (f 0))" "stored (ss_world (f 0)) S"
    "\<forall>r \<in> set (ss_ranks (f 0)). pok (vx_pt r)"
    using ss_reach_inv [OF f(1) assms] by blast
  have "\<forall>r \<in> set (ss_ranks (f 0)). vx_ok r" using S(1) by (simp add: run_inv_def rank_inv_def)
  from no_endless_run [OF S this _ maps(1) [symmetric] refl f(2)] maps(2) assms(2) show False by simp
qed

lemma never_stuck:
  assumes "ss_reach P rs w s" "fresh_ranks idv rs" "names_ok key_ok val_ok idv rs"
    and "stored w Map.empty" "\<forall>r \<in> set rs. pok (vx_pt r)" "rs \<noteq> []"
    and "\<forall>r \<in> set rs. \<forall>v \<in> held r. v \<in> Range (edges_of rs)"
  shows "(\<forall>r \<in> set (ss_ranks s). vx_pc r = Finished) \<or> (\<exists>s'. ss_step P s s')"
proof -
  have "\<forall>r \<in> set rs. vx_ok r" using assms(2) by (simp add: fresh_ranks_def)
  then have "length rs = length (ss_ranks s)" by (rule list_all2_lengthD [OF ss_reach_maps [OF assms(1)]])
  then have "ss_ranks s \<noteq> []" using assms(6) by auto
  moreover obtain k where "\<forall>r \<in> set (ss_ranks s). stage (vx_pc r) = k"
    using ss_reach_stage [OF assms(1)] by blast
  ultimately have "(\<forall>r \<in> set (ss_ranks s). vx_pc r = Finished) \<or> (\<exists>s'. ss_step P s s') \<or>
      (\<exists>r \<in> set (ss_ranks s). \<exists>e. own_op P r (ss_world s) = Some (Inl e))"
    by (rule ss_progress)
  then show ?thesis using no_fault [OF assms(1-5,7)] by metis
qed

lemma some_end:
  assumes "fresh_ranks idv rs" "names_ok key_ok val_ok idv rs" "stored w Map.empty"
    and "\<forall>r \<in> set rs. pok (vx_pt r)" "rs \<noteq> []" "\<forall>r \<in> set rs. \<forall>v \<in> held r. v \<in> Range (edges_of rs)"
  shows "\<exists>s. ss_reach P rs w s \<and> (\<forall>r \<in> set (ss_ranks s). vx_pc r = Finished)"
proof -
  have "ss_reach P rs w s \<Longrightarrow> \<exists>s. ss_reach P rs w s \<and> (\<forall>r \<in> set (ss_ranks s). vx_pc r = Finished)" for s
  proof (induction s rule: wf_induct_rule [OF runs_end [OF assms(1-4)]])
    case (1 s)
    consider "\<forall>r \<in> set (ss_ranks s). vx_pc r = Finished" | s' where "ss_step P s s'"
      using never_stuck [OF "1.prems" assms] by blast
    then show ?case
    proof cases
      case 2
      then have "(s', s) \<in> {(s', s). ss_reach P rs w s \<and> ss_step P s s'}" using "1.prems" by simp
      moreover have "ss_reach P rs w s'" by (rule ss_reach.step [OF "1.prems" 2])
      ultimately show ?thesis by (rule "1.IH")
    qed (use "1.prems" in blast)
  qed
  from this [OF ss_reach.start] show ?thesis .
qed

end

section \<open>The model of the servers provides it\<close>

lemma local_update_max: "local_update a b = max a b"
  by (auto simp: local_update_def max_def)

text \<open>The union of the servers' tables is the packed form of a map of values.\<close>

definition stores ::
  "env \<Rightarrow> 'v vcodec \<Rightarrow> (string \<Rightarrow> (nat \<times> nat) option) \<Rightarrow> nat \<Rightarrow> (string \<Rightarrow> nat) \<Rightarrow>
     kvclt list \<times> node list \<Rightarrow> (string \<Rightarrow> ('v :: linorder) option) \<Rightarrow> bool"
where
  "stores E V addr n srv w S \<longleftrightarrow> wire_env E \<and> upd_env E V mvv_fn local_update \<and> sinv addr n w \<and>
     (\<forall>k. str_wire (env_mp E) k \<longrightarrow> global_view sview srv w k = map_option (pk_pack (venc V)) (S k)) \<and>
     (\<forall>k y. S k = Some y \<longrightarrow> wire_ok (venc V) (vdec V) y)"

definition worker_of :: "(string \<Rightarrow> u64) \<Rightarrow> nat \<Rightarrow> (string \<Rightarrow> nat) \<Rightarrow> 'v paralg \<Rightarrow> bool" where
  "worker_of hf n srv p \<longleftrightarrow> routes hf n p \<and> server_of hf p = srv \<and> \<not> ssp_switch p"

context kv_updates
begin

lemma read_missing:
  "inv w \<Longrightarrow> routes hf n p \<Longrightarrow> key_ok k \<Longrightarrow> \<not> ssp_switch p \<Longrightarrow>
     global_view view (server_of hf p) w k = None \<Longrightarrow> paracel_read K hf fuel k p w = Inl AssertFailed"
  using pull_missing [of w "server_of hf p k" k] routes_server [of hf n p k]
  by (simp add: paracel_read_def ps_route_ok global_view_def)

end

interpretation mvv: max_store "mvv_prog (client_kvm (env_mp E) (cluster_zmq E addr) V) hf fuel"
    "worker_of hf n srv" "stores E V addr n srv" "str_wire (env_mp E)" "wire_ok (venc V) (vdec V)"
  for E addr V hf fuel n srv
proof (unfold_locales, goal_cases)
  case (1 p w S k x d)
  have "\<exists>w'. paracel_bupdate (client_kvm (env_mp E) (cluster_zmq E addr) V) hf k x (Some mvv_fn) p w =
      Inr (True, p, w') \<and> (wire_env E \<and> upd_env E V mvv_fn local_update \<and> sinv addr n w') \<and>
      global_view sview (server_of hf p) w' = (global_view sview (server_of hf p) w)
        (k \<mapsto> pk_pack (venc V) (case S k of None \<Rightarrow> x | Some v \<Rightarrow> local_update v x))"
    by (rule svu.bupdate_global) (use 1 in \<open>auto simp: worker_of_def stores_def local_update_def\<close>)
  then obtain w' where w': "paracel_bupdate (client_kvm (env_mp E) (cluster_zmq E addr) V) hf k x (Some mvv_fn) p w =
      Inr (True, p, w')" "sinv addr n w'"
    "global_view sview srv w' = (global_view sview srv w)
        (k \<mapsto> pk_pack (venc V) (case S k of None \<Rightarrow> x | Some v \<Rightarrow> local_update v x))"
    using 1(1) by (auto simp: worker_of_def)
  have "stores E V addr n srv w' (S(k \<mapsto> (case S k of None \<Rightarrow> x | Some y \<Rightarrow> max y x)))"
    using 1 w'(2,3) by (auto simp: stores_def local_update_max max_def split: option.splits)
  then show ?case using 1(1) w'(1) by (auto simp: mvv_prog_def mvv_compute_def)
next
  case (2 p w S k y)
  have "\<exists>w'. paracel_read (client_kvm (env_mp E) (cluster_zmq E addr) V) hf fuel k p w = Inr (y, p, w') \<and>
      (wire_env E \<and> upd_env E V mvv_fn local_update \<and> sinv addr n w') \<and>
      global_view sview (server_of hf p) w' = global_view sview (server_of hf p) w"
    by (rule svu.read_refines) (use 2 in \<open>auto simp: worker_of_def stores_def\<close>)
  then show ?case using 2 by (auto simp: mvv_prog_def stores_def worker_of_def)
next
  case (3 p w S k)
  then have "paracel_read (client_kvm (env_mp E) (cluster_zmq E addr) V) hf fuel k p w = Inl AssertFailed"
    by (intro svu.read_missing [of E V mvv_fn local_update addr n]) (auto simp: worker_of_def stores_def)
  then show ?case by (simp add: mvv_prog_def)
next
  case (4 x)
  show ?case by (simp add: mvv_prog_def mvv_mutable_value_def)
qed

section \<open>Ranks from graphs\<close>

definition first_val :: "'v dbl \<Rightarrow> string \<Rightarrow> 'v" where
  "first_val D u = projr (stod D u)"

definition all_edges :: "('v paralg \<times> (string, 'd) digraph) list \<Rightarrow> (string \<times> string) set" where
  "all_edges pgs = {(u, v). \<exists>(p, g) \<in> set pgs. wgt_of (adj g) u v \<noteq> None}"

text \<open>
  The ranks of a program, each with its connection and its part of the graph, before the first
  superstep: the servers hold no vertex, identifiers read as values, both cross the wire whole.
\<close>

definition mvv_setup ::
  "env \<Rightarrow> ('v :: linorder) vcodec \<Rightarrow> (string \<Rightarrow> (nat \<times> nat) option) \<Rightarrow> nat \<Rightarrow> (string \<Rightarrow> u64) \<Rightarrow>
     (string \<Rightarrow> nat) \<Rightarrow> 'v dbl \<Rightarrow> ('v paralg \<times> (string, 'd) digraph) list \<Rightarrow> ('v, 'v, 'd) vertex list \<Rightarrow>
     kvclt list \<times> node list \<Rightarrow> bool"
where
  "mvv_setup E V addr n hf srv D pgs rs w \<longleftrightarrow>
     stores E V addr n srv w Map.empty \<and> rs \<noteq> [] \<and>
     rmapM (\<lambda>(p, g). init_vars_vertex (stod D) (bare_vertex p g)) pgs = Inr rs \<and>
     (\<forall>(p, g) \<in> set pgs. worker_of hf n srv p \<and> dg_inv g \<and>
       (\<forall>u \<in> fst ` set (adj g). str_wire (env_mp E) u \<and>
         (\<forall>x. stod D u = Inr x \<longrightarrow> wire_ok (venc V) (vdec V) x)))"

lemma init_values:
  assumes "rfold (\<lambda>(v, _) m. rbind (fv v) (\<lambda>x. Inr (dict_set v x m))) a m = Inr m'"
  shows "fst ` set m' = fst ` set a \<union> fst ` set m" "u \<in> fst ` set a \<Longrightarrow> \<exists>x. fv u = Inr x"
    "dict_get m' u = (if u \<in> fst ` set a then Some (projr (fv u)) else dict_get m u)"
proof -
  have "fst ` set m' = fst ` set a \<union> fst ` set m \<and> (u \<in> fst ` set a \<longrightarrow> (\<exists>x. fv u = Inr x)) \<and>
      dict_get m' u = (if u \<in> fst ` set a then Some (projr (fv u)) else dict_get m u)"
    using assms
  proof (induction a arbitrary: m)
    case (Cons p a)
    obtain v d where p: "p = (v, d)" by (cases p)
    obtain x where x: "fv v = Inr x"
      "rfold (\<lambda>(v, _) m. rbind (fv v) (\<lambda>x. Inr (dict_set v x m))) a (dict_set v x m) = Inr m'"
      using Cons.prems by (auto simp: p res_simps)
    from Cons.IH [OF x(2)] show ?case using x(1) by (auto simp: p dict_keys_set)
  qed simp
  then show "fst ` set m' = fst ` set a \<union> fst ` set m" "u \<in> fst ` set a \<Longrightarrow> \<exists>x. fv u = Inr x"
    "dict_get m' u = (if u \<in> fst ` set a then Some (projr (fv u)) else dict_get m u)" by blast+
qed

lemma init_vars_fresh:
  assumes "init_vars_vertex fv (bare_vertex p g) = Inr r"
  shows "vx_pt r = p" "held r = fst ` set (adj g)" "vx_ok r"
    "u \<in> held r \<Longrightarrow> (\<exists>x. fv u = Inr x) \<and> vx_value r u = projr (fv u) \<and> active r u"
    "targets r u = (if u \<in> held r then {v. wgt_of (adj g) u v \<noteq> None} else {})"
proof -
  obtain m where m: "rfold (\<lambda>(v, _) m. rbind (fv v) (\<lambda>x. Inr (dict_set v x m))) (adj g) [] = Inr m"
    "r = fill_maps ((bare_vertex p g)\<lparr>vx_val := m\<rparr>)"
    using assms by (auto simp: init_vars_vertex_def bare_vertex_def res_simps)
  have e: "vx_adj ((bare_vertex p g)\<lparr>vx_val := m\<rparr>) = []" "vx_act ((bare_vertex p g)\<lparr>vx_val := m\<rparr>) = []"
    by (simp_all add: bare_vertex_def)
  note sel = fill_maps_sel [OF e, folded m(2)]
  note vals = init_values [OF m(1)]
  show "vx_pt r = p" by (simp add: sel bare_vertex_def)
  show h: "held r = fst ` set (adj g)" using vals(1) by (simp add: held_def sel)
  show "vx_ok r" using vx_ok_init(1) [OF assms] .
  show "(\<exists>x. fv u = Inr x) \<and> vx_value r u = projr (fv u) \<and> active r u" if "u \<in> held r"
    using that vals(1,2,3) by (auto simp: h vx_value_def active_def sel)
  have "vx_edges r u = (if u \<in> held r then adj_at (adj g) u else [])"
    using vals(1) unfolding vx_edges_def sel h by (simp add: bare_vertex_def)
  then show "targets r u = (if u \<in> held r then {v. wgt_of (adj g) u v \<noteq> None} else {})"
    by (simp add: targets_def wgt_of_def set_eq_iff dict_has_iff [symmetric] dict_has_def del: image_iff)
qed

lemma mvv_setup_ranks:
  assumes "mvv_setup E V addr n hf srv D pgs rs w"
  shows "fresh_ranks (first_val D) rs" "names_ok (str_wire (env_mp E)) (wire_ok (venc V) (vdec V)) (first_val D) rs"
    "edges_of rs = all_edges pgs" "\<forall>r \<in> set rs. worker_of hf n srv (vx_pt r)"
    "length rs = length pgs" "\<And>i. i < length pgs \<Longrightarrow> held (rs ! i) = fst ` set (adj (snd (pgs ! i)))"
    "\<And>u. (\<exists>v. (u, v) \<in> all_edges pgs) \<Longrightarrow> stod D u = Inr (first_val D u)"
proof -
  have init: "rmapM (\<lambda>(p, g). init_vars_vertex (stod D) (bare_vertex p g)) pgs = Inr rs"
    and each: "\<forall>(p, g) \<in> set pgs. worker_of hf n srv p \<and> dg_inv g \<and>
       (\<forall>u \<in> fst ` set (adj g). str_wire (env_mp E) u \<and>
         (\<forall>x. stod D u = Inr x \<longrightarrow> wire_ok (venc V) (vdec V) x))"
    using assms unfolding mvv_setup_def by blast+
  show len: "length rs = length pgs" by (rule rmapM_length [OF init])
  have rank: "init_vars_vertex (stod D) (bare_vertex (fst (pgs ! i)) (snd (pgs ! i))) = Inr (rs ! i)"
    if "i < length pgs" for i
    using rmapM_nth [OF init that] by (simp add: case_prod_unfold)
  note fresh = init_vars_fresh [OF rank]
  show h: "held (rs ! i) = fst ` set (adj (snd (pgs ! i)))" if "i < length pgs" for i
    by (rule fresh(2) [OF that])
  have each': "worker_of hf n srv (fst (pgs ! i)) \<and> dg_inv (snd (pgs ! i)) \<and>
       (\<forall>u \<in> held (rs ! i). str_wire (env_mp E) u \<and> wire_ok (venc V) (vdec V) (first_val D u))"
    if "i < length pgs" for i
    using each nth_mem [OF that] h [OF that] fresh(4) [OF that]
    by (fastforce simp: case_prod_unfold first_val_def)
  have tg: "targets (rs ! i) u = {v. wgt_of (adj (snd (pgs ! i))) u v \<noteq> None}"
    "v \<in> targets (rs ! i) u \<Longrightarrow> u \<in> held (rs ! i) \<and> v \<in> held (rs ! i)" if i: "i < length pgs" for i u v
  proof -
    have inv: "wgt_of (adj (snd (pgs ! i))) u v \<noteq> None \<Longrightarrow> u \<in> held (rs ! i) \<and> v \<in> held (rs ! i)" for v
      using each' [OF i] h [OF i] by (auto simp: dg_inv_def dict_has_iff)
    then show t: "targets (rs ! i) u = {v. wgt_of (adj (snd (pgs ! i))) u v \<noteq> None}"
    proof (cases "u \<in> held (rs ! i)")
      case False
      then have "wgt_of (adj (snd (pgs ! i))) u v = None" for v
        using inv [of v] by (cases "wgt_of (adj (snd (pgs ! i))) u v") simp_all
      then show ?thesis using fresh(5) [OF i, of u] False by simp
    qed (use fresh(5) [OF i, of u] in simp)
    show "u \<in> held (rs ! i) \<and> v \<in> held (rs ! i)" if "v \<in> targets (rs ! i) u"
      using inv [of v] that t by blast
  qed
  show "fresh_ranks (first_val D) rs"
    using fresh(3,4) len by (auto simp: fresh_ranks_def all_set_conv_all_nth first_val_def)
  show "\<forall>r \<in> set rs. worker_of hf n srv (vx_pt r)"
    using fresh(1) each' len by (auto simp: all_set_conv_all_nth)
  have edge: "(u, v) \<in> edges_of rs \<longleftrightarrow> (\<exists>i < length pgs. v \<in> targets (rs ! i) u)" for u v
    using len nth_mem [of _ rs] by (fastforce simp: edges_of_def in_set_conv_nth)
  have "(u, v) \<in> all_edges pgs \<longleftrightarrow> (\<exists>i < length pgs. wgt_of (adj (snd (pgs ! i))) u v \<noteq> None)" for u v
    by (simp only: all_edges_def mem_Collect_eq case_prod_conv in_set_conv_nth case_prod_unfold Bex_def fst_conv snd_conv) blast
  then show edges: "edges_of rs = all_edges pgs"
    using edge tg(1) by (auto simp: set_eq_iff)
  have ends: "\<exists>i < length pgs. u \<in> held (rs ! i) \<and> v \<in> held (rs ! i)" if "(u, v) \<in> edges_of rs" for u v
    using that edge tg(2) by blast
  have "str_wire (env_mp E) v \<and> wire_ok (venc V) (vdec V) (first_val D u)" if "(u, v) \<in> edges_of rs" for u v
    using ends [OF that] each' by blast
  moreover have "str_wire (env_mp E) u" if "r \<in> set rs" "u \<in> held r" for r u
    using that each' len by (auto simp: in_set_conv_nth)
  ultimately show "names_ok (str_wire (env_mp E)) (wire_ok (venc V) (vdec V)) (first_val D) rs"
    unfolding names_ok_def by blast
  show "stod D u = Inr (first_val D u)" if out: "\<exists>v. (u, v) \<in> all_edges pgs" for u
  proof -
    obtain i where "i < length pgs" "u \<in> held (rs ! i)" using out ends edges by metis
    then show ?thesis using fresh(4) [of i u] by (auto simp: first_val_def)
  qed
qed

abbreviation mvv_run ::
  "env \<Rightarrow> (string \<Rightarrow> (nat \<times> nat) option) \<Rightarrow> 'v vcodec \<Rightarrow> (string \<Rightarrow> u64) \<Rightarrow> nat \<Rightarrow>
     ('v, 'v, 'd, kvclt list \<times> node list) vprog"
where
  "mvv_run E addr V hf fuel \<equiv> mvv_prog (client_kvm (env_mp E) (cluster_zmq E addr) V) hf fuel"

section \<open>One concrete run\<close>

text \<open>Two vertices on a cycle, one rank, one server, natural numbers as values.\<close>

definition mvv_codec :: "nat vcodec" where
  "mvv_codec = \<lparr>venc = to_string, vdec = (\<lambda>s. Some (digits_val s))\<rparr>"

definition mvv_env :: env where
  "mvv_env = plain_env\<lparr>env_dl_update := (\<lambda>_ _. Some (max_updater mvv_codec))\<rparr>"

definition mvv_graphs :: "(nat paralg \<times> (string, nat) digraph) list" where
  "mvv_graphs = [(plain_worker, dg_of_triples [(''1'', ''2'', 1), (''2'', ''1'', 1)])]"

definition mvv_ranks :: "(nat, nat, nat) vertex list" where
  "mvv_ranks = (case rmapM (\<lambda>(p, g). init_vars_vertex (stod nat_dbl) (bare_vertex p g)) mvv_graphs of
     Inr rs \<Rightarrow> rs | Inl _ \<Rightarrow> [])"

lemma mvv_adj: "adj (snd (hd mvv_graphs)) = [(''1'', [(''2'', 1)]), (''2'', [(''1'', 1)])]"
  by (simp add: mvv_graphs_def dg_of_triples_def dg_add_edge_def empty_digraph_def adj_put_def adj_touch_def
      adj_at_def dict_set_def dict_has_def)

lemma mvv_edges: "all_edges mvv_graphs = {(''1'', ''2''), (''2'', ''1'')}"
  using mvv_adj
  by (auto simp: all_edges_def mvv_graphs_def wgt_of_def adj_at_def split: if_splits)

lemma mvv_stod: "stod nat_dbl ''1'' = Inr 1" "stod nat_dbl ''2'' = Inr 2"
  by (simp_all add: stod_def nat_dbl_def is_digit_def digits_val_def digit_val_def of_opt_def)

lemma mvv_init: "rmapM (\<lambda>(p, g). init_vars_vertex (stod nat_dbl) (bare_vertex p g)) mvv_graphs = Inr mvv_ranks"
  "mvv_ranks \<noteq> []"
  using mvv_adj mvv_stod
  by (simp_all add: mvv_ranks_def mvv_graphs_def init_vars_vertex_def bare_vertex_def)

lemma mvv_wire:
  "upd_env mvv_env mvv_codec mvv_fn local_update" "wire_env mvv_env"
  "u \<in> {''1'', ''2''} \<Longrightarrow> str_wire (env_mp mvv_env) u"
  "x \<in> {1, 2} \<Longrightarrow> wire_ok (venc mvv_codec) (vdec mvv_codec) x"
proof -
  have mp: "env_mp mvv_env = plain_msgpack" by (simp add: mvv_env_def)
  have c: "\<forall>s \<in> {fst mvv_fn, snd mvv_fn, ''1'', ''2''}. clean seperator (pk_pack (\<lambda>s. s) s)"
    by (simp add: mvv_fn_def pk_pack_def le_encode_numeral, simp add: char_of_def,
        simp add: clean_Cons, simp add: seperator_def)
  have str: "str_wire plain_msgpack s" if "s \<in> {fst mvv_fn, snd mvv_fn, ''1'', ''2''}" for s
    using plain_wire [of s] c that by (auto simp: mvv_fn_def)
  then show "upd_env mvv_env mvv_codec mvv_fn local_update" "u \<in> {''1'', ''2''} \<Longrightarrow> str_wire (env_mp mvv_env) u"
    by (auto simp: upd_env_def mp max_updater_def mvv_env_def)
  show "wire_env mvv_env" using wire_env_plain by (simp add: wire_env_def mvv_env_def del: plain_msgpack_simps)
  have "to_string 1 = ''1''" "to_string 2 = ''2''" by (simp_all add: to_string.simps char_of_def bit_0)
  then show "wire_ok (venc mvv_codec) (vdec mvv_codec) x" if "x \<in> {1, 2}"
    using that c by (auto simp: wire_ok_def mvv_codec_def packable_def pk_pack_def digits_val_def digit_val_def)
qed

lemma mvv_ready:
  "mvv_setup mvv_env mvv_codec plain_addr 1 (\<lambda>s. word_of_nat (length s)) (\<lambda>_. 0) nat_dbl
     mvv_graphs mvv_ranks plain_world"
proof -
  have "stores mvv_env mvv_codec plain_addr 1 (\<lambda>_. 0) plain_world (Map.empty :: string \<Rightarrow> nat option)"
    using mvv_wire(1,2) plain_sinv(1)
    by (simp add: stores_def global_view_def sview_def plain_world_def kvs_get_def new_node_def)
  moreover have "worker_of (\<lambda>s. word_of_nat (length s)) 1 (\<lambda>_. 0) plain_worker"
    unfolding worker_of_def by (intro conjI plain_routes ext plain_server) simp
  ultimately show ?thesis
    unfolding mvv_setup_def using mvv_init mvv_adj mvv_wire(3,4) mvv_stod dg_inv_of_triples
    by (auto simp: mvv_graphs_def)
qed

section \<open>Properties\<close>

text \<open>
  C3: the vertex program ends with the greatest values. However the calls of the ranks
  interleave, when all ranks have left the loop every vertex holds the greatest first value of
  the vertices it can be reached from along at least one edge, over the edges of all ranks.
\<close>

theorem max_vertex_values:
  assumes "mvv_setup E V addr n hf srv D pgs rs w" "ss_reach (mvv_run E addr V hf fuel) rs w s"
    and "\<forall>r \<in> set (ss_ranks s). vx_pc r = Finished" "i < length pgs" "u \<in> fst ` set (adj (snd (pgs ! i)))"
  shows "dict_get (vx_val (ss_ranks s ! i)) u =
    Some (Max {x. \<exists>a. (a, u) \<in> (all_edges pgs)\<^sup>+ \<and> stod D a = Inr x})"
proof -
  note set = mvv_setup_ranks [OF assms(1)]
  have ok: "\<forall>r \<in> set rs. vx_ok r" using set(1) by (simp add: fresh_ranks_def)
  have maps: "list_all2 same_maps rs (ss_ranks s)" by (rule ss_reach_maps [OF assms(2) ok])
  then have len: "length (ss_ranks s) = length pgs" using set(5) by (simp add: list_all2_lengthD)
  have "held (ss_ranks s ! i) = held (rs ! i)"
    using maps assms(4) set(5) by (simp add: list_all2_conv_all_nth same_maps_def held_def)
  then have u: "u \<in> held (ss_ranks s ! i)" using assms(4,5) set(6) by simp
  have "stores E V addr n srv w Map.empty" using assms(1) by (simp add: mvv_setup_def)
  then have "vx_value (ss_ranks s ! i) u = Max (reaching (edges_of rs) (first_val D) u)"
    by (rule mvv.final_values [OF assms(2) set(1,2) _ set(4) assms(3) _ u])
      (use assms(4) len in simp)
  also have "reaching (edges_of rs) (first_val D) u = {x. \<exists>a. (a, u) \<in> (all_edges pgs)\<^sup>+ \<and> stod D a = Inr x}"
    using set(7) unfolding reaching_def set(3) by (force dest: tranclD)
  finally show ?thesis
    using u by (simp add: vx_value_def held_def dict_has_iff [symmetric] dict_has_def del: image_iff) force
qed

lemma mvv_one: "set mvv_graphs = {hd mvv_graphs}" "length mvv_graphs = 1" "mvv_graphs ! 0 = hd mvv_graphs"
  by (simp_all add: mvv_graphs_def)

lemma mvv_vertices: "fst ` set (adj (snd (hd mvv_graphs))) = {''1'', ''2''}"
  "Range (all_edges mvv_graphs) = {''1'', ''2''}"
  by (auto simp: mvv_adj mvv_edges)

lemma mvv_in_edges: "\<forall>(p, g) \<in> set mvv_graphs. \<forall>v \<in> fst ` set (adj g). v \<in> Range (all_edges mvv_graphs)"
  by (simp add: mvv_one(1) mvv_vertices(2) mvv_adj case_prod_unfold)

lemma mvv_in_ranks: "\<forall>r \<in> set mvv_ranks. \<forall>v \<in> held r. v \<in> Range (edges_of mvv_ranks)"
proof -
  note set = mvv_setup_ranks [OF mvv_ready]
  obtain r where r: "mvv_ranks = [r]" using set(5) mvv_one(2) by (auto simp: length_Suc_conv)
  have "held r = {''1'', ''2''}" using set(6) [of 0] by (simp add: mvv_one mvv_vertices r)
  then show ?thesis unfolding set(3) mvv_vertices(2) by (simp add: r)
qed

theorem max_vertex_values_witness:
  "\<exists>s. ss_reach (mvv_run mvv_env plain_addr mvv_codec (\<lambda>s. word_of_nat (length s)) 0) mvv_ranks plain_world s \<and>
    dict_get (vx_val (ss_ranks s ! 0)) ''1'' = Some 2"
proof -
  note set = mvv_setup_ranks [OF mvv_ready]
  have st: "stores mvv_env mvv_codec plain_addr 1 (\<lambda>_. 0) plain_world Map.empty"
    using mvv_ready by (simp add: mvv_setup_def)
  obtain s where s: "ss_reach (mvv_run mvv_env plain_addr mvv_codec (\<lambda>s. word_of_nat (length s)) 0)
      mvv_ranks plain_world s" "\<forall>r \<in> set (ss_ranks s). vx_pc r = Finished"
    using mvv.some_end [OF set(1,2) st set(4) mvv_init(2) mvv_in_ranks] by blast
  have val: "dict_get (vx_val (ss_ranks s ! 0)) ''1'' =
      Some (Max {x. \<exists>a. (a, ''1'') \<in> (all_edges mvv_graphs)\<^sup>+ \<and> stod nat_dbl a = Inr x})"
    by (rule max_vertex_values [OF mvv_ready s]) (use mvv_adj in \<open>simp_all add: mvv_graphs_def\<close>)
  have "(a, ''1'') \<in> (all_edges mvv_graphs)\<^sup>+ \<longleftrightarrow> a \<in> {''1'', ''2''}" for a
  proof
    show "a \<in> {''1'', ''2''}" if "(a, ''1'') \<in> (all_edges mvv_graphs)\<^sup>+"
      using tranclD [OF that] by (auto simp: mvv_edges)
    have "(''1'', ''2'') \<in> all_edges mvv_graphs" "(''2'', ''1'') \<in> all_edges mvv_graphs"
      by (simp_all add: mvv_edges)
    then show "(a, ''1'') \<in> (all_edges mvv_graphs)\<^sup>+" if "a \<in> {''1'', ''2''}"
      using that by (auto intro: trancl.intros)
  qed
  then have "{x. \<exists>a. (a, ''1'') \<in> (all_edges mvv_graphs)\<^sup>+ \<and> stod nat_dbl a = Inr x} =
      {x. \<exists>a \<in> {''1'', ''2''}. stod nat_dbl a = Inr x}"
    by (simp only: Bex_def)
  also have "\<dots> = {1, 2}" by (auto simp: mvv_stod)
  finally have "dict_get (vx_val (ss_ranks s ! 0)) ''1'' = Some (Max {1, 2})" using val by (simp only:)
  then have "dict_get (vx_val (ss_ranks s ! 0)) ''1'' = Some 2" by simp
  with s(1) show ?thesis by blast
qed

text \<open>
  C4: the vertex program ends. When every vertex has an edge into it, there is no infinite run,
  and a state in which no step is possible is one in which all ranks have left the loop: no
  rank waits in vain at a barrier, and no read finds its key missing.
\<close>

theorem max_vertex_returns:
  assumes "mvv_setup E V addr n hf srv D pgs rs w"
    and "\<forall>(p, g) \<in> set pgs. \<forall>v \<in> fst ` set (adj g). v \<in> Range (all_edges pgs)"
  shows "wf {(s', s). ss_reach (mvv_run E addr V hf fuel) rs w s \<and> ss_step (mvv_run E addr V hf fuel) s s'} \<and>
    (\<forall>s. ss_reach (mvv_run E addr V hf fuel) rs w s \<longrightarrow>
      (\<forall>r \<in> set (ss_ranks s). vx_pc r = Finished) \<or> (\<exists>s'. ss_step (mvv_run E addr V hf fuel) s s'))"
proof -
  note set = mvv_setup_ranks [OF assms(1)]
  have st: "stores E V addr n srv w Map.empty" "rs \<noteq> []" using assms(1) by (simp_all add: mvv_setup_def)
  have "v \<in> Range (edges_of rs)" if r: "r \<in> set rs" and v: "v \<in> held r" for r v
  proof -
    obtain i where i: "i < length pgs" "r = rs ! i" using r set(5) by (auto simp: in_set_conv_nth)
    then have "v \<in> fst ` set (adj (snd (pgs ! i)))" using v set(6) by simp
    then show ?thesis using bspec [OF assms(2) nth_mem [OF i(1)]] set(3)
      by (auto simp: case_prod_unfold simp del: Range_iff)
  qed
  then have edges: "\<forall>r \<in> set rs. \<forall>v \<in> held r. v \<in> Range (edges_of rs)" by blast
  show ?thesis
    by (intro conjI allI impI mvv.runs_end [OF set(1,2) st(1) set(4)])
      (rule mvv.never_stuck [OF _ set(1,2) st(1) set(4) st(2) edges])
qed

theorem max_vertex_returns_witness:
  "wf {(s', s). ss_reach (mvv_run mvv_env plain_addr mvv_codec (\<lambda>s. word_of_nat (length s)) 0) mvv_ranks plain_world s \<and>
     ss_step (mvv_run mvv_env plain_addr mvv_codec (\<lambda>s. word_of_nat (length s)) 0) s s'} \<and>
   (\<exists>s'. ss_step (mvv_run mvv_env plain_addr mvv_codec (\<lambda>s. word_of_nat (length s)) 0)
      (start_supersteps mvv_ranks plain_world) s')"
proof -
  have "vx_pc r \<noteq> Finished" if "r \<in> set (ss_ranks (start_supersteps mvv_ranks plain_world))" for r
    using that by (auto simp: start_supersteps_def)
  moreover have "ss_ranks (start_supersteps mvv_ranks plain_world) \<noteq> []"
    using mvv_init(2) by (simp add: start_supersteps_def)
  ultimately have "\<not> (\<forall>r \<in> set (ss_ranks (start_supersteps mvv_ranks plain_world)). vx_pc r = Finished)"
    by (metis list.set_sel(1))
  moreover note run = max_vertex_returns [OF mvv_ready mvv_in_edges, of 0]
  ultimately show ?thesis using conjunct2 [OF run, rule_format, OF ss_reach.start] conjunct1 [OF run] by metis
qed

text \<open>
  C22: the ranks of any vertex program stay in step. While one rank still sends, no rank reads
  its votes; when one rank has left the loop, all have; and a run stops only there or at an
  operation that fails, never because ranks wait for each other.
\<close>

theorem supersteps_in_step:
  assumes "ss_reach P rs w s" "rs \<noteq> []"
  shows "((\<exists>r \<in> set (ss_ranks s). \<exists>cs. vx_pc r = Compute cs) \<longrightarrow> (\<forall>r \<in> set (ss_ranks s). \<forall>vs. vx_pc r \<noteq> Vote vs)) \<and>
    ((\<exists>r \<in> set (ss_ranks s). vx_pc r = Finished) \<longrightarrow> (\<forall>r \<in> set (ss_ranks s). vx_pc r = Finished)) \<and>
    ((\<forall>r \<in> set (ss_ranks s). vx_pc r = Finished) \<or> (\<exists>s'. ss_step P s s') \<or>
      (\<exists>r \<in> set (ss_ranks s). \<exists>e. own_op P r (ss_world s) = Some (Inl e)))"
proof -
  obtain k where k: "\<forall>r \<in> set (ss_ranks s). stage (vx_pc r) = k" using ss_reach_stage [OF assms(1)] by blast
  have fin: "vx_pc r = Finished" if "stage (vx_pc r) = 4" for r :: "('a, 'b, 'c) vertex"
    using that by (cases "vx_pc r") auto
  have "length (ss_ranks s) = length rs"
    using assms(1)
  proof induction
    case (step s s')
    from step.hyps(2) have "length (ss_ranks s') = length (ss_ranks s)" by cases auto
    with step.IH show ?case by simp
  qed (simp add: start_supersteps_def)
  then have "ss_ranks s \<noteq> []" using assms(2) by auto
  note progress = ss_progress [OF this k, of P]
  have "\<forall>vs. vx_pc r \<noteq> Vote vs" if "q \<in> set (ss_ranks s)" "vx_pc q = Compute cs" "r \<in> set (ss_ranks s)" for q cs r
    using bspec [OF k that(1)] bspec [OF k that(3)] that(2) by auto
  moreover have "vx_pc r = Finished" if "q \<in> set (ss_ranks s)" "vx_pc q = Finished" "r \<in> set (ss_ranks s)" for q r
    using bspec [OF k that(1)] bspec [OF k that(3)] that(2) by (intro fin) simp
  ultimately show ?thesis using progress by blast
qed

theorem supersteps_in_step_witness:
  "vx_pc (ss_ranks (start_supersteps mvv_ranks plain_world) ! 0) \<noteq> Vote [] \<and> mvv_ranks \<noteq> []"
proof -
  let ?s = "start_supersteps mvv_ranks plain_world"
  have r: "ss_ranks ?s ! 0 \<in> set (ss_ranks ?s)" "\<exists>cs. vx_pc (ss_ranks ?s ! 0) = Compute cs"
    using mvv_init(2) by (simp_all add: start_supersteps_def)
  note run = supersteps_in_step [where P = "mvv_run mvv_env plain_addr mvv_codec (\<lambda>s. word_of_nat (length s)) 0"
      and w = plain_world, OF ss_reach.start mvv_init(2)]
  from conjunct1 [OF run] r mvv_init(2) show ?thesis by blast
qed

text \<open>
  C23: the three maps of a rank agree. From the maps \<open>init_vars\<close> builds on, in every state of
  every run a rank has a value, an edge list and an activity flag for the same vertices, those
  it started with, each once, and the edges are those it started with: no \<open>operator[]\<close> of the
  loops creates an entry.
\<close>

theorem supersteps_keep_maps:
  assumes "\<forall>r \<in> set rs. (\<exists>f p g. init_vars_vertex f (bare_vertex p g) = Inr r) \<or>
      (\<exists>f p g. init_vars_edge f (bare_vertex p g) = Inr r)"
    and "ss_reach P rs w s" "i < length rs"
  shows "wf_dict (vx_val (ss_ranks s ! i)) \<and> wf_dict (vx_act (ss_ranks s ! i)) \<and>
    fst ` set (vx_val (ss_ranks s ! i)) = fst ` set (vx_val (rs ! i)) \<and>
    fst ` set (vx_act (ss_ranks s ! i)) = fst ` set (vx_val (rs ! i)) \<and>
    fst ` set (vx_adj (ss_ranks s ! i)) = fst ` set (vx_val (rs ! i)) \<and>
    vx_adj (ss_ranks s ! i) = vx_adj (rs ! i)"
proof -
  have "\<forall>r \<in> set rs. vx_ok r" using assms(1) vx_ok_init by blast
  from ss_reach_maps [OF assms(2) this] have "same_maps (rs ! i) (ss_ranks s ! i)"
    using assms(3) by (simp add: list_all2_conv_all_nth)
  then show ?thesis unfolding same_maps_def vx_ok_def by metis
qed

theorem supersteps_keep_maps_witness:
  "fst ` set (vx_act (ss_ranks (start_supersteps mvv_ranks plain_world) ! 0)) = fst ` set (vx_val (mvv_ranks ! 0))"
proof -
  obtain r where r: "mvv_ranks = [r]"
    using mvv_setup_ranks(5) [OF mvv_ready] mvv_one(2) by (auto simp: length_Suc_conv)
  have "init_vars_vertex (stod nat_dbl) (bare_vertex (fst (hd mvv_graphs)) (snd (hd mvv_graphs))) = Inr r"
    using mvv_init(1) by (simp add: mvv_graphs_def r res_simps)
  then have "\<forall>r \<in> set mvv_ranks. (\<exists>f p g. init_vars_vertex f (bare_vertex p g) = Inr r) \<or>
      (\<exists>f p g. init_vars_edge f (bare_vertex p g) = Inr r)"
    by (auto simp: r)
  from supersteps_keep_maps [where P = "mvv_run mvv_env plain_addr mvv_codec (\<lambda>s. word_of_nat (length s)) 0"
      and w = plain_world and i = 0, OF this ss_reach.start]
  show ?thesis by (simp add: r)
qed

end
