(* ===== verification/Dump.thy ===== *)
theory Dump
  imports Vertex
begin

text \<open>
  The output half of \<open>include/ps.hpp\<close>, with \<open>dump_result\<close> of vertex programs: every rank writes its part of a result into its own file,
  \<open>output/filename<rank>\<close>, and rank 0 may merge the files of all ranks.

  Files are as in \<open>Partition\<close>, a map from names to texts; a stream that opens writes all it is
  given, and the folder exists (\<open>init_output\<close>). \<open>expand\<close> (modelled in \<open>Expand\<close>) is
  an argument here, from the files and a pattern to names. \<open>std::to_string\<close> of a double is \<open>dshow\<close>, its
  \<open>operator<<\<close> the argument \<open>put\<close>. An operation gives the files and the number of times the rank
  entered \<open>paracel_sync\<close>.
\<close>

section \<open>Rows\<close>

text \<open>\<open>data.size() - 1\<close>: an unsigned subtraction.\<close>

definition size_minus_one :: "'a list \<Rightarrow> nat" where
  "size_minus_one xs = unat (word_of_nat (length xs) - 1 :: u64)"

text \<open>The loop \<open>for(size_t i = 0; i < data.size() - 1; ++i) os << f(data[i]) << sep\<close>.\<close>

function sep_upto :: "('a \<Rightarrow> string res) \<Rightarrow> string \<Rightarrow> 'a list \<Rightarrow> nat \<Rightarrow> nat \<Rightarrow> string res" where
  "sep_upto f sep xs i n =
     (if i < n
      then rbind (nth_res xs i) (\<lambda>x. rbind (f x) (\<lambda>t. rbind (sep_upto f sep xs (i + 1) n) (\<lambda>s. Inr (t @ sep @ s))))
      else Inr [])"
  by pat_completeness auto
termination
  by (relation "measure (\<lambda>(f, sep, xs, i, n). n - i)") auto

declare sep_upto.simps [simp del]

definition back_res :: "'a list \<Rightarrow> 'a res" where
  "back_res xs = (if xs = [] then Inl UndefinedRead else Inr (last xs))"

text \<open>The items with \<open>f\<close>, the last one with \<open>g\<close>.\<close>

definition row_text :: "('a \<Rightarrow> string res) \<Rightarrow> ('a \<Rightarrow> string res) \<Rightarrow> string \<Rightarrow> 'a list \<Rightarrow> string res" where
  "row_text f g sep xs =
     rbind (sep_upto f sep xs 0 (size_minus_one xs)) (\<lambda>s. rbind (back_res xs) (\<lambda>x. rbind (g x) (\<lambda>t. Inr (s @ t))))"

text \<open>The overloads of \<open>cvt\<close>.\<close>

definition cvt_double :: "'d dbl \<Rightarrow> 'd \<Rightarrow> string" where
  "cvt_double D v = dshow D v"

definition cvt_string :: "string \<Rightarrow> string" where
  "cvt_string s = s"

definition cvt_list_pair :: "'d dbl \<Rightarrow> 'd list \<times> 'd \<Rightarrow> string res" where
  "cvt_list_pair D pr =
     rbind (sep_upto (\<lambda>x. Inr (dshow D x)) '','' (fst pr) 0 (size_minus_one (fst pr))) (\<lambda>r.
     rbind (back_res (fst pr)) (\<lambda>x. Inr (r @ dshow D x @ '':'' @ dshow D (snd pr))))"

definition cvt_triple :: "'d dbl \<Rightarrow> string \<times> string \<times> 'd \<Rightarrow> string" where
  "cvt_triple D = (\<lambda>(a, b, x). a @ '','' @ b @ '','' @ dshow D x)"

definition cvt_compact :: "'d dbl \<Rightarrow> u64 \<times> u64 \<times> 'd \<Rightarrow> string" where
  "cvt_compact D = (\<lambda>(a, b, x). to_string (unat a) @ '','' @ to_string (unat b) @ '','' @ dshow D x)"

definition cvt_pair :: "'d dbl \<Rightarrow> u64 \<times> 'd \<Rightarrow> string" where
  "cvt_pair D = (\<lambda>(a, x). to_string (unat a) @ '':'' @ dshow D x)"

section \<open>Files\<close>

definition os_write :: "bool \<Rightarrow> string \<Rightarrow> string \<Rightarrow> files \<Rightarrow> files" where
  "os_write append_flag name s fs =
     fs(name \<mapsto> (if append_flag then file_text fs name else []) @ s)"

definition dump_name :: "string \<Rightarrow> string \<Rightarrow> 'v paralg \<Rightarrow> string" where
  "dump_name out filename p = todir out @ filename @ to_string (worker_rank p)"

text \<open>
  \<open>files_merge\<close>: the names are expanded first, then the target is opened, then each file is
  copied line by line. A target that is among the names is read while it is written; what is
  read then depends on the buffers of the two streams.
\<close>

definition merge_name :: "string \<Rightarrow> string \<Rightarrow> string" where
  "merge_name out pre = todir out @ pre @ ''merge''"

definition copy_lines :: "string \<Rightarrow> string" where
  "copy_lines s = concat (map (\<lambda>l. l @ [newline]) (read_lines s))"

definition files_merge ::
  "(files \<Rightarrow> string \<Rightarrow> string list) \<Rightarrow> string \<Rightarrow> string \<Rightarrow> string \<Rightarrow> bool \<Rightarrow> files \<Rightarrow> files res"
where
  "files_merge expnd out fn pre append_flag fs =
     (let fname_lst = expnd fs fn; os = merge_name out pre
      in rbind (rmapM (\<lambda>fname. if fname = os then Inl UndefinedRead
            else case fs fname of None \<Rightarrow> Inl RuntimeError | Some s \<Rightarrow> Inr (copy_lines s)) fname_lst) (\<lambda>ss.
         Inr (os_write append_flag os (concat ss) fs)))"

text \<open>The end of every dump: only rank 0 waits at the barrier and merges.\<close>

definition dump_merge ::
  "(files \<Rightarrow> string \<Rightarrow> string list) \<Rightarrow> string \<Rightarrow> string \<Rightarrow> bool \<Rightarrow> 'v paralg \<Rightarrow> files \<Rightarrow> (files \<times> nat) res"
where
  "dump_merge expnd out filename mrg p fs =
     (if mrg \<and> worker_rank p = 0
      then rbind (files_merge expnd out (out @ filename @ ''*'') filename False fs) (\<lambda>fs. Inr (fs, 1))
      else Inr (fs, 0))"

section \<open>The dumps\<close>

definition paracel_dump_vector ::
  "('a \<Rightarrow> string res) \<Rightarrow> (files \<Rightarrow> string \<Rightarrow> string list) \<Rightarrow> string \<Rightarrow> 'a list \<Rightarrow> string \<Rightarrow> string \<Rightarrow>
     bool \<Rightarrow> bool \<Rightarrow> 'v paralg \<Rightarrow> files \<Rightarrow> (files \<times> nat) res"
where
  "paracel_dump_vector cvt expnd out data filename sep append_flag mrg p fs =
     rbind (sep_upto cvt sep data 0 (size_minus_one data)) (\<lambda>s.
     rbind (if 0 < length data then rbind (cvt (last data)) (\<lambda>t. Inr (t @ [newline])) else Inr []) (\<lambda>t.
     dump_merge expnd out filename mrg p (os_write append_flag (dump_name out filename p) (s @ t) fs)))"

text \<open>
  The overloads of \<open>paracel_dump_dict\<close> and \<open>paracel_dump_prob_mtx\<close> differ in the line they write
  for an entry.
\<close>

definition dump_lines ::
  "('k \<times> 'v \<Rightarrow> string res) \<Rightarrow> (files \<Rightarrow> string \<Rightarrow> string list) \<Rightarrow> string \<Rightarrow> ('k, 'v) dict \<Rightarrow> string \<Rightarrow>
     bool \<Rightarrow> bool \<Rightarrow> 'p paralg \<Rightarrow> files \<Rightarrow> (files \<times> nat) res"
where
  "dump_lines line expnd out data filename append_flag mrg p fs =
     rbind (rmapM line data) (\<lambda>ls.
     dump_merge expnd out filename mrg p (os_write append_flag (dump_name out filename p) (concat ls) fs))"

definition tab :: char where
  "tab = CHR 0x09"

definition int_string :: "int \<Rightarrow> string" where
  "int_string i = (if i < 0 then ''-'' @ to_string (nat (- i)) else to_string (nat i))"

definition paracel_dump_dict_int where
  "paracel_dump_dict_int = dump_lines (\<lambda>(k, v). Inr (k @ [tab] @ int_string v @ [newline]))"

definition paracel_dump_dict_double where
  "paracel_dump_dict_double put = dump_lines (\<lambda>(k, v). Inr (k @ [tab] @ put v @ [newline]))"

definition paracel_dump_dict_list ::
  "('k \<Rightarrow> string) \<Rightarrow> ('a \<Rightarrow> string res) \<Rightarrow> (files \<Rightarrow> string \<Rightarrow> string list) \<Rightarrow> string \<Rightarrow> ('k, 'a list) dict \<Rightarrow>
     string \<Rightarrow> bool \<Rightarrow> bool \<Rightarrow> 'p paralg \<Rightarrow> files \<Rightarrow> (files \<times> nat) res"
where
  "paracel_dump_dict_list kput cvt = dump_lines (\<lambda>(k, vs).
     rbind (row_text cvt cvt ''|'' vs) (\<lambda>s. Inr (kput k @ [tab] @ s @ [newline])))"

definition paracel_dump_dict_pairs_str where
  "paracel_dump_dict_pairs_str D = dump_lines (\<lambda>(k, vs).
     rbind (row_text (\<lambda>(a, x). Inr (a @ '':'' @ dshow D x)) (\<lambda>(a, x). Inr (a @ '':'' @ dshow D x)) ''|'' vs) (\<lambda>s.
     Inr (k @ [tab] @ s @ [newline])))"

definition paracel_dump_dict_pairs_u64 where
  "paracel_dump_dict_pairs_u64 D = dump_lines (\<lambda>(k, vs).
     rbind (row_text (\<lambda>pr. Inr (cvt_pair D pr)) (\<lambda>pr. Inr (cvt_pair D pr)) ''|'' vs) (\<lambda>s.
     Inr (to_string (unat (k :: u64)) @ [tab] @ s @ [newline])))"

text \<open>An empty row is left unfinished, and the last value goes through \<open>operator<<\<close>; merging is a TODO.\<close>

definition prob_line :: "'d dbl \<Rightarrow> ('d \<Rightarrow> string) \<Rightarrow> string \<times> (string \<times> 'd) list \<Rightarrow> string res" where
  "prob_line D put = (\<lambda>(k, vs).
     if length vs = 0 then Inr (k @ [tab])
     else rbind (row_text (\<lambda>(a, x). Inr (a @ '':'' @ dshow D x)) (\<lambda>(a, x). Inr (a @ '':'' @ put x)) ''|'' vs) (\<lambda>s.
          Inr (k @ [tab] @ s @ [newline])))"

definition paracel_dump_prob_mtx ::
  "'d dbl \<Rightarrow> ('d \<Rightarrow> string) \<Rightarrow> string \<Rightarrow> (string, (string \<times> 'd) list) dict \<Rightarrow> string \<Rightarrow> bool \<Rightarrow> bool \<Rightarrow>
     'p paralg \<Rightarrow> files \<Rightarrow> (files \<times> nat) res"
where
  "paracel_dump_prob_mtx D put out data filename append_flag mrg p fs =
     rbind (rmapM (prob_line D put) data) (\<lambda>ls.
     Inr (os_write append_flag (dump_name out filename p) (concat ls) fs,
       if mrg \<and> worker_rank p = 0 then 1 else 0))"

text \<open>\<open>dump_result\<close> of a vertex program: the values of the rank, as a dictionary of doubles.\<close>

definition dump_result ::
  "('x \<Rightarrow> string) \<Rightarrow> (files \<Rightarrow> string \<Rightarrow> string list) \<Rightarrow> string \<Rightarrow> string \<Rightarrow> ('x, 'v, 'd) vertex \<Rightarrow>
     files \<Rightarrow> (files \<times> nat) res"
where
  "dump_result put expnd out pre r fs =
     paracel_dump_dict_double put expnd out (vx_val r) pre False False (vx_pt r) fs"

section \<open>Lemmas: rows\<close>

lemma size_minus_one_Nil: "size_minus_one [] = 2 ^ 64 - 1"
  by (simp add: size_minus_one_def unsigned_minus_1_eq_mask mask_eq_exp_minus_1)

lemma size_minus_one: "xs \<noteq> [] \<Longrightarrow> length xs < 2 ^ 64 \<Longrightarrow> size_minus_one xs = length xs - 1"
proof -
  assume a: "xs \<noteq> []" "length xs < 2 ^ 64"
  then have u: "unat (word_of_nat (length xs) :: u64) = length xs"
    by (simp add: unat_of_nat take_bit_nat_eq_self)
  with a(1) have "(word_of_nat (length xs) :: u64) \<noteq> 0" by (metis length_0_conv unat_0)
  then show ?thesis using u by (simp add: size_minus_one_def unat_minus_one)
qed

text \<open>The empty container: the bound wraps around and the first read is out of range.\<close>

lemma sep_upto_Nil: "sep_upto f sep [] 0 (size_minus_one []) = Inl UndefinedRead"
  by (subst sep_upto.simps) (simp add: size_minus_one_Nil)

lemma sep_upto_concat:
  "n \<le> length xs \<Longrightarrow> sep_upto (\<lambda>x. Inr (f x)) sep xs i n = Inr (concat (map (\<lambda>x. f x @ sep) (take (n - i) (drop i xs))))"
proof (induction "\<lambda>x. Inr (f x) :: string res" sep xs i n rule: sep_upto.induct)
  case (1 sep xs i n)
  show ?case
  proof (cases "i < n")
    case True
    with 1(2) have "nth_res xs i = Inr (xs ! i)" "drop i xs = xs ! i # drop (i + 1) xs"
      by (simp_all add: nth_res_def Cons_nth_drop_Suc)
    moreover from True have "n - i = Suc (n - (i + 1))" by simp
    ultimately show ?thesis using 1 True by (subst sep_upto.simps) simp
  qed (subst sep_upto.simps, simp)
qed

lemma join_words_last: "xs \<noteq> [] \<Longrightarrow>
    join_words sep (map f xs) = concat (map (\<lambda>x. f x @ sep) (butlast xs)) @ f (last xs)"
  by (induction xs) (auto simp: join_words_Cons)

lemma sep_upto_row:
  assumes "xs \<noteq> []" "length xs < 2 ^ 64"
  shows "sep_upto (\<lambda>x. Inr (f x)) sep xs 0 (size_minus_one xs) = Inr (concat (map (\<lambda>x. f x @ sep) (butlast xs)))"
  using assms by (simp add: sep_upto_concat size_minus_one butlast_conv_take)

lemma row_text_join:
  assumes "xs \<noteq> []" "length xs < 2 ^ 64"
  shows "row_text (\<lambda>x. Inr (f x)) (\<lambda>x. Inr (f x)) sep xs = Inr (join_words sep (map f xs))"
  using assms by (simp add: row_text_def sep_upto_row back_res_def join_words_last)

lemma row_text_Nil: "row_text f g sep [] = Inl UndefinedRead"
  by (simp add: row_text_def sep_upto_Nil)

section \<open>Lemmas: texts and their lines\<close>

abbreviation ended :: "string \<Rightarrow> string" where
  "ended l \<equiv> l @ [newline]"

lemma read_lines_Nil [simp]: "read_lines [] = []"
  by (simp add: read_lines.simps)

lemma read_lines_line: "newline \<notin> set l \<Longrightarrow> read_lines (l @ newline # s) = l # read_lines s"
proof -
  assume "newline \<notin> set l"
  then have "takeWhile (\<lambda>c. c \<noteq> newline) (l @ newline # s) = l \<and>
      dropWhile (\<lambda>c. c \<noteq> newline) (l @ newline # s) = newline # s"
    by (induction l) auto
  then have "getline (l @ newline # s) = (l, s)" by (simp add: getline_def)
  then show ?thesis by (simp add: read_lines.simps [of "l @ newline # s"])
qed

lemma read_lines_concat: "\<forall>l \<in> set ls. newline \<notin> set l \<Longrightarrow> read_lines (concat (map ended ls) @ s) = ls @ read_lines s"
  by (induction ls) (simp_all add: read_lines_line)

lemma read_lines_no_newline: "l \<in> set (read_lines s) \<Longrightarrow> newline \<notin> set l"
proof (induction s rule: read_lines.induct)
  case (1 s)
  show ?case
  proof (cases "s = []")
    case False
    obtain a s' where g: "getline s = (a, s')" by fastforce
    have "newline \<notin> set a" using g by (auto simp: getline_def dest: set_takeWhileD)
    then show ?thesis using 1 g False by (auto simp: read_lines.simps [of s])
  qed (use 1 in simp)
qed

text \<open>Copying line by line keeps the lines and ends the last one.\<close>

lemma read_copy_lines: "read_lines (concat (map copy_lines ss)) = concat (map read_lines ss)"
proof (induction ss)
  case (Cons s ss)
  have "copy_lines s = concat (map ended (read_lines s))" by (simp add: copy_lines_def)
  then show ?case
    using Cons read_lines_concat [of "read_lines s"] read_lines_no_newline [of _ s] by simp
qed simp

lemma loadall_names:
  "rfold (\<lambda>fname lines. case fs fname of None \<Rightarrow> Inl RuntimeError
        | Some text \<Rightarrow> Inr (lines @ read_lines text)) names ls =
    (if \<forall>n \<in> set names. fs n \<noteq> None
     then Inr (ls @ concat (map (\<lambda>n. read_lines (file_text fs n)) names)) else Inl RuntimeError)"
  by (induction names arbitrary: ls) (auto simp: file_text_def split: option.splits)

lemma loadall_eq:
  "paracel_loadall fs names =
    (if \<forall>n \<in> set names. fs n \<noteq> None
     then Inr (concat (map (\<lambda>n. read_lines (file_text fs n)) names)) else Inl RuntimeError)"
  by (simp add: paracel_loadall_def loadall_names)

section \<open>Dumping and loading\<close>

lemma dump_vector_text:
  assumes "data \<noteq> []" "length data < 2 ^ 64"
  shows "paracel_dump_vector (\<lambda>x. Inr (cvt x)) expnd out data filename sep af False p fs =
    Inr (os_write af (dump_name out filename p) (ended (join_words sep (map cvt data))) fs, 0)"
  using assms by (simp add: paracel_dump_vector_def sep_upto_row dump_merge_def join_words_last Let_def)

lemma join_words_no_newline:
  "newline \<notin> set sep \<Longrightarrow> \<forall>t \<in> set toks. newline \<notin> set t \<Longrightarrow> newline \<notin> set (join_words sep toks)"
  by (induction sep toks rule: join_words.induct) auto

text \<open>Splitting a joined row at its separator gives the fields back when none is empty.\<close>

lemma str_split_join:
  "\<forall>t \<in> set toks. t \<noteq> [] \<and> c \<notin> set t \<Longrightarrow> str_split (join_words [c] toks) c = toks"
proof (induction "[c]" toks rule: join_words.induct)
  case (2 s)
  then have "\<forall>x \<in> set s. x \<noteq> c" by auto
  with 2 show ?case by (simp add: str_split_def str_split_loop_token(2))
next
  case (3 s v va)
  then have "\<forall>x \<in> set s. x \<noteq> c" by auto
  with 3 show ?case by (simp add: str_split_def str_split_loop_token(1))
qed (simp add: str_split_def)

text \<open>The ranks of a run, each with its data, dump in some order.\<close>

definition dump_ranks ::
  "('a \<Rightarrow> string) \<Rightarrow> (files \<Rightarrow> string \<Rightarrow> string list) \<Rightarrow> string \<Rightarrow> string \<Rightarrow> string \<Rightarrow>
     ('v paralg \<times> 'a list) list \<Rightarrow> files \<Rightarrow> files res"
where
  "dump_ranks cvt expnd out filename sep = rfold (\<lambda>(p, data) fs.
     rbind (paracel_dump_vector (\<lambda>x. Inr (cvt x)) expnd out data filename sep False False p fs) (\<lambda>r. Inr (fst r)))"

lemma dump_ranks_files:
  assumes "\<forall>(p, d) \<in> set rs. d \<noteq> [] \<and> length d < 2 ^ 64"
    and "distinct (map (worker_rank \<circ> fst) rs)"
  shows "\<exists>fs'. dump_ranks cvt expnd out filename sep rs fs = Inr fs' \<and>
    (\<forall>(p, d) \<in> set rs. fs' (dump_name out filename p) = Some (ended (join_words sep (map cvt d)))) \<and>
    (\<forall>n. n \<notin> (dump_name out filename \<circ> fst) ` set rs \<longrightarrow> fs' n = fs n)"
  using assms
proof (induction rs arbitrary: fs)
  case Nil
  show ?case by (simp add: dump_ranks_def)
next
  case (Cons r rs)
  obtain p d where r: "r = (p, d)" by (cases r)
  let ?fs = "os_write False (dump_name out filename p) (ended (join_words sep (map cvt d))) fs"
  have step: "dump_ranks cvt expnd out filename sep (r # rs) fs = dump_ranks cvt expnd out filename sep rs ?fs"
    using Cons.prems(1) r by (simp add: dump_ranks_def dump_vector_text)
  obtain fs' where fs': "dump_ranks cvt expnd out filename sep rs ?fs = Inr fs'"
    "\<forall>(p, d) \<in> set rs. fs' (dump_name out filename p) = Some (ended (join_words sep (map cvt d)))"
    "\<forall>n. n \<notin> (dump_name out filename \<circ> fst) ` set rs \<longrightarrow> fs' n = ?fs n"
    using Cons.IH [of ?fs] Cons.prems by auto
  have "dump_name out filename p \<notin> (dump_name out filename \<circ> fst) ` set rs"
    using Cons.prems(2) r by (auto simp: dump_name_def to_string_inject image_iff)
  then have "fs' (dump_name out filename p) = Some (ended (join_words sep (map cvt d)))"
    using fs'(3) by (simp add: os_write_def)
  moreover have "fs' n = fs n" if "n \<notin> (dump_name out filename \<circ> fst) ` set (r # rs)" for n
    using that fs'(3) r by (auto simp: os_write_def)
  ultimately show ?case using step fs' r by auto
qed

text \<open>
  C21: what the ranks of a run dump with \<open>paracel_dump_vector\<close>, in whatever order they write, is
  read back by \<open>paracel_loadall\<close> of their files as one line for each rank, and splitting the lines at the
  separator gives back the items of every rank. The data of no rank may be empty, and no printed
  item may be empty or contain the separator or a newline.
\<close>

theorem dump_load_roundtrip:
  assumes "distinct (map (worker_rank \<circ> fst) rs)" "mset order = mset rs" "c \<noteq> newline"
    and "\<forall>(p, d) \<in> set rs. d \<noteq> [] \<and> length d < 2 ^ 64"
    and "\<forall>(p, d) \<in> set rs. \<forall>x \<in> set d. cvt x \<noteq> [] \<and> c \<notin> set (cvt x) \<and> newline \<notin> set (cvt x)"
  shows "\<exists>fs' ls. dump_ranks cvt expnd out filename [c] order fs = Inr fs' \<and>
    paracel_loadall fs' (map (dump_name out filename \<circ> fst) rs) = Inr ls \<and>
    map (\<lambda>l. str_split l c) ls = map (map cvt \<circ> snd) rs"
proof -
  have s: "set order = set rs" using assms(2) by (rule mset_eq_setD)
  have "mset (map (worker_rank \<circ> fst) order) = mset (map (worker_rank \<circ> fst) rs)"
    using assms(2) by simp
  then have "distinct (map (worker_rank \<circ> fst) order)"
    using assms(1) by (metis mset_eq_imp_distinct_iff)
  then obtain fs' where fs': "dump_ranks cvt expnd out filename [c] order fs = Inr fs'"
    and texts: "\<forall>(p, d) \<in> set rs. fs' (dump_name out filename p) = Some (ended (join_words [c] (map cvt d)))"
    using dump_ranks_files [of order cvt expnd out filename "[c]" fs] assms(4) s by auto
  let ?row = "\<lambda>(p, d). join_words [c] (map cvt d)"
  have one: "read_lines (file_text fs' (dump_name out filename (fst r))) = [?row r]" if "r \<in> set rs" for r
  proof -
    obtain p d where r: "r = (p, d)" by (cases r)
    with that assms(3,5) have "newline \<notin> set (join_words [c] (map cvt d))"
      by (intro join_words_no_newline) auto
    then show ?thesis using that texts r by (auto simp: file_text_def read_lines_line)
  qed
  have "\<forall>n \<in> set (map (dump_name out filename \<circ> fst) rs). fs' n \<noteq> None" using texts by auto
  moreover have "concat (map (\<lambda>r. read_lines (file_text fs' (dump_name out filename (fst r)))) rs) = map ?row rs"
    using one by (induction rs) simp_all
  ultimately have "paracel_loadall fs' (map (dump_name out filename \<circ> fst) rs) = Inr (map ?row rs)"
    by (simp add: loadall_eq comp_def)
  moreover have "str_split (?row r) c = map cvt (snd r)" if "r \<in> set rs" for r
  proof -
    obtain p d where r: "r = (p, d)" by (cases r)
    have "str_split (join_words [c] (map cvt d)) c = map cvt d"
      using bspec [OF assms(5) that] r by (intro str_split_join) auto
    then show ?thesis by (simp add: r)
  qed
  then have "map (\<lambda>l. str_split l c) (map ?row rs) = map (map cvt \<circ> snd) rs" by simp
  ultimately show ?thesis using fs' by blast
qed

lemma to_string_chars: "CHR '','' \<notin> set (to_string n)" "newline \<notin> set (to_string n)"
  using to_string_digits [of n] by (auto simp: is_digit_def)

theorem dump_load_roundtrip_witness:
  "let w = \<lambda>k. new_paralg (\<lambda>_. 0) 1 k 2 0 0 False :: nat paralg
   in \<exists>fs' ls. dump_ranks to_string (\<lambda>_ _. []) ''out'' ''result_'' '','' [(w 1, [30]), (w 0, [1, 2 :: nat])] (\<lambda>_. None) = Inr fs' \<and>
    paracel_loadall fs' [''out/result_'' @ to_string 0, ''out/result_'' @ to_string 1] = Inr ls \<and>
    map (\<lambda>l. str_split l CHR '','') ls = [[to_string 1, to_string 2], [to_string 30]]"
proof -
  let ?w = "\<lambda>k. new_paralg (\<lambda>_. 0) 1 k 2 0 0 False :: nat paralg"
  let ?rs = "[(?w 0, [1, 2 :: nat]), (?w 1, [30])]"
  have td: "todir ''out'' = ''out/''" by code_simp
  have r: "worker_rank (?w k) = k" for k by (simp add: new_paralg_def)
  have names: "map (dump_name ''out'' ''result_'' \<circ> fst) ?rs =
    [''out/result_'' @ to_string 0, ''out/result_'' @ to_string 1]"
    by (simp only: list.map comp_def fst_conv dump_name_def r td append_Cons append_Nil)
  have rows: "map (map to_string \<circ> snd) ?rs = [[to_string 1, to_string 2], [to_string 30]]" by simp
  have "distinct (map (worker_rank \<circ> fst) ?rs)" by (simp only: list.map comp_def fst_conv r) simp
  moreover have "\<forall>(p, d) \<in> set ?rs. \<forall>x \<in> set d.
      to_string x \<noteq> [] \<and> CHR '','' \<notin> set (to_string x) \<and> newline \<notin> set (to_string x)"
    using to_string_chars by auto
  ultimately have "\<exists>fs' ls. dump_ranks to_string (\<lambda>_ _. []) ''out'' ''result_'' '','' [(?w 1, [30]), (?w 0, [1, 2])] (\<lambda>_. None) = Inr fs' \<and>
      paracel_loadall fs' (map (dump_name ''out'' ''result_'' \<circ> fst) ?rs) = Inr ls \<and>
      map (\<lambda>l. str_split l CHR '','') ls = map (map to_string \<circ> snd) ?rs"
    by (intro dump_load_roundtrip) (simp_all add: add_mset_commute)
  then show ?thesis by (simp only: names rows Let_def)
qed

text \<open>
  Merging files whose names do not include the target gives one file, and loading it yields
  the lines that loading the files one after the other yields; a file that is missing makes both
  throw. Nothing but the target changes.
\<close>

theorem files_merge_loads:
  assumes "merge_name out pre \<notin> set (expnd fs fn)"
  shows "(case files_merge expnd out fn pre False fs of
       Inl e \<Rightarrow> paracel_loadall fs (expnd fs fn) = Inl e
     | Inr fs' \<Rightarrow> paracel_loadall fs' [merge_name out pre] = paracel_loadall fs (expnd fs fn) \<and>
         fs'(merge_name out pre := fs (merge_name out pre)) = fs)"
proof -
  let ?ns = "expnd fs fn" and ?os = "merge_name out pre"
  have eq: "rmapM (\<lambda>fname. if fname = ?os then Inl UndefinedRead
      else case fs fname of None \<Rightarrow> Inl RuntimeError | Some s \<Rightarrow> Inr (copy_lines s)) ns =
    (if \<forall>n \<in> set ns. fs n \<noteq> None then Inr (map (\<lambda>n. copy_lines (file_text fs n)) ns) else Inl RuntimeError)"
    if "?os \<notin> set ns" for ns
    using that by (induction ns) (auto simp: file_text_def split: option.splits)
  show ?thesis
  proof (cases "\<forall>n \<in> set ?ns. fs n \<noteq> None")
    case True
    have "read_lines (concat (map (\<lambda>n. copy_lines (file_text fs n)) ?ns)) =
        concat (map (\<lambda>n. read_lines (file_text fs n)) ?ns)"
      using read_copy_lines [of "map (file_text fs) ?ns"] by (simp add: comp_def)
    then show ?thesis
      using True by (simp add: files_merge_def eq [OF assms] Let_def loadall_eq os_write_def file_text_def [of "fs(_ \<mapsto> _)"])
  qed (auto simp: files_merge_def eq [OF assms] Let_def loadall_eq)
qed

theorem files_merge_loads_witness:
  "case files_merge (\<lambda>_ _. [''r0'', ''r1'']) ''out'' ''r*'' ''r'' False [''r0'' \<mapsto> ''a'', ''r1'' \<mapsto> ''b''] of
       Inl e \<Rightarrow> paracel_loadall [''r0'' \<mapsto> ''a'', ''r1'' \<mapsto> ''b''] [''r0'', ''r1''] = Inl e
     | Inr fs' \<Rightarrow> paracel_loadall fs' [merge_name ''out'' ''r''] = paracel_loadall [''r0'' \<mapsto> ''a'', ''r1'' \<mapsto> ''b''] [''r0'', ''r1''] \<and>
         fs'(merge_name ''out'' ''r'' := None) = [''r0'' \<mapsto> ''a'', ''r1'' \<mapsto> ''b'']"
proof -
  have m: "merge_name ''out'' ''r'' = ''out/rmerge''" by code_simp
  show ?thesis
    using files_merge_loads [of "''out''" "''r''" "\<lambda>_ _. [''r0'', ''r1'']" "[''r0'' \<mapsto> ''a'', ''r1'' \<mapsto> ''b'']" "''r*''"]
    by (simp add: m cong: sum.case_cong)
qed

text \<open>Dumping an empty vector reads out of range.\<close>

lemma dump_vector_empty:
  "paracel_dump_vector cvt expnd out [] filename sep af mrg p fs = Inl UndefinedRead"
  by (simp add: paracel_dump_vector_def sep_upto_Nil)

text \<open>
  With \<open>merge\<close> set, rank 0 alone enters the barrier: the ranks of a run with more than one worker
  do not agree on the number of barriers.
\<close>

lemma dump_merge_barrier:
  "dump_merge expnd out filename True p fs = Inr (fs', n) \<Longrightarrow> n = (if worker_rank p = 0 then 1 else 0)"
  by (auto simp: dump_merge_def res_simps split: if_splits)

text \<open>
  A row without values leaves its line open in \<open>paracel_dump_prob_mtx\<close>, so the next row is
  read as part of it.
\<close>

lemma prob_mtx_empty_row:
  assumes "newline \<notin> set k" "newline \<notin> set k'" "newline \<notin> set s"
    and "prob_line D put (k', vs) = Inr (k' @ [tab] @ s @ [newline])"
  shows "\<exists>fs'. paracel_dump_prob_mtx D put out [(k, []), (k', vs)] filename False False p fs = Inr (fs', 0) \<and>
    paracel_loadall fs' [dump_name out filename p] = Inr [k @ [tab] @ k' @ [tab] @ s]"
proof -
  have k: "prob_line D put (k, []) = Inr (k @ [tab])" by (simp add: prob_line_def)
  have "newline \<notin> set (k @ [tab] @ k' @ [tab] @ s)" using assms(1-3) by (simp add: tab_def)
  then have "read_lines (ended (k @ [tab] @ k' @ [tab] @ s)) = [k @ [tab] @ k' @ [tab] @ s]"
    using read_lines_line [of "k @ [tab] @ k' @ [tab] @ s" "[]"] by simp
  then show ?thesis
    by (simp add: paracel_dump_prob_mtx_def k assms(4) os_write_def loadall_eq file_text_def)
qed

end
