(* ===== verification/WordCount.thy ===== *)
theory WordCount
  imports Worker Loader
begin

text \<open>
  \<open>alg/word_count/wc.hpp\<close> with the updaters and the filter of \<open>update.cpp\<close>: every rank loads its part
  of the text, sends the words to the servers, which add them up, waits for the others and reads
  the most frequent words back.

  What \<open>sync()\<close> waits for is taken to be the end of the sending of all ranks. Until then the
  calls of the ranks reach the servers in any order, given as a list of ranks (\<open>run_calls\<close>): an
  entry \<open>i\<close> is the next call of rank \<open>i\<close>. boost::split_regex is the parameter \<open>rx\<close>. Counts are \<open>int\<close>s
  that do not overflow.
\<close>

section \<open>Updaters and filter\<close>

definition wc_local_update :: "int \<Rightarrow> int \<Rightarrow> int" where
  "wc_local_update a b = a + b"

definition local_update2 :: "(string, int) dict \<Rightarrow> (string, int) dict \<Rightarrow> (string, int) dict" where
  "local_update2 a b = fold (\<lambda>(key, x) r. case dict_get r key of
       Some y \<Rightarrow> dict_set key (y + x) r
     | None \<Rightarrow> dict_set key x r) b a"

definition update_test :: "string list \<Rightarrow> string list \<Rightarrow> string list" where
  "update_test a b = a @ b"

definition wc_local_filter :: "string \<Rightarrow> bool" where
  "wc_local_filter key = startswith key ''key_''"

definition wc_updater :: "int vcodec \<Rightarrow> update_result" where
  "wc_updater V = update_proxy (venc V) (vdec V) (vdec V) (\<lambda>a b. Inr (wc_local_update a b))"

definition wc_updater2 :: "(string, int) dict vcodec \<Rightarrow> update_result" where
  "wc_updater2 V = update_proxy (venc V) (vdec V) (vdec V) (\<lambda>a b. Inr (local_update2 a b))"

definition wc_update_test :: "string list vcodec \<Rightarrow> update_result" where
  "wc_update_test V = update_proxy (venc V) (vdec V) (vdec V) (\<lambda>a b. Inr (update_test a b))"

definition wc_lib :: string where
  "wc_lib = ''/mfs/user/wuhong/paracel/local/lib/libwc_update.so''"

section \<open>What a rank sends\<close>

definition wc_parser :: "(string \<Rightarrow> string \<Rightarrow> string list) \<Rightarrow> string \<Rightarrow> string list" where
  "wc_parser rx line = filter (\<lambda>w. w \<noteq> []) (rx line ''[^-a-zA-Z0-9_]'')"

definition count_word :: "string \<Rightarrow> (string, int) dict \<Rightarrow> (string, int) dict" where
  "count_word word tmp = (case dict_get tmp word of
      Some c \<Rightarrow> dict_set word (c + 1) tmp
    | None \<Rightarrow> dict_set word 1 tmp)"

definition count_words :: "(string \<Rightarrow> string \<Rightarrow> string list) \<Rightarrow> string list \<Rightarrow> (string, int) dict" where
  "count_words rx lines = fold (\<lambda>line tmp. fold count_word (wc_parser rx line) tmp) lines []"

definition normal_calls :: "(string \<Rightarrow> string \<Rightarrow> string list) \<Rightarrow> string list \<Rightarrow> (string \<times> int) list" where
  "normal_calls rx lines = concat (map (\<lambda>line. map (\<lambda>word. (word, 1)) (wc_parser rx line)) lines)"

definition combine_calls :: "(string \<Rightarrow> string \<Rightarrow> string list) \<Rightarrow> string list \<Rightarrow> (string \<times> int) list" where
  "combine_calls rx lines = count_words rx lines"

definition dct_sz :: nat where
  "dct_sz = 10"

definition local_vd :: "(string \<Rightarrow> u64) \<Rightarrow> (string, int) dict \<Rightarrow> (string, int) dict list" where
  "local_vd hf tmp = fold (\<lambda>(k, v) vd. let indx = unat (hf k) mod dct_sz in vd[indx := dict_set k v (vd ! indx)])
     tmp (replicate dct_sz [])"

definition optimized_calls ::
  "(string \<Rightarrow> u64) \<Rightarrow> (string \<Rightarrow> string \<Rightarrow> string list) \<Rightarrow> string list \<Rightarrow> (string \<times> (string, int) dict) list"
where
  "optimized_calls hf rx lines =
     (let vd = local_vd hf (count_words rx lines) in map (\<lambda>k. (''key_'' @ to_string k, vd ! k)) [0..<dct_sz])"

section \<open>All ranks\<close>

text \<open>One \<open>paracel_bupdate\<close> of rank \<open>i\<close>; a rank that has sent everything waits in \<open>sync()\<close>.\<close>

definition call_step ::
  "('v, 'w) kvm_ops \<Rightarrow> (string \<Rightarrow> u64) \<Rightarrow> (string \<times> string) option \<Rightarrow> nat \<Rightarrow>
     ('v paralg \<times> (string \<times> 'v) list) list \<times> 'w \<Rightarrow> (('v paralg \<times> (string \<times> 'v) list) list \<times> 'w) res"
where
  "call_step K hf fn i = (\<lambda>(rs, w).
     if i < length rs
     then (case rs ! i of
        (p, []) \<Rightarrow> Inr (rs, w)
      | (p, (k, d) # cs) \<Rightarrow> rbind (paracel_bupdate K hf k d fn p w) (\<lambda>(_, p, w). Inr (rs[i := (p, cs)], w)))
     else Inr (rs, w))"

definition run_calls ::
  "('v, 'w) kvm_ops \<Rightarrow> (string \<Rightarrow> u64) \<Rightarrow> (string \<times> string) option \<Rightarrow> nat list \<Rightarrow>
     ('v paralg \<times> (string \<times> 'v) list) list \<times> 'w \<Rightarrow> (('v paralg \<times> (string \<times> 'v) list) list \<times> 'w) res"
where
  "run_calls K hf fn = rfold (call_step K hf fn)"

text \<open>Send, wait for all ranks, then read the result on rank \<open>i\<close> with \<open>fin\<close>.\<close>

definition learn ::
  "('v, 'w) kvm_ops \<Rightarrow> (string \<Rightarrow> u64) \<Rightarrow> (string \<times> string) option \<Rightarrow> (string list \<Rightarrow> (string \<times> 'v) list) \<Rightarrow>
     ('v paralg \<Rightarrow> 'w \<Rightarrow> 'r res) \<Rightarrow> nat list \<Rightarrow> nat \<Rightarrow> ('v paralg \<times> string list) list \<Rightarrow> 'w \<Rightarrow> 'r res"
where
  "learn K hf fn calls fin order i rs w =
     rbind (run_calls K hf fn order (map (\<lambda>(p, lines). (p, calls lines)) rs, w)) (\<lambda>(rs, w).
     if \<forall>(p, cs) \<in> set rs. cs = [] then rbind (nth_res rs i) (\<lambda>(p, _). fin p w) else Inl NoProgress)"

definition normal_learning where
  "normal_learning K hf rx topk =
     learn K hf (Some (wc_lib, ''wc_updater'')) (normal_calls rx) (paracel_read_topk K topk)"

definition normal_learning_with_combine where
  "normal_learning_with_combine K hf rx topk =
     learn K hf None (combine_calls rx) (paracel_read_topk K topk)"

text \<open>The handler of \<open>optimized_learning\<close>: the entries of the dictionaries of one server, to the heap.\<close>

definition optimized_handler ::
  "int \<Rightarrow> (string, (string, int) dict) dict \<Rightarrow> (string \<times> int) list \<Rightarrow> (string \<times> int) list"
where
  "optimized_handler topk d tmplst = fold (\<lambda>(_, kkv) h. fold (topk_insert topk) kkv h) d tmplst"

definition optimized_learning where
  "optimized_learning K hf rx topk =
     learn K hf (Some (wc_lib, ''wc_updater2'')) (optimized_calls hf rx) (\<lambda>p w.
       rbind (paracel_read_special_handle K wc_lib ''wc_filter'' (optimized_handler topk) [] p w)
         (\<lambda>(tmplst, p, w). Inr (rev tmplst, p, w)))"

text \<open>\<open>solve\<close>: every rank loads its part of the text first.\<close>

definition wc_load ::
  "files \<Rightarrow> string list \<Rightarrow> 'v paralg list \<Rightarrow> ('v paralg \<times> string list) list res"
where
  "wc_load fs names ps = rmapM (\<lambda>p. rbind (paracel_load fs names (\<lambda>_. Inl BadFunctionCall) p) (\<lambda>(lines, p).
     Inr (p, lines))) ps"

text \<open>\<open>learning\<close> is the method of the configured name; with another name nothing is counted.\<close>

definition wc_solve ::
  "(nat list \<Rightarrow> nat \<Rightarrow> ('v paralg \<times> string list) list \<Rightarrow> 'w \<Rightarrow> ((string \<times> int) list \<times> 'v paralg \<times> 'w) res) option \<Rightarrow>
     files \<Rightarrow> string list \<Rightarrow> nat list \<Rightarrow> nat \<Rightarrow> 'v paralg list \<Rightarrow> 'w \<Rightarrow> (string \<times> int) list res"
where
  "wc_solve learning fs names order i ps w =
     rbind (wc_load fs names ps) (\<lambda>rs.
     case learning of None \<Rightarrow> Inr []
     | Some f \<Rightarrow> rbind (f order i rs w) (\<lambda>(result, _). Inr result))"

section \<open>Lemmas: counting\<close>

abbreviation all_words :: "(string \<Rightarrow> string \<Rightarrow> string list) \<Rightarrow> string list \<Rightarrow> string list" where
  "all_words rx lines \<equiv> concat (map (wc_parser rx) lines)"

lemma count_words_fold: "count_words rx lines = fold count_word (all_words rx lines) []"
proof -
  have "fold (\<lambda>line tmp. fold count_word (wc_parser rx line) tmp) lines tmp =
      fold count_word (all_words rx lines) tmp" for tmp
    by (induction lines arbitrary: tmp) simp_all
  then show ?thesis by (simp add: count_words_def)
qed

lemma fold_count_word:
  "wf_dict tmp \<Longrightarrow> wf_dict (fold count_word ws tmp) \<and>
   dict_get (fold count_word ws tmp) w =
     (if w \<in> set ws then Some ((case dict_get tmp w of Some c \<Rightarrow> c | None \<Rightarrow> 0) + int (count_list ws w))
      else dict_get tmp w)"
proof (induction ws arbitrary: tmp)
  case (Cons a ws)
  have "wf_dict (count_word a tmp)"
    using Cons.prems by (auto simp: count_word_def split: option.splits)
  from Cons.IH [OF this] show ?case
    by (auto simp: count_word_def split: option.splits)
qed simp

lemma count_words_get:
  "wf_dict (count_words rx lines)"
  "dict_get (count_words rx lines) w =
     (if w \<in> set (all_words rx lines) then Some (int (count_list (all_words rx lines) w)) else None)"
  using fold_count_word [of "[]" "all_words rx lines" w] by (simp_all add: count_words_fold)

lemma normal_calls_words: "normal_calls rx lines = map (\<lambda>w. (w, 1)) (all_words rx lines)"
  by (simp add: normal_calls_def map_concat comp_def)

lemma delta_sum_append: "delta_sum k (a @ b) = delta_sum k a + delta_sum k b"
  by (simp add: delta_sum_def)

lemma delta_sum_mset: "mset a = mset b \<Longrightarrow> delta_sum k a = delta_sum k b"
proof -
  assume "mset a = mset b"
  then have "sum_mset (image_mset (\<lambda>(k', d). if k' = k then d else 0) (mset a)) =
      sum_mset (image_mset (\<lambda>(k', d). if k' = k then d else 0) (mset b))" by simp
  then show ?thesis by (simp add: delta_sum_def flip: mset_map sum_mset_sum_list)
qed

lemma delta_sum_words: "delta_sum k (map (\<lambda>w. (w, 1)) ws) = int (count_list ws k)"
  by (induction ws) (simp_all add: delta_sum_def)

lemma delta_sum_dict:
  "wf_dict d \<Longrightarrow> delta_sum k d = (case dict_get d k of Some x \<Rightarrow> x | None \<Rightarrow> 0)"
proof (induction d)
  case Nil
  then show ?case by (simp add: delta_sum_def)
next
  case (Cons p d)
  obtain a x where p: "p = (a, x)" by (cases p)
  then have wf: "wf_dict d" "a \<notin> fst ` set d" using Cons.prems by (auto simp: wf_dict_def)
  have "delta_sum k (p # d) = (if a = k then x else 0) + delta_sum k d" by (simp add: delta_sum_def p)
  then show ?case
    using Cons.IH [OF wf(1)] wf(2) p delta_sum_notin [of a d] by auto
qed

text \<open>Both methods send calls that add up to the number of times a word occurs.\<close>

definition tallies :: "(string \<Rightarrow> string \<Rightarrow> string list) \<Rightarrow> (string list \<Rightarrow> (string \<times> int) list) \<Rightarrow> bool" where
  "tallies rx calls \<longleftrightarrow> (\<forall>lines k. delta_sum k (calls lines) = int (count_list (all_words rx lines) k) \<and>
     fst ` set (calls lines) = set (all_words rx lines) \<and> (\<forall>(k, d) \<in> set (calls lines). 0 < d) \<and>
     length (calls lines) \<le> length (all_words rx lines))"

lemma tallies_calls: "tallies rx (normal_calls rx)" "tallies rx (combine_calls rx)"
proof -
  show "tallies rx (normal_calls rx)"
    by (auto simp: tallies_def normal_calls_words delta_sum_words image_image)
  have "w \<in> fst ` set (count_words rx lines) \<longleftrightarrow> w \<in> set (all_words rx lines)" for lines w
    by (simp only: dict_has_iff [symmetric] dict_has_def count_words_get(2)) simp
  then have "fst ` set (count_words rx lines) = set (all_words rx lines)" for lines by blast
  moreover have "length (count_words rx lines) \<le> length (all_words rx lines)" for lines
  proof -
    have "length (count_words rx lines) = card (fst ` set (count_words rx lines))"
      using count_words_get(1) [of rx lines] distinct_card by (fastforce simp: wf_dict_def)
    then show ?thesis
      using \<open>fst ` set (count_words rx lines) = set (all_words rx lines)\<close> card_length by metis
  qed
  moreover have "0 < d" if "(k, d) \<in> set (count_words rx lines)" for lines k d
  proof -
    have "dict_get (count_words rx lines) k = Some d"
      using that count_words_get(1) by (simp add: dict_get_iff)
    then have "k \<in> set (all_words rx lines) \<and> d = int (count_list (all_words rx lines) k)"
      unfolding count_words_get(2) by (metis option.distinct(1) option.inject)
    then show ?thesis by (metis count_list_0_iff of_nat_0_less_iff gr0I)
  qed
  ultimately show "tallies rx (combine_calls rx)"
    using count_words_get by (auto simp: tallies_def combine_calls_def delta_sum_dict)
qed

section \<open>Lemmas: the calls of all ranks\<close>

text \<open>What a key holds after a list of calls, in the order in which they arrived.\<close>

definition gathered :: "('v \<Rightarrow> 'v \<Rightarrow> 'v) \<Rightarrow> (string \<times> 'v) list \<Rightarrow> string \<Rightarrow> 'v option" where
  "gathered comb us k = (case map snd (filter (\<lambda>u. fst u = k) us) of
      [] \<Rightarrow> None
    | x # xs \<Rightarrow> Some (foldl comb x xs))"

lemma gathered_Nil [simp]: "gathered comb [] k = None"
  by (simp add: gathered_def)

lemma gathered_snoc:
  "gathered comb (us @ [(k, d)]) k' =
     (if k' = k then Some (case gathered comb us k of None \<Rightarrow> d | Some v \<Rightarrow> comb v d) else gathered comb us k')"
  by (auto simp: gathered_def split: list.splits)

lemma gathered_sum:
  "gathered (+) us k = (if k \<in> fst ` set us then Some (delta_sum k us) else None)"
proof (induction us rule: rev_induct)
  case (snoc u us)
  obtain k' d where "u = (k', d)" by (cases u)
  then show ?case using snoc delta_sum_notin [of k us]
    by (auto simp: gathered_snoc delta_sum_append, auto simp: delta_sum_def)
qed simp

definition rank_ready ::
  "(string \<Rightarrow> u64) \<Rightarrow> nat \<Rightarrow> (string \<Rightarrow> nat) \<Rightarrow> (string \<Rightarrow> bool) \<Rightarrow> ('v \<Rightarrow> bool) \<Rightarrow> 'v paralg \<times> (string \<times> 'v) list \<Rightarrow> bool"
where
  "rank_ready hf n srv key_ok val_ok r \<longleftrightarrow> routes hf n (fst r) \<and> server_of hf (fst r) = srv \<and>
     \<not> ssp_switch (fst r) \<and> (\<forall>(k, d) \<in> set (snd r). key_ok k \<and> val_ok d)"

text \<open>The servers hold what has arrived, and nothing else.\<close>

definition holds_calls ::
  "('w \<Rightarrow> nat \<Rightarrow> string \<Rightarrow> string option) \<Rightarrow> ('v \<Rightarrow> string) \<Rightarrow> ('v \<Rightarrow> 'v \<Rightarrow> 'v) \<Rightarrow> (string \<Rightarrow> nat) \<Rightarrow> 'w \<Rightarrow>
     (string \<times> 'v) list \<Rightarrow> bool"
where
  "holds_calls view encv comb srv w us \<longleftrightarrow>
     view w = (\<lambda>j k. if j = srv k then map_option encv (gathered comb us k) else None)"

abbreviation calls_left :: "('p \<times> 'c list) list \<Rightarrow> 'c multiset" where
  "calls_left rs \<equiv> mset (concat (map snd rs))"

lemma calls_left_step:
  assumes "i < length rs" "rs ! i = (p, c # cs)"
  shows "calls_left rs = add_mset c (calls_left (rs[i := (p, cs)]))"
proof -
  have rs: "rs = take i rs @ (p, c # cs) # drop (Suc i) rs"
    using id_take_nth_drop [OF assms(1)] assms(2) by simp
  have up: "rs[i := (p, cs)] = take i rs @ (p, cs) # drop (Suc i) rs"
    by (rule upd_conv_take_nth_drop [OF assms(1)])
  show ?thesis unfolding up by (subst rs) simp
qed

text \<open>Every partial result crosses the wire.\<close>

definition sums_ok :: "('v \<Rightarrow> 'v \<Rightarrow> 'v) \<Rightarrow> ('v \<Rightarrow> bool) \<Rightarrow> (string \<times> 'v) multiset \<Rightarrow> bool" where
  "sums_ok comb val_ok A \<longleftrightarrow>
     (\<forall>us k v. mset us \<subseteq># A \<longrightarrow> gathered comb us k = Some v \<longrightarrow> val_ok v)"

context kv_adds
begin

lemma call_step_ok:
  assumes "inv w" "\<forall>r \<in> set rs. rank_ready hf n srv key_ok val_ok r" "holds_calls view encv comb srv w us"
    and "mset us + calls_left rs = A" "sums_ok comb val_ok A"
  shows "\<exists>rs' w' us'. call_step K hf fn i (rs, w) = Inr (rs', w') \<and> inv w' \<and>
    (\<forall>r \<in> set rs'. rank_ready hf n srv key_ok val_ok r) \<and> holds_calls view encv comb srv w' us' \<and>
    mset us' + calls_left rs' = A \<and> map fst rs' = map fst rs \<and>
    (\<forall>j < length rs. length (snd (rs' ! j)) = length (snd (rs ! j)) - (if j = i then 1 else 0))"
proof (cases "i < length rs \<and> snd (rs ! i) \<noteq> []")
  case False
  then have "call_step K hf fn i (rs, w) = Inr (rs, w)"
    by (auto simp: call_step_def split: prod.splits list.splits)
  moreover have "length (snd (rs ! j)) = length (snd (rs ! j)) - (if j = i then 1 else 0)" if "j < length rs" for j
    using False that by auto
  ultimately show ?thesis using assms by blast
next
  case True
  then obtain p k d cs where i: "i < length rs" "rs ! i = (p, (k, d) # cs)"
    by (cases "rs ! i") (auto simp: neq_Nil_conv)
  have r: "rank_ready hf n srv key_ok val_ok (p, (k, d) # cs)" using assms(2) i by (metis nth_mem)
  then have p: "routes hf n p" "server_of hf p = srv" "\<not> ssp_switch p" "key_ok k" "val_ok d"
    by (simp_all add: rank_ready_def)
  note left = calls_left_step [OF i]
  have sub: "mset us \<subseteq># A" "mset (us @ [(k, d)]) \<subseteq># A"
    using assms(4) left by (auto simp flip: assms(4))
  have ok: "val_ok v" if "gathered comb us k = Some v" for v
    using assms(5) sub(1) that by (auto simp: sums_ok_def)
  have ok': "val_ok (comb v d)" if "gathered comb us k = Some v" for v
    using assms(5) sub(2) gathered_snoc [of comb us k d k] that unfolding sums_ok_def by (metis option.simps(5))
  have at: "global_view view (server_of hf p) w k = map_option encv (gathered comb us k)"
    using assms(3) p(2) by (simp add: holds_calls_def global_view_def)
  obtain w' where w': "paracel_bupdate K hf k d fn p w = Inr (True, p, w')" "inv w'"
    "view w' = (view w)(srv k := (view w (srv k))
      (k \<mapsto> encv (case gathered comb us k of None \<Rightarrow> d | Some v \<Rightarrow> comb v d)))"
    using bupdate_refines [OF assms(1) p(1,4,5,3) at ok ok'] p(2) by auto
  let ?rs = "rs[i := (p, cs)]"
  have "call_step K hf fn i (rs, w) = Inr (?rs, w')" using i w'(1) by (simp add: call_step_def)
  moreover have "\<forall>r \<in> set ?rs. rank_ready hf n srv key_ok val_ok r"
  proof
    fix x assume "x \<in> set ?rs"
    then have "x \<in> set rs \<or> x = (p, cs)" using set_update_subset_insert [of rs i "(p, cs)"] by blast
    then show "rank_ready hf n srv key_ok val_ok x" using assms(2) r by (auto simp: rank_ready_def)
  qed
  moreover have "holds_calls view encv comb srv w' (us @ [(k, d)])"
    using assms(3) by (auto simp: holds_calls_def w'(3) gathered_snoc fun_eq_iff)
  moreover have "mset (us @ [(k, d)]) + calls_left ?rs = A" using assms(4) left by simp
  moreover have "map fst ?rs = map fst rs" using i by (simp add: map_update list_update_same_conv)
  moreover have "\<forall>j < length rs. length (snd (?rs ! j)) = length (snd (rs ! j)) - (if j = i then 1 else 0)"
    using i by (auto simp: nth_list_update)
  ultimately show ?thesis using w'(2) by blast
qed

lemma run_calls_ok:
  assumes "inv w" "\<forall>r \<in> set rs. rank_ready hf n srv key_ok val_ok r" "holds_calls view encv comb srv w us"
    and "mset us + calls_left rs = A" "sums_ok comb val_ok A"
  shows "\<exists>rs' w' us'. run_calls K hf fn order (rs, w) = Inr (rs', w') \<and> inv w' \<and>
    holds_calls view encv comb srv w' us' \<and> mset us' + calls_left rs' = A \<and> map fst rs' = map fst rs \<and>
    (\<forall>j < length rs. length (snd (rs' ! j)) = length (snd (rs ! j)) - count_list order j)"
  using assms
proof (induction order arbitrary: rs w us)
  case Nil
  then show ?case by (auto simp: run_calls_def)
next
  case (Cons i order)
  obtain rs1 w1 us1 where s: "call_step K hf fn i (rs, w) = Inr (rs1, w1)" "inv w1"
    "\<forall>r \<in> set rs1. rank_ready hf n srv key_ok val_ok r" "holds_calls view encv comb srv w1 us1"
    "mset us1 + calls_left rs1 = A" "map fst rs1 = map fst rs"
    "\<forall>j < length rs. length (snd (rs1 ! j)) = length (snd (rs ! j)) - (if j = i then 1 else 0)"
    using call_step_ok [OF Cons.prems, of i] by blast
  obtain rs' w' us' where t: "run_calls K hf fn order (rs1, w1) = Inr (rs', w')" "inv w'"
    "holds_calls view encv comb srv w' us'" "mset us' + calls_left rs' = A" "map fst rs' = map fst rs1"
    "\<forall>j < length rs1. length (snd (rs' ! j)) = length (snd (rs1 ! j)) - count_list order j"
    using Cons.IH [OF s(2-5) Cons.prems(5)] by blast
  have "length rs1 = length rs" using s(6) by (metis length_map)
  then have "\<forall>j < length rs. length (snd (rs' ! j)) = length (snd (rs ! j)) - count_list (i # order) j"
    using s(7) t(6) by simp
  then show ?case using s(1,6) t by (auto simp: run_calls_def)
qed

text \<open>
  When the order lets every rank send all its calls, \<open>learn\<close> goes on with its last part on
  servers that hold what all calls add up to.
\<close>

lemma learn_ok:
  assumes "inv w" "\<forall>r \<in> set (map (\<lambda>(p, lines). (p, calls lines)) rs). rank_ready hf n srv key_ok val_ok r"
    and "holds_calls view encv comb srv w []" "sums_ok comb val_ok (mset (concat (map (calls \<circ> snd) rs)))"
    and "\<forall>j < length rs. length (calls (snd (rs ! j))) \<le> count_list order j" "i < length rs"
  shows "\<exists>us w'. learn K hf fn calls fin order i rs w = fin (fst (rs ! i)) w' \<and> inv w' \<and>
    holds_calls view encv comb srv w' us \<and> mset us = mset (concat (map (calls \<circ> snd) rs))"
proof -
  let ?rs = "map (\<lambda>(p, lines). (p, calls lines)) rs"
  have left: "concat (map snd ?rs) = concat (map (calls \<circ> snd) rs)" by (simp add: comp_def case_prod_unfold)
  then have A: "mset [] + calls_left ?rs = mset (concat (map (calls \<circ> snd) rs))" by simp
  obtain rs' w' us where run: "run_calls K hf fn order (?rs, w) = Inr (rs', w')" "inv w'"
    "holds_calls view encv comb srv w' us" "mset us + calls_left rs' = mset (concat (map (calls \<circ> snd) rs))"
    "map fst rs' = map fst ?rs"
    "\<forall>j < length ?rs. length (snd (rs' ! j)) = length (snd (?rs ! j)) - count_list order j"
    using run_calls_ok [OF assms(1,2,3) A assms(4)] by blast
  have len: "length rs' = length rs" using run(5) by (metis length_map)
  have "snd (rs' ! j) = []" if "j < length rs" for j
    using run(6) assms(5) that by (auto simp: case_prod_unfold)
  then have "\<forall>r \<in> set rs'. snd r = []" using len by (metis in_set_conv_nth)
  then have empty: "\<forall>(p, cs) \<in> set rs'. cs = []" by auto
  then have none: "concat (map snd rs') = []" by auto
  then have "mset us = mset (concat (map (calls \<circ> snd) rs))" using run(4) [unfolded none] by simp
  moreover have "fst (rs' ! i) = fst (rs ! i)"
    using arg_cong [OF run(5), of "\<lambda>xs. xs ! i"] assms(6) len by (simp add: case_prod_unfold)
  ultimately have "learn K hf fn calls fin order i rs w = fin (fst (rs ! i)) w'"
    "mset us = mset (concat (map (calls \<circ> snd) rs))"
    using run(1) empty assms(6) len by (simp_all add: learn_def nth_res_def case_prod_unfold)
  then show ?thesis using run(2,3) by blast
qed

end

section \<open>Lemmas: the most frequent words\<close>

lemma delta_sum_pos:
  "\<forall>(k, d) \<in> set us. 0 < d \<Longrightarrow> k \<in> fst ` set us \<Longrightarrow> 0 < delta_sum k us"
proof (induction us)
  case (Cons u us)
  obtain k' d where u: "u = (k', d)" by (cases u)
  have "0 \<le> delta_sum k us" using delta_sum_bounds [of us k] Cons.prems(1) by fastforce
  moreover have "delta_sum k (u # us) = (if k' = k then d else 0) + delta_sum k us"
    by (simp add: delta_sum_def u)
  moreover have "k' \<noteq> k \<Longrightarrow> 0 < delta_sum k us" using Cons u by auto
  moreover have "0 < d" using Cons.prems(1) u by simp
  ultimately show ?case by auto
qed simp

lemma tallies_total:
  assumes "tallies rx calls"
  shows "delta_sum k (concat (map (calls \<circ> snd) rs)) = int (count_list (all_words rx (concat (map snd rs))) k)"
    "fst ` set (concat (map (calls \<circ> snd) rs)) = set (all_words rx (concat (map snd rs)))"
    "\<forall>(k, d) \<in> set (concat (map (calls \<circ> snd) rs)). 0 < d"
proof -
  show "delta_sum k (concat (map (calls \<circ> snd) rs)) = int (count_list (all_words rx (concat (map snd rs))) k)"
    using assms by (induction rs) (simp_all add: delta_sum_append tallies_def, simp add: delta_sum_def)
  show "fst ` set (concat (map (calls \<circ> snd) rs)) = set (all_words rx (concat (map snd rs)))"
  proof (induction rs)
    case (Cons r rs)
    have "fst ` set (calls (snd r)) = set (all_words rx (snd r))" using assms by (simp add: tallies_def)
    with Cons show ?case by (simp add: image_Un)
  qed simp
  show "\<forall>(k, d) \<in> set (concat (map (calls \<circ> snd) rs)). 0 < d"
    using assms by (fastforce simp: tallies_def)
qed

lemma sums_ok_words:
  assumes "tallies rx calls" "\<forall>x. 0 < x \<and> x \<le> int (length (all_words rx (concat (map snd rs)))) \<longrightarrow> val_ok x"
  shows "sums_ok (+) val_ok (mset (concat (map (calls \<circ> snd) rs)))"
  unfolding sums_ok_def
proof (intro allI impI)
  fix us k v
  let ?all = "concat (map (calls \<circ> snd) rs)"
  assume sub: "mset us \<subseteq># mset ?all" and g: "gathered (+) us k = Some v"
  then have v: "k \<in> fst ` set us" "v = delta_sum k us" by (auto simp: gathered_sum split: if_splits)
  obtain rest where rest: "mset rest = mset ?all - mset us" using ex_mset by blast
  then have "mset (us @ rest) = mset ?all" using sub by simp
  then have total: "delta_sum k us + delta_sum k rest = int (count_list (all_words rx (concat (map snd rs))) k)"
    using delta_sum_mset delta_sum_append tallies_total(1) [OF assms(1)] by metis
  have "set us \<subseteq> set ?all" "set rest \<subseteq> set ?all"
    using set_mset_mono [OF sub] arg_cong [OF rest, of set_mset] in_diffD by (auto simp only: set_mset_mset) fastforce
  then have pos: "\<forall>(k, d) \<in> set us. 0 < d" "\<forall>(k, d) \<in> set rest. 0 \<le> d"
    using tallies_total(3) [OF assms(1), of rs] by fastforce+
  have "0 < v" using delta_sum_pos [OF pos(1) v(1)] v(2) by simp
  moreover have "0 \<le> delta_sum k rest" using delta_sum_bounds [OF pos(2)] by blast
  then have "v \<le> int (length (all_words rx (concat (map snd rs))))"
    using total v(2) count_le_length [of "all_words rx (concat (map snd rs))" k] by linarith
  ultimately show "val_ok v" using assms(2) by blast
qed

text \<open>The entries of all servers, and those of one.\<close>

definition word_counts :: "string list \<Rightarrow> (string, int) dict" where
  "word_counts words = map (\<lambda>k. (k, int (count_list words k))) (remdups words)"

definition counts_at :: "(string \<Rightarrow> nat) \<Rightarrow> string list \<Rightarrow> nat \<Rightarrow> (string, int) dict" where
  "counts_at srv words j = filter (\<lambda>p. srv (fst p) = j) (word_counts words)"

lemma word_counts_wf: "wf_dict (word_counts words)" "wf_dict (counts_at srv words j)"
proof -
  have "map fst (word_counts words) = remdups words" by (simp add: word_counts_def comp_def)
  then show "wf_dict (word_counts words)" by (simp add: wf_dict_def)
  then show "wf_dict (counts_at srv words j)"
    by (auto simp: wf_dict_def counts_at_def distinct_map_filter)
qed

lemma counts_at_get:
  "dict_get (counts_at srv words j) k =
     (if k \<in> set words \<and> srv k = j then Some (int (count_list words k)) else None)"
proof -
  have "(k, v) \<in> set (counts_at srv words j) \<longleftrightarrow> k \<in> set words \<and> srv k = j \<and> v = int (count_list words k)" for v
    by (auto simp: counts_at_def word_counts_def)
  then have "dict_get (counts_at srv words j) k = Some v \<longleftrightarrow>
      k \<in> set words \<and> srv k = j \<and> v = int (count_list words k)" for v
    using dict_get_iff [OF word_counts_wf(2)] by blast
  then show ?thesis by (metis (full_types) not_None_eq)
qed

text \<open>A store of counts: it adds what it is sent, and it can be read whole.\<close>

locale count_store = kv_scan K n inv view encv key_ok val_ok fn wc_local_update dct_ok
  for K :: "(int, 'w) kvm_ops" and n inv view encv key_ok val_ok fn dct_ok
begin

lemma learn_topk:
  assumes "tallies rx calls" "inv w" "\<And>j k. view w j k = None"
    and "\<forall>(p, lines) \<in> set rs. routes hf n p \<and> server_of hf p = srv \<and> \<not> ssp_switch p"
    and "words = all_words rx (concat (map snd rs))" "\<forall>k \<in> set words. key_ok k"
    and "\<forall>x. 0 < x \<and> x \<le> int (length words) \<longrightarrow> val_ok x" "\<forall>d. mset d \<subseteq># mset (word_counts words) \<longrightarrow> dct_ok d"
    and "\<forall>j < length rs. length (calls (snd (rs ! j))) \<le> count_list order j" "i < length rs" "0 \<le> topk"
  shows "\<exists>r w'. learn K hf fn calls (paracel_read_topk K topk) order i rs w = Inr (r, fst (rs ! i), w') \<and>
    map snd r = take (nat topk) (rev (sort (map snd (word_counts words)))) \<and> mset r \<subseteq># mset (word_counts words)"
proof -
  let ?calls = "concat (map (calls \<circ> snd) rs)"
  have plus: "wc_local_update = (+)" by (simp add: wc_local_update_def fun_eq_iff)
  have sums: "sums_ok wc_local_update val_ok (mset ?calls)"
    unfolding plus using sums_ok_words [OF assms(1), of rs val_ok] assms(5,7) by blast
  have call: "key_ok k \<and> val_ok d" if "(k, d) \<in> set ?calls" for k d
  proof -
    have "k \<in> fst ` set ?calls" using that by (rule image_eqI [rotated]) simp
    then have "key_ok k" unfolding tallies_total(2) [OF assms(1)] using assms(5,6) by blast
    moreover have "mset [(k, d)] \<subseteq># mset ?calls" "gathered wc_local_update [(k, d)] k = Some d"
      using that by (simp_all add: gathered_def)
    then have "val_ok d" using sums by (metis sums_ok_def)
    ultimately show ?thesis by blast
  qed
  have ready: "\<forall>r \<in> set (map (\<lambda>(p, lines). (p, calls lines)) rs). rank_ready hf n srv key_ok val_ok r"
  proof
    fix r assume "r \<in> set (map (\<lambda>(p, lines). (p, calls lines)) rs)"
    then obtain p lines where r: "(p, lines) \<in> set rs" "r = (p, calls lines)" by auto
    then have "set (calls lines) \<subseteq> set ?calls" by force
    then have "\<forall>(k, d) \<in> set (calls lines). key_ok k \<and> val_ok d" using call by blast
    moreover have "routes hf n p \<and> server_of hf p = srv \<and> \<not> ssp_switch p" using r(1) assms(4) by blast
    ultimately show "rank_ready hf n srv key_ok val_ok r" by (simp add: rank_ready_def r(2))
  qed
  have start: "holds_calls view encv wc_local_update srv w []" by (simp add: holds_calls_def fun_eq_iff assms(3))
  obtain us w' where w': "learn K hf fn calls (paracel_read_topk K topk) order i rs w =
      paracel_read_topk K topk (fst (rs ! i)) w'" "inv w'"
    "holds_calls view encv wc_local_update srv w' us" "mset us = mset ?calls"
    using learn_ok [OF assms(2) ready start sums assms(9,10)] by blast
  have us: "gathered wc_local_update us k = (if k \<in> set words then Some (int (count_list words k)) else None)" for k
    unfolding plus gathered_sum delta_sum_mset [OF w'(4)] mset_eq_setD [OF w'(4)]
      tallies_total(1,2) [OF assms(1)] assms(5) by simp
  have p: "routes hf n (fst (rs ! i))" "server_of hf (fst (rs ! i)) = srv"
    using assms(4) nth_mem [OF assms(10)] by (auto simp: case_prod_unfold)
  then have sz: "srv_sz (fst (rs ! i)) = n" by (simp add: routes_def)
  have srv: "\<forall>k \<in> set words. srv k < n" using routes_server [OF p(1)] p(2) by auto
  let ?D = "counts_at srv words"
  have "mset (?D j) \<subseteq># mset (word_counts words)" for j by (simp add: counts_at_def)
  then have D: "\<forall>j \<in> set [0..<n]. j < n \<and> wf_dict (?D j) \<and> dct_ok (?D j) \<and>
      (\<forall>k. view w' j k = map_option encv (dict_get (?D j) k))"
    using assms(8) w'(3) word_counts_wf(2) by (auto simp: holds_calls_def counts_at_get us)
  obtain ds w'' where ds: "server_dicts (m_pullall K) [0..<n] w' = Inr (ds, w'')"
    "list_all2 (\<lambda>j d. mset d = mset (?D j)) [0..<n] ds"
    using server_dicts_ok [OF w'(2) D] by blast
  have "\<forall>p \<in> set (word_counts words). srv (fst p) < n" using srv by (auto simp: word_counts_def)
  note split = split_dicts [OF ds(2) [unfolded counts_at_def] word_counts_wf(1) this]
  have wf: "\<forall>d \<in> set ds. wf_dict d" and all: "mset (concat ds) = mset (word_counts words)"
    by (rule split)+
  then have "mset (map snd (concat ds)) = mset (map snd (word_counts words))" by simp
  then have srt: "sort (map snd (concat ds)) = sort (map snd (word_counts words))"
    by (metis sorted_list_of_multiset_mset)
  show ?thesis
    using read_topk_run [OF ds(1) [folded sz] wf assms(11)] w'(1) srt all by auto
qed

end

interpretation wcs: count_store "client_kvm (env_mp E) (cluster_zmq E addr) V" n
    "ainv E V fn wc_local_update addr n" sview "pk_pack (venc V)" "str_wire (env_mp E)"
    "wire_ok (venc V) (vdec V)" fn "dct_wire (env_mp E) V"
  for E addr V n fn
  by unfold_locales

section \<open>Lemmas: loading\<close>

lemma routes_grid [simp]:
  "routes hf n (p\<lparr>npx := x, npy := y\<rparr>) = routes hf n p"
  "server_of hf (p\<lparr>npx := x, npy := y\<rparr>) = server_of hf p"
  by (simp_all add: routes_def server_of_def fun_eq_iff)

text \<open>The ranks of a run, in order: connected to the same servers, without SSP.\<close>

definition ranks_of :: "(string \<Rightarrow> u64) \<Rightarrow> nat \<Rightarrow> (string \<Rightarrow> nat) \<Rightarrow> 'v paralg list \<Rightarrow> bool" where
  "ranks_of hf n srv ps \<longleftrightarrow> ps \<noteq> [] \<and> (\<forall>i < length ps. worker_rank (ps ! i) = i \<and> worker_size (ps ! i) = length ps) \<and>
     (\<forall>p \<in> set ps. routes hf n p \<and> server_of hf p = srv \<and> \<not> ssp_switch p)"

lemma wc_load_ok:
  assumes "ranks_of hf n srv ps"
    and "files_partition fs (int BLK_SZ) (new_partition names (int (length ps)) ''linesplit'') = Inr P'"
    and "\<forall>nm \<in> set names. fs nm \<noteq> None" "no_blank fs P'"
  shows "\<exists>rs. wc_load fs names ps = Inr rs \<and> length rs = length ps \<and>
    (\<forall>(p, lines) \<in> set rs. routes hf n p \<and> server_of hf p = srv \<and> \<not> ssp_switch p) \<and>
    concat (map snd rs) = concat (map (\<lambda>nm. read_lines (file_text fs nm)) names)"
proof -
  have ranks: "ps \<noteq> []" "\<forall>i < length ps. worker_rank (ps ! i) = i \<and> worker_size (ps ! i) = length ps"
    using assms(1) by (simp_all add: ranks_of_def)
  obtain ls where ls: "length ls = length ps"
    "\<forall>i < length ps. \<exists>x y. paracel_load fs names (\<lambda>_. Inl BadFunctionCall) (ps ! i) =
      Inr (ls ! i, (ps ! i)\<lparr>npx := x, npy := y\<rparr>)"
    "concat ls = concat (map (\<lambda>nm. read_lines (file_text fs nm)) names)"
    using paracel_load_ranks [OF ranks assms(2-4)] by blast
  have step: "\<exists>rs. rmapM (\<lambda>p. rbind (paracel_load fs names (\<lambda>_. Inl BadFunctionCall) p) (\<lambda>(lines, p). Inr (p, lines))) qs =
        Inr rs \<and> map snd rs = ks \<and>
      (\<forall>(p, lines) \<in> set rs. routes hf n p \<and> server_of hf p = srv \<and> \<not> ssp_switch p)"
    if "list_all2 (\<lambda>q l. \<exists>x y. paracel_load fs names (\<lambda>_. Inl BadFunctionCall) q = Inr (l, q\<lparr>npx := x, npy := y\<rparr>)) qs ks"
      "\<forall>q \<in> set qs. routes hf n q \<and> server_of hf q = srv \<and> \<not> ssp_switch q" for qs :: "'a paralg list" and ks
    using that by (induction qs ks rule: list_all2_induct) auto
  have "list_all2 (\<lambda>q l. \<exists>x y. paracel_load fs names (\<lambda>_. Inl BadFunctionCall) q = Inr (l, q\<lparr>npx := x, npy := y\<rparr>)) ps ls"
    using ls(1,2) by (simp add: list_all2_conv_all_nth)
  then obtain rs where rs: "wc_load fs names ps = Inr rs" "map snd rs = ls"
    "\<forall>(p, lines) \<in> set rs. routes hf n p \<and> server_of hf p = srv \<and> \<not> ssp_switch p"
    using step [of ps ls] assms(1) unfolding wc_load_def ranks_of_def by blast
  have "length rs = length ps" using rs(2) ls(1) by (metis length_map)
  then show ?thesis using rs ls(3) by auto
qed

section \<open>Word counts, from the files to the result\<close>

text \<open>The two methods whose counts are numbers, and the updater a server needs for them.\<close>

definition wc_learning where
  "wc_learning K hf rx topk method =
     (if method = ''normal'' then Some (normal_learning K hf rx topk)
      else if method = ''normal_with_combine'' then Some (normal_learning_with_combine K hf rx topk)
      else None)"

definition wc_fn :: "string \<Rightarrow> (string \<times> string) option" where
  "wc_fn method = (if method = ''normal'' then Some (wc_lib, ''wc_updater'') else None)"

lemma in_word_counts: "(k, c) \<in> set (word_counts words) \<longleftrightarrow> k \<in> set words \<and> c = int (count_list words k)"
  by (auto simp: word_counts_def)

lemma word_counts_part:
  assumes "mset r \<subseteq># mset (word_counts words)"
  shows "distinct (map fst r)" "\<forall>(k, c) \<in> set r. k \<in> set words \<and> c = int (count_list words k)"
proof -
  obtain rest where "mset rest = mset (word_counts words) - mset r" using ex_mset by blast
  then have m: "mset (r @ rest) = mset (word_counts words)" using assms by simp
  then have "mset (map fst (r @ rest)) = mset (map fst (word_counts words))" by (metis mset_map)
  then have "distinct (map fst (r @ rest))"
    using word_counts_wf(1) [of words] mset_eq_imp_distinct_iff unfolding wf_dict_def by metis
  then show "distinct (map fst r)" by simp
  have "set r \<subseteq> set (word_counts words)" using mset_eq_setD [OF m] by auto
  then show "\<forall>(k, c) \<in> set r. k \<in> set words \<and> c = int (count_list words k)" using in_word_counts by blast
qed


text \<open>Witness: two ranks, one server, the lines \<open>a\<close> and \<open>a b\<close>.\<close>

definition wc_codec :: "int vcodec" where
  "wc_codec = \<lparr>venc = (\<lambda>x. to_string (nat x)), vdec = (\<lambda>s. Some (int (digits_val s)))\<rparr>"

definition wc_env :: env where
  "wc_env = plain_env\<lparr>env_dl_update := (\<lambda>_ _. Some (wc_updater wc_codec))\<rparr>"

definition wc_text :: files where
  "wc_text = (\<lambda>n. Some [CHR ''a'', newline, CHR ''a'', CHR '' '', CHR ''b''])"

definition wc_rx :: "string \<Rightarrow> string \<Rightarrow> string list" where
  "wc_rx s re = str_split s (CHR '' '')"

definition wc_workers :: "'v paralg list" where
  "wc_workers = map (\<lambda>i. new_paralg (\<lambda>s. word_of_nat (length s)) 1 i 2 1 0 False) [0, 1]"

lemma wc_lines:
  "concat (map (wc_parser wc_rx) (concat (map (\<lambda>nm. read_lines (file_text wc_text nm)) [''x'']))) = [''a'', ''a'', ''b'']"
  by code_simp

lemma wc_blocks:
  "\<exists>P. files_partition wc_text (int BLK_SZ) (new_partition [''x''] 2 ''linesplit'') = Inr P \<and>
    no_blank wc_text P"
proof -
  have "files_partition wc_text (int BLK_SZ) (new_partition [''x''] 2 ''linesplit'') =
    Inr (new_partition [''x''] 2 ''linesplit''\<lparr>slst := [0, 2], elst := [2, 5], displs := [0, 5]\<rparr>)"
    by code_simp
  moreover have "numbered 0 [CHR ''a'', newline, CHR ''a'', CHR '' '', CHR ''b''] = [(0, ''a''), (2, ''a b'')]"
    by code_simp
  ultimately show ?thesis by (simp add: no_blank_def new_partition_def file_text_def wc_text_def)
qed

lemma wc_ranks: "ranks_of (\<lambda>s. word_of_nat (length s)) 1 (\<lambda>_. 0) (wc_workers :: 'v paralg list)"
proof -
  have p: "routes hf 1 (new_paralg hg 1 i 2 1 0 False :: 'v paralg)" for hf hg i
    by (rule routes_new_paralg) simp
  then have "server_of hf (new_paralg hg 1 i 2 1 0 False :: 'v paralg) k = 0" for hf hg i k
    using routes_server [OF p, of hf hg i k] by simp
  then have s: "server_of hf (new_paralg hg 1 i 2 1 0 False :: 'v paralg) = (\<lambda>_. 0)" for hf hg i
    by (simp add: fun_eq_iff)
  have sel: "worker_rank (new_paralg hg 1 i 2 1 0 False :: 'v paralg) = i"
    "worker_size (new_paralg hg 1 i 2 1 0 False :: 'v paralg) = 2"
    "ssp_switch (new_paralg hg 1 i 2 1 0 False :: 'v paralg) = False" for hg i
    by (simp_all add: new_paralg_def)
  have ps: "length (wc_workers :: 'v paralg list) = 2" by (simp add: wc_workers_def)
  have nth: "(wc_workers :: 'v paralg list) ! i = new_paralg (\<lambda>s. word_of_nat (length s)) 1 i 2 1 0 False" if "i < 2" for i
    using that by (auto simp: wc_workers_def less_2_cases_iff)
  show ?thesis
    unfolding ranks_of_def all_set_conv_all_nth ps using ps by (auto simp: nth p s sel simp del: One_nat_def)
qed

lemma wc_wire:
  "s \<in> {wc_lib, ''wc_updater'', ''a'', ''b''} \<Longrightarrow> str_wire plain_msgpack s"
  "x \<in> {1, 2, 3} \<Longrightarrow> wire_ok (venc wc_codec) (vdec wc_codec) x"
proof -
  have c: "\<forall>s \<in> {wc_lib, ''wc_updater'', ''a'', ''b'', ''1'', ''2'', ''3''}. clean seperator (pk_pack (\<lambda>s. s) s)"
    by (simp add: wc_lib_def pk_pack_def le_encode_numeral, simp add: char_of_def,
        simp add: clean_Cons, simp add: seperator_def)
  then show "s \<in> {wc_lib, ''wc_updater'', ''a'', ''b''} \<Longrightarrow> str_wire plain_msgpack s"
    using plain_wire [of s] by (auto simp: wc_lib_def)
  have "to_string 1 = ''1''" "to_string 2 = ''2''" "to_string 3 = ''3''"
    by (simp_all add: to_string.simps char_of_def bit_0)
  then show "wire_ok (venc wc_codec) (vdec wc_codec) x" if "x \<in> {1, 2, 3}"
    using that c by (auto simp: wire_ok_def wc_codec_def packable_def pk_pack_def digits_val_def digit_val_def)
qed

lemma length_dct_bytes:
  "\<forall>(k, v) \<in> set d. length k + length v \<le> c \<Longrightarrow> length (dct_bytes d) \<le> (16 + c) * length d"
  by (induction d) (auto simp: dct_bytes_def)

lemma wc_dicts:
  assumes "mset d \<subseteq># mset [(''a'', 2), (''b'', 1)]"
  shows "dct_wire plain_msgpack wc_codec d"
proof -
  have one: "to_string 1 = ''1''" "to_string 2 = ''2''" by (simp_all add: to_string.simps char_of_def bit_0)
  have d: "set e \<subseteq> {(''a'', 2), (''b'', 1)} \<and> length e \<le> 2" if "mset e = mset d" for e :: "(string \<times> int) list"
  proof -
    have sub: "mset e \<subseteq># mset [(''a'', 2), (''b'', 1)]" using assms that by simp
    from set_mset_mono [OF sub] size_mset_mono [OF sub] show ?thesis by simp
  qed
  have v: "packable (venc wc_codec) (vdec wc_codec) x" if "x \<in> {1, 2}" for x
    using wc_wire(2) [of x] that by (auto simp: wire_ok_def)
  have "packable (mp_dct plain_msgpack) (um_dct plain_msgpack) (map (\<lambda>(k, v). (k, pk_pack (venc wc_codec) v)) e)"
    if "mset e = mset d" for e
  proof -
    let ?e = "map (\<lambda>(k, v). (k, pk_pack (venc wc_codec) v)) e"
    have small: "length k \<le> 1 \<and> length v \<le> 9" if "(k, v) \<in> set ?e" for k v
      using that d [OF \<open>mset e = mset d\<close>] one by (auto simp: pk_pack_def wc_codec_def)
    then have "\<forall>(k, v) \<in> set ?e. length k + length v \<le> 10" by fastforce
    then have "length (dct_bytes ?e) \<le> (16 + 10) * length ?e" by (rule length_dct_bytes)
    then have "length (dct_bytes ?e) < 2 ^ 64" using d [OF that] by simp
    moreover have "length k < 2 ^ 64 \<and> length v < 2 ^ 64" if "(k, v) \<in> set ?e" for k v
      using small [OF that] by simp
    then have "\<forall>(k, v) \<in> set ?e. length k < 2 ^ 64 \<and> length v < 2 ^ 64" by blast
    ultimately show ?thesis by (rule plain_packable(3) [rotated])
  qed
  moreover have "packable (venc wc_codec) (vdec wc_codec) x" if "(k, x) \<in> set d" for k x
    using d [OF refl] v that by blast
  then have "\<forall>(k, x) \<in> set d. packable (venc wc_codec) (vdec wc_codec) x" by blast
  ultimately show ?thesis by (simp add: dct_wire_def)
qed


end
