(* ===== verification/WordDicts.thy ===== *)
theory WordDicts
  imports WordCount
begin

text \<open>
  \<open>optimized_learning\<close> of \<open>wc.hpp\<close>, the method \<open>main\<close> chooses: a rank deals its counts to ten
  dictionaries and sends each under its own key; the servers merge them with \<open>local_update2\<close>, and the
  result is read with a filter on the keys. The lemmas follow the counts through the ten
  dictionaries; the property is the same as for the two other methods.
\<close>

abbreviation bucket :: "(string \<Rightarrow> u64) \<Rightarrow> string \<Rightarrow> nat" where
  "bucket hf k \<equiv> unat (hf k) mod dct_sz"

definition vd_key :: "nat \<Rightarrow> string" where
  "vd_key j = ''key_'' @ to_string j"

lemma vd_key_kept [simp]: "wc_local_filter (vd_key j)"
  by (simp add: wc_local_filter_def startswith_prefix vd_key_def)

lemma vd_key_inject [simp]: "vd_key i = vd_key j \<longleftrightarrow> i = j"
  by (simp add: vd_key_def to_string_inject)

section \<open>Merging dictionaries\<close>

lemma delta_sum_set: "wf_dict d \<Longrightarrow> delta_sum k (dict_set a x d) = (if k = a then x else delta_sum k d)"
  by (simp add: delta_sum_dict)

lemma local_update2_merge:
  assumes "wf_dict a" "wf_dict b"
  shows "wf_dict (local_update2 a b)" "fst ` set (local_update2 a b) = fst ` set a \<union> fst ` set b"
    "delta_sum k (local_update2 a b) = delta_sum k a + delta_sum k b"
proof -
  let ?f = "\<lambda>(key, x) r. case dict_get r key of
       Some y \<Rightarrow> dict_set key (y + x) r
     | None \<Rightarrow> dict_set key x r"
  have "wf_dict r \<Longrightarrow> wf_dict (fold ?f b r) \<and> fst ` set (fold ?f b r) = fst ` set r \<union> fst ` set b \<and>
      delta_sum k (fold ?f b r) = delta_sum k r + delta_sum k b" for r
  proof (induction b arbitrary: r)
    case (Cons p b)
    obtain key x where p: "p = (key, x)" by (cases p)
    have step: "wf_dict (?f p r)" "fst ` set (?f p r) = insert key (fst ` set r)"
      "delta_sum k (?f p r) = delta_sum k r + (if key = k then x else 0)"
      using Cons.prems by (auto simp: p delta_sum_set delta_sum_dict dict_keys_set split: option.splits)
    have "delta_sum k (p # b) = (if key = k then x else 0) + delta_sum k b" by (simp add: delta_sum_def p)
    then show ?case using Cons.IH [OF step(1)] step(2,3) p by auto
  qed (simp add: delta_sum_def)
  from this [OF assms(1)] show "wf_dict (local_update2 a b)"
    "fst ` set (local_update2 a b) = fst ` set a \<union> fst ` set b"
    "delta_sum k (local_update2 a b) = delta_sum k a + delta_sum k b"
    by (simp_all add: local_update2_def)
qed

text \<open>What is sent under a key for a word.\<close>

definition sent_for :: "string \<Rightarrow> string \<Rightarrow> (string \<times> (string, int) dict) list \<Rightarrow> int" where
  "sent_for key k us = (\<Sum>(key', d)\<leftarrow>us. if key' = key then delta_sum k d else 0)"

lemma sent_for_append: "sent_for key k (a @ b) = sent_for key k a + sent_for key k b"
  by (simp add: sent_for_def)

lemma sent_for_mset: "mset a = mset b \<Longrightarrow> sent_for key k a = sent_for key k b"
proof -
  assume "mset a = mset b"
  then have "sum_mset (image_mset (\<lambda>(key', d). if key' = key then delta_sum k d else 0) (mset a)) =
      sum_mset (image_mset (\<lambda>(key', d). if key' = key then delta_sum k d else 0) (mset b))" by simp
  then show ?thesis by (simp add: sent_for_def flip: mset_map sum_mset_sum_list)
qed

definition words_for :: "string \<Rightarrow> (string \<times> (string, int) dict) list \<Rightarrow> string set" where
  "words_for key us = {k. \<exists>d. (key, d) \<in> set us \<and> k \<in> fst ` set d}"

text \<open>What the servers hold under a key is one dictionary of the sums of what was sent for it.\<close>

lemma gathered_dicts:
  assumes "\<forall>(key, d) \<in> set us. wf_dict d"
  shows "case gathered local_update2 us key of
      None \<Rightarrow> key \<notin> fst ` set us
    | Some D \<Rightarrow> key \<in> fst ` set us \<and> wf_dict D \<and> fst ` set D = words_for key us \<and>
        (\<forall>k. delta_sum k D = sent_for key k us)"
  using assms
proof (induction us rule: rev_induct)
  case (snoc u us)
  obtain key' d where u: "u = (key', d)" by (cases u)
  have d: "wf_dict d" using snoc.prems u by simp
  have IH: "case gathered local_update2 us key of
      None \<Rightarrow> key \<notin> fst ` set us
    | Some D \<Rightarrow> key \<in> fst ` set us \<and> wf_dict D \<and> fst ` set D = words_for key us \<and>
        (\<forall>k. delta_sum k D = sent_for key k us)"
    using snoc by simp
  have last: "sent_for key k (us @ [u]) = sent_for key k us + (if key' = key then delta_sum k d else 0)"
    "words_for key (us @ [u]) = words_for key us \<union> (if key' = key then fst ` set d else {})" for k
    by (auto simp: sent_for_def words_for_def u)
  show ?case
  proof (cases "key' = key")
    case False
    then show ?thesis using IH last by (auto simp: u gathered_snoc split: option.splits)
  next
    case True
    show ?thesis
    proof (cases "gathered local_update2 us key")
      case None
      then have no: "key \<notin> fst ` set us" using IH by simp
      then have "words_for key us = {}" by (auto simp: words_for_def image_iff)
      moreover have "sent_for key k us = 0" for k
        using no by (induction us) (auto simp: sent_for_def)
      ultimately show ?thesis using None True d last by (simp add: u gathered_snoc)
    next
      case (Some D)
      then show ?thesis using IH d last True by (simp add: u gathered_snoc local_update2_merge)
    qed
  qed
qed simp

section \<open>The ten dictionaries of a rank\<close>

lemma local_vd_fold:
  assumes "wf_dict tmp" "length vd = dct_sz" "\<forall>j < dct_sz. wf_dict (vd ! j)"
  shows "length (fold (\<lambda>(k, v) vd. let indx = bucket hf k in vd[indx := dict_set k v (vd ! indx)]) tmp vd) = dct_sz \<and>
    (\<forall>j < dct_sz. wf_dict (fold (\<lambda>(k, v) vd. let indx = bucket hf k in vd[indx := dict_set k v (vd ! indx)]) tmp vd ! j) \<and>
      (\<forall>k. dict_get (fold (\<lambda>(k, v) vd. let indx = bucket hf k in vd[indx := dict_set k v (vd ! indx)]) tmp vd ! j) k =
        (if bucket hf k = j \<and> k \<in> fst ` set tmp then dict_get tmp k else dict_get (vd ! j) k)))"
  using assms
proof (induction tmp arbitrary: vd)
  case (Cons p tmp)
  obtain a x where p: "p = (a, x)" by (cases p)
  have b: "bucket hf a < dct_sz" by (simp add: dct_sz_def)
  have wf: "wf_dict tmp" "a \<notin> fst ` set tmp" using Cons.prems(1) p by (auto simp: wf_dict_def)
  let ?vd = "vd[bucket hf a := dict_set a x (vd ! bucket hf a)]"
  have vd: "length ?vd = dct_sz" "\<forall>j < dct_sz. wf_dict (?vd ! j)"
    using Cons.prems by (auto simp: nth_list_update)
  have get: "dict_get (?vd ! j) k = (if bucket hf k = j \<and> k = a then Some x else dict_get (vd ! j) k)"
    if "j < dct_sz" for j k
    using Cons.prems(2) b that by (auto simp: nth_list_update)
  from Cons.IH [OF wf(1) vd] show ?case using get wf(2) p by (auto simp: Let_def)
qed simp

lemma local_vd_get:
  assumes "wf_dict tmp"
  shows "length (local_vd hf tmp) = dct_sz"
    "j < dct_sz \<Longrightarrow> wf_dict (local_vd hf tmp ! j)"
    "j < dct_sz \<Longrightarrow> dict_get (local_vd hf tmp ! j) k = (if bucket hf k = j then dict_get tmp k else None)"
proof -
  have "\<forall>j < dct_sz. wf_dict (replicate dct_sz ([] :: (string, int) dict) ! j)" by simp
  note vd = local_vd_fold [OF assms length_replicate this, of hf, folded local_vd_def]
  show "length (local_vd hf tmp) = dct_sz" using vd by blast
  show "j < dct_sz \<Longrightarrow> wf_dict (local_vd hf tmp ! j)" using vd by blast
  have none: "k \<notin> fst ` set tmp \<Longrightarrow> dict_get tmp k = None" by (simp add: dict_get_def map_of_eq_None_iff)
  assume j: "j < dct_sz"
  then have "dict_get (local_vd hf tmp ! j) k =
      (if bucket hf k = j \<and> k \<in> fst ` set tmp then dict_get tmp k else dict_get (replicate dct_sz ([] :: (string, int) dict) ! j) k)"
    using vd by blast
  then show "dict_get (local_vd hf tmp ! j) k = (if bucket hf k = j then dict_get tmp k else None)"
    using none j by auto
qed

text \<open>The calls of one rank, and of all of them.\<close>

lemma optimized_calls_set:
  "(key, d) \<in> set (optimized_calls hf rx lines) \<longleftrightarrow>
     (\<exists>j < dct_sz. key = vd_key j \<and> d = local_vd hf (count_words rx lines) ! j)"
  by (auto simp: optimized_calls_def Let_def vd_key_def)

lemma local_vd_words:
  assumes "j < dct_sz"
  shows "fst ` set (local_vd hf (count_words rx lines) ! j) = {k \<in> set (all_words rx lines). bucket hf k = j}"
    "delta_sum k (local_vd hf (count_words rx lines) ! j) =
      (if bucket hf k = j then int (count_list (all_words rx lines) k) else 0)"
    "\<forall>(k, x) \<in> set (local_vd hf (count_words rx lines) ! j). 0 < x"
proof -
  note vd = local_vd_get(2) [OF count_words_get(1) assms, of hf rx lines]
    local_vd_get(3) [OF count_words_get(1) assms, of hf rx lines]
  have get: "dict_get (local_vd hf (count_words rx lines) ! j) k =
      (if bucket hf k = j \<and> k \<in> set (all_words rx lines) then Some (int (count_list (all_words rx lines) k)) else None)" for k
    unfolding vd(2) count_words_get(2) by auto
  have "k \<in> fst ` set (local_vd hf (count_words rx lines) ! j) \<longleftrightarrow> bucket hf k = j \<and> k \<in> set (all_words rx lines)" for k
    unfolding dict_has_iff [symmetric] dict_has_def get by auto
  then show "fst ` set (local_vd hf (count_words rx lines) ! j) = {k \<in> set (all_words rx lines). bucket hf k = j}"
    by auto
  have "k \<notin> set (all_words rx lines) \<Longrightarrow> count_list (all_words rx lines) k = 0"
    unfolding count_list_0_iff .
  then show "delta_sum k (local_vd hf (count_words rx lines) ! j) =
      (if bucket hf k = j then int (count_list (all_words rx lines) k) else 0)"
    unfolding delta_sum_dict [OF vd(1)] get by auto
  show "\<forall>(k, x) \<in> set (local_vd hf (count_words rx lines) ! j). 0 < x"
  proof clarify
    fix k x assume "(k, x) \<in> set (local_vd hf (count_words rx lines) ! j)"
    then have "dict_get (local_vd hf (count_words rx lines) ! j) k = Some x" using vd(1) by (simp add: dict_get_iff)
    then have "k \<in> set (all_words rx lines)" "x = int (count_list (all_words rx lines) k)"
      unfolding get by (metis option.distinct(1) option.inject)+
    then show "0 < x" by (metis count_list_0_iff of_nat_0_less_iff gr0I)
  qed
qed

lemma sent_for_rank:
  assumes "j < dct_sz"
  shows "sent_for (vd_key j) k (optimized_calls hf rx lines) =
    (if bucket hf k = j then int (count_list (all_words rx lines) k) else 0)"
proof -
  have "sent_for (vd_key j) k (optimized_calls hf rx lines) =
      (\<Sum>i\<leftarrow>[0..<dct_sz]. if i = j then delta_sum k (local_vd hf (count_words rx lines) ! i) else 0)"
    by (simp add: sent_for_def optimized_calls_def Let_def comp_def vd_key_def to_string_inject)
  also have "\<dots> = (\<Sum>i \<in> {0..<dct_sz}. if i = j then delta_sum k (local_vd hf (count_words rx lines) ! i) else 0)"
    by (simp only: interv_sum_list_conv_sum_set_nat set_upt)
  also have "\<dots> = delta_sum k (local_vd hf (count_words rx lines) ! j)"
    using assms by (simp add: sum.delta)
  finally show ?thesis by (simp only: local_vd_words(2) [OF assms])
qed

section \<open>All calls\<close>

text \<open>A dictionary of positive counts of some words, and one that servers keep such dictionaries in.\<close>

definition counts_ok :: "string list \<Rightarrow> (string, int) dict \<Rightarrow> bool" where
  "counts_ok words d \<longleftrightarrow> wf_dict d \<and> (\<forall>(k, x) \<in> set d. k \<in> set words \<and> 0 < x \<and> x \<le> int (length words))"

definition vd_ok :: "string list \<Rightarrow> (string, (string, int) dict) dict \<Rightarrow> bool" where
  "vd_ok words e \<longleftrightarrow> wf_dict e \<and> (\<forall>(key, d) \<in> set e. (\<exists>j < dct_sz. key = vd_key j) \<and> counts_ok words d)"

abbreviation rank_calls where
  "rank_calls hf rx rs \<equiv> concat (map (optimized_calls hf rx \<circ> snd) rs)"

lemma rank_calls_in:
  assumes "(key, d) \<in> set (rank_calls hf rx rs)"
  shows "\<exists>j < dct_sz. key = vd_key j \<and> wf_dict d \<and>
    (\<forall>(k, x) \<in> set d. k \<in> set (all_words rx (concat (map snd rs))) \<and> bucket hf k = j \<and> 0 < x)"
proof -
  obtain r where r: "r \<in> set rs" "(key, d) \<in> set (optimized_calls hf rx (snd r))" using assms by auto
  then obtain j where j: "j < dct_sz" "key = vd_key j" "d = local_vd hf (count_words rx (snd r)) ! j"
    using optimized_calls_set by blast
  have "set (all_words rx (snd r)) \<subseteq> set (all_words rx (concat (map snd rs)))" using r(1) by auto
  moreover have "fst ` set d = {k \<in> set (all_words rx (snd r)). bucket hf k = j}"
    unfolding j(3) by (rule local_vd_words(1) [OF j(1)])
  moreover have "\<forall>(k, x) \<in> set d. 0 < x" unfolding j(3) by (rule local_vd_words(3) [OF j(1)])
  moreover have "wf_dict d" unfolding j(3) by (rule local_vd_get(2) [OF count_words_get(1) j(1)])
  moreover have "k \<in> set (all_words rx (concat (map snd rs))) \<and> bucket hf k = j \<and> 0 < x" if "(k, x) \<in> set d" for k x
  proof -
    have "k \<in> fst ` set d" using that by force
    then show ?thesis using calculation(1,2,3) that by blast
  qed
  ultimately show ?thesis using j(1,2) by blast
qed

lemma sent_for_total:
  assumes "j < dct_sz"
  shows "sent_for (vd_key j) k (rank_calls hf rx rs) =
    (if bucket hf k = j then int (count_list (all_words rx (concat (map snd rs))) k) else 0)"
proof (induction rs)
  case Nil
  then show ?case by (simp add: sent_for_def)
next
  case (Cons r rs)
  have "sent_for (vd_key j) k (rank_calls hf rx (r # rs)) =
      sent_for (vd_key j) k (optimized_calls hf rx (snd r)) + sent_for (vd_key j) k (rank_calls hf rx rs)"
    by (simp add: sent_for_append)
  also have "\<dots> = (if bucket hf k = j then int (count_list (all_words rx (concat (map snd (r # rs)))) k) else 0)"
    unfolding sent_for_rank [OF assms] Cons by simp
  finally show ?case .
qed

lemma words_for_total:
  assumes "j < dct_sz"
  shows "words_for (vd_key j) (rank_calls hf rx rs) =
    {k \<in> set (all_words rx (concat (map snd rs))). bucket hf k = j}"
proof (induction rs)
  case Nil
  then show ?case by (simp add: words_for_def)
next
  case (Cons r rs)
  have app: "words_for key (a @ b) = words_for key a \<union> words_for key b" for key a b
    by (auto simp: words_for_def)
  have "words_for (vd_key j) (optimized_calls hf rx (snd r)) = fst ` set (local_vd hf (count_words rx (snd r)) ! j)"
    using assms by (auto simp: words_for_def optimized_calls_set)
  then have one: "words_for (vd_key j) (optimized_calls hf rx (snd r)) = {k \<in> set (all_words rx (snd r)). bucket hf k = j}"
    by (simp only: local_vd_words(1) [OF assms])
  have "words_for (vd_key j) (rank_calls hf rx (r # rs)) =
      words_for (vd_key j) (optimized_calls hf rx (snd r)) \<union> words_for (vd_key j) (rank_calls hf rx rs)"
    by (simp add: app)
  also have "\<dots> = {k \<in> set (all_words rx (concat (map snd (r # rs)))). bucket hf k = j}"
    unfolding one Cons by auto
  finally show ?case .
qed

lemma sent_for_pos:
  assumes "\<forall>(key, d) \<in> set us. wf_dict d \<and> (\<forall>(k, x) \<in> set d. 0 < x)"
  shows "0 \<le> sent_for key k us" "k \<in> words_for key us \<Longrightarrow> 0 < sent_for key k us"
proof -
  have "0 \<le> sent_for key k us \<and> (k \<in> words_for key us \<longrightarrow> 0 < sent_for key k us)"
    using assms
  proof (induction us)
    case (Cons u us)
    obtain key' d where u: "u = (key', d)" by (cases u)
    have d: "\<forall>(k, x) \<in> set d. 0 < x" using Cons.prems u by simp
    have "0 \<le> delta_sum k d" using delta_sum_bounds [of d k] d by fastforce
    moreover have "k \<in> fst ` set d \<Longrightarrow> 0 < delta_sum k d" by (rule delta_sum_pos [OF d])
    moreover have "sent_for key k (u # us) = (if key' = key then delta_sum k d else 0) + sent_for key k us"
      by (simp add: sent_for_def u)
    moreover have "words_for key (u # us) = (if key' = key then fst ` set d else {}) \<union> words_for key us"
      by (auto simp: words_for_def u)
    moreover have IH: "0 \<le> sent_for key k us \<and> (k \<in> words_for key us \<longrightarrow> 0 < sent_for key k us)"
      using Cons by simp
    ultimately show ?case by (cases "k \<in> fst ` set d"; cases "key' = key") (auto simp del: image_iff)
  qed (simp add: sent_for_def words_for_def)
  then show "0 \<le> sent_for key k us" "k \<in> words_for key us \<Longrightarrow> 0 < sent_for key k us" by auto
qed

text \<open>Every partial dictionary holds positive counts, at most those of all files.\<close>

lemma part_counts_ok:
  assumes "mset us \<subseteq># mset (rank_calls hf rx rs)" "gathered local_update2 us key = Some D"
  shows "counts_ok (all_words rx (concat (map snd rs))) D"
proof -
  let ?words = "all_words rx (concat (map snd rs))"
  let ?all = "rank_calls hf rx rs"
  obtain rest where rest: "mset rest = mset ?all - mset us" using ex_mset by blast
  then have all: "mset (us @ rest) = mset ?all" using assms(1) by simp
  have sub: "set us \<subseteq> set ?all" "set rest \<subseteq> set ?all" using mset_eq_setD [OF all] by auto
  have good: "\<forall>(key, d) \<in> set ?all. wf_dict d \<and> (\<forall>(k, x) \<in> set d. 0 < x)"
    using rank_calls_in [of _ _ hf rx rs] by blast
  have us: "\<forall>(key, d) \<in> set us. wf_dict d \<and> (\<forall>(k, x) \<in> set d. 0 < x)"
    "\<forall>(key, d) \<in> set rest. wf_dict d \<and> (\<forall>(k, x) \<in> set d. 0 < x)"
    using good sub by blast+
  then have "\<forall>(key, d) \<in> set us. wf_dict d" by auto
  from gathered_dicts [OF this, of key] assms(2)
  have D: "key \<in> fst ` set us" "wf_dict D" "fst ` set D = words_for key us" "\<And>k. delta_sum k D = sent_for key k us"
    by simp_all
  obtain u where "u \<in> set ?all" "fst u = key" using D(1) sub(1) by blast
  then have "(key, snd u) \<in> set ?all" by (metis prod.collapse)
  then obtain j where j: "j < dct_sz" "key = vd_key j" using rank_calls_in by blast
  have "k \<in> set ?words \<and> 0 < x \<and> x \<le> int (length ?words)" if kx: "(k, x) \<in> set D" for k x
  proof -
    have "dict_get D k = Some x" using kx D(2) by (simp add: dict_get_iff)
    then have x: "x = sent_for key k us" using D(4) [of k] delta_sum_dict [OF D(2), of k] by simp
    have "k \<in> fst ` set D" using kx by force
    then have k: "k \<in> words_for key us" by (simp only: D(3))
    then have "k \<in> words_for key ?all" using sub(1) unfolding words_for_def by blast
    then have "k \<in> set ?words" unfolding j(2) words_for_total [OF j(1)] by simp
    moreover have "sent_for key k us + sent_for key k rest \<le> int (count_list ?words k)"
      using sent_for_mset [OF all, of key k] sent_for_total [OF j(1), of k hf rx rs] j(2)
      by (simp add: sent_for_append split: if_splits)
    then have "x \<le> int (length ?words)"
      using sent_for_pos(1) [OF us(2), of key k] count_le_length [of ?words k] x by linarith
    ultimately show ?thesis using sent_for_pos(2) [OF us(1) k] x by simp
  qed
  then show ?thesis using D(2) by (auto simp: counts_ok_def)
qed

text \<open>At the end a key holds the counts of its words.\<close>

lemma final_counts:
  assumes "mset us = mset (rank_calls hf rx rs)" "rs \<noteq> []" "j < dct_sz"
  shows "\<exists>G. gathered local_update2 us (vd_key j) = Some G \<and> wf_dict G \<and>
    mset G = mset (counts_at (bucket hf) (all_words rx (concat (map snd rs))) j)"
proof -
  let ?words = "all_words rx (concat (map snd rs))"
  have set_us: "set us = set (rank_calls hf rx rs)" using mset_eq_setD [OF assms(1)] .
  have wf: "\<forall>(key, d) \<in> set us. wf_dict d" unfolding set_us using rank_calls_in [of _ _ hf rx rs] by blast
  obtain r where "r \<in> set rs" using assms(2) by (cases rs) auto
  then have "(vd_key j, local_vd hf (count_words rx (snd r)) ! j) \<in> set us"
    unfolding set_us using optimized_calls_set [of "vd_key j" _ hf rx "snd r"] assms(3) by auto
  then have "vd_key j \<in> fst ` set us" by force
  then obtain G where G: "gathered local_update2 us (vd_key j) = Some G" "wf_dict G"
    "fst ` set G = words_for (vd_key j) us" "\<And>k. delta_sum k G = sent_for (vd_key j) k us"
    using gathered_dicts [OF wf, of "vd_key j"] by (auto split: option.splits)
  have keys: "fst ` set G = {k \<in> set ?words. bucket hf k = j}"
    using G(3) words_for_total [OF assms(3), of hf rx rs] set_us by (simp add: words_for_def)
  have "dict_get G k = dict_get (counts_at (bucket hf) ?words j) k" for k
  proof (cases "k \<in> set ?words \<and> bucket hf k = j")
    case True
    then have "k \<in> fst ` set G" by (simp only: keys mem_Collect_eq)
    then obtain x where x: "dict_get G k = Some x" using dict_has_iff [of G k] by (auto simp: dict_has_def)
    have "delta_sum k G = x" using delta_sum_dict [OF G(2), of k] x by simp
    moreover have "delta_sum k G = int (count_list ?words k)"
      using G(4) sent_for_mset [OF assms(1), of "vd_key j" k] sent_for_total [OF assms(3), of k hf rx rs] True by simp
    ultimately show ?thesis unfolding counts_at_get using x True by simp
  next
    case False
    then have "k \<notin> fst ` set G" unfolding keys by simp
    then have "dict_get G k = None" by (simp add: dict_get_def map_of_eq_None_iff)
    then show ?thesis unfolding counts_at_get using False by auto
  qed
  then have "mset G = mset (counts_at (bucket hf) ?words j)" by (intro dict_mset_eq [OF G(2) word_counts_wf(2)])
  then show ?thesis using G(1,2) by blast
qed

section \<open>The result\<close>

lemma mset_concat_map_cong: "(\<And>x. x \<in> set xs \<Longrightarrow> mset (f x) = mset (g x)) \<Longrightarrow> mset (concat (map f xs)) = mset (concat (map g xs))"
  by (induction xs) simp_all

lemma mset_concat_snd: "mset a = mset b \<Longrightarrow> mset (concat (map snd a)) = mset (concat (map snd b))"
  by (metis mset_concat mset_map sum_mset_sum_list)

lemma optimized_handler_concat: "optimized_handler topk d h = fold (topk_insert topk) (concat (map snd d)) h"
  by (induction d arbitrary: h) (auto simp: optimized_handler_def)

lemma fold_optimized_handler:
  "\<forall>d \<in> set ds. wf_dict d \<Longrightarrow>
     fold (\<lambda>tmp. optimized_handler topk (dict_set_all tmp [])) ds h =
     fold (topk_insert topk) (concat (map snd (concat ds))) h"
  by (induction ds arbitrary: h) (auto simp: optimized_handler_concat dict_set_all_copy)

text \<open>A store of dictionaries of counts: it merges what it is sent, and its entries can be read.\<close>

locale dict_store = kv_special K n inv view encv key_ok val_ok fn local_update2 ffn keep dct_ok
  for K :: "((string, int) dict, 'w) kvm_ops" and n inv view encv key_ok val_ok fn ffn keep dct_ok +
  assumes keeps: "keep (vd_key j)"
begin

lemma dicts_topk:
  assumes "inv w" "\<And>j k. view w j k = None"
    and "\<forall>(p, lines) \<in> set rs. routes hf n p \<and> server_of hf p = srv \<and> \<not> ssp_switch p"
    and "words = all_words rx (concat (map snd rs))" "\<forall>j < dct_sz. key_ok (vd_key j)"
    and "\<forall>d. counts_ok words d \<longrightarrow> val_ok d" "\<forall>e. vd_ok words e \<longrightarrow> dct_ok e"
    and "\<forall>j < length rs. dct_sz \<le> count_list order j" "i < length rs" "0 \<le> topk"
  shows "\<exists>r w'. learn K hf fn (optimized_calls hf rx) (\<lambda>p w.
       rbind (paracel_read_special_handle K (fst ffn) (snd ffn) (optimized_handler topk) [] p w)
         (\<lambda>(tmplst, p, w). Inr (rev tmplst, p, w))) order i rs w = Inr (r, fst (rs ! i), w') \<and>
    map snd r = take (nat topk) (rev (sort (map snd (word_counts words)))) \<and> mset r \<subseteq># mset (word_counts words)"
proof -
  let ?calls = "rank_calls hf rx rs"
  let ?fin = "\<lambda>p w. rbind (paracel_read_special_handle K (fst ffn) (snd ffn) (optimized_handler topk) [] p w)
         (\<lambda>(tmplst, p, w). Inr (rev tmplst, p, w))"
  have sums: "sums_ok local_update2 val_ok (mset ?calls)"
    unfolding sums_ok_def using part_counts_ok assms(4,6) by blast
  have call: "key_ok k \<and> val_ok d" if "(k, d) \<in> set ?calls" for k d
  proof -
    have "mset [(k, d)] \<subseteq># mset ?calls" "gathered local_update2 [(k, d)] k = Some d"
      using that by (simp_all add: gathered_def)
    then have "val_ok d" using sums by (metis sums_ok_def)
    then show ?thesis using rank_calls_in [OF that] assms(5) by blast
  qed
  have ready: "\<forall>r \<in> set (map (\<lambda>(p, lines). (p, optimized_calls hf rx lines)) rs). rank_ready hf n srv key_ok val_ok r"
  proof
    fix r assume "r \<in> set (map (\<lambda>(p, lines). (p, optimized_calls hf rx lines)) rs)"
    then obtain p lines where r: "(p, lines) \<in> set rs" "r = (p, optimized_calls hf rx lines)" by auto
    then have "set (optimized_calls hf rx lines) \<subseteq> set ?calls" by force
    then have "\<forall>(k, d) \<in> set (optimized_calls hf rx lines). key_ok k \<and> val_ok d" using call by blast
    moreover have "routes hf n p \<and> server_of hf p = srv \<and> \<not> ssp_switch p" using r(1) assms(3) by blast
    ultimately show "rank_ready hf n srv key_ok val_ok r" by (simp add: rank_ready_def r(2))
  qed
  have start: "holds_calls view encv local_update2 srv w []" by (simp add: holds_calls_def fun_eq_iff assms(2))
  have ord: "\<forall>j < length rs. length (optimized_calls hf rx (snd (rs ! j))) \<le> count_list order j"
    using assms(8) by (simp add: optimized_calls_def Let_def)
  obtain us w' where w': "learn K hf fn (optimized_calls hf rx) ?fin order i rs w = ?fin (fst (rs ! i)) w'" "inv w'"
    "holds_calls view encv local_update2 srv w' us" "mset us = mset ?calls"
    using learn_ok [OF assms(1) ready start sums ord assms(9)] by blast
  have "rs \<noteq> []" using assms(9) by auto
  from final_counts [OF w'(4) this, folded assms(4)] obtain G where G: "\<And>j. j < dct_sz \<Longrightarrow>
      gathered local_update2 us (vd_key j) = Some (G j) \<and> wf_dict (G j) \<and>
      mset (G j) = mset (counts_at (bucket hf) words j)"
    by metis
  let ?all = "map (\<lambda>j. (vd_key j, G j)) [0..<dct_sz]"
  have wf_all: "wf_dict ?all" by (simp add: wf_dict_def comp_def distinct_map inj_on_def)
  have us_keys: "gathered local_update2 us k = dict_get ?all k" for k
  proof (cases "\<exists>j < dct_sz. k = vd_key j")
    case True
    then obtain j where j: "j < dct_sz" "k = vd_key j" by blast
    then have "(k, G j) \<in> set ?all" by auto
    then have "dict_get ?all k = Some (G j)" using wf_all by (simp only: dict_get_iff)
    then show ?thesis using G [OF j(1)] j(2) by simp
  next
    case False
    have "\<exists>j < dct_sz. fst u = vd_key j" if "u \<in> set us" for u
      using that rank_calls_in [of "fst u" "snd u" hf rx rs] mset_eq_setD [OF w'(4)] by auto
    then have "filter (\<lambda>u. fst u = k) us = []" using False by (auto simp: filter_empty_conv)
    moreover have "k \<notin> fst ` set ?all" using False by auto
    then have "dict_get ?all k = None" by (simp only: dict_get_def map_of_eq_None_iff not_False_eq_True)
    ultimately show ?thesis by (simp add: gathered_def)
  qed
  have p: "routes hf n (fst (rs ! i))" "server_of hf (fst (rs ! i)) = srv"
    using assms(3) nth_mem [OF assms(9)] by (auto simp: case_prod_unfold)
  then have sz: "srv_sz (fst (rs ! i)) = n" by (simp add: routes_def)
  have srv: "srv k < n" for k using routes_server [OF p(1), of k] p(2) by simp
  let ?D = "\<lambda>s. filter (\<lambda>p. srv (fst p) = s) ?all"
  have get: "dict_get (filter (\<lambda>p. srv (fst p) = s) l) k = (if srv k = s then dict_get l k else None)"
    for s k and l :: "(string \<times> (string, int) dict) list"
    by (induction l) auto
  have G_ok: "counts_ok words (G j)" if "j < dct_sz" for j
  proof -
    have "set (G j) \<subseteq> set (word_counts words)"
      using mset_eq_setD [OF conjunct2 [OF conjunct2 [OF G [OF that]]]] by (auto simp: counts_at_def)
    moreover have "0 < count_list words a" if "a \<in> set words" for a
      using that by (metis count_list_0_iff gr0I)
    ultimately show ?thesis
      using G [OF that] by (auto simp: counts_ok_def in_word_counts count_le_length dest!: subsetD)
  qed
  have D: "\<forall>s \<in> set [0..<n]. s < n \<and> wf_dict (?D s) \<and> dct_ok (?D s) \<and>
      (\<forall>k. (if keep k then view w' s k else None) = map_option encv (dict_get (?D s) k))"
  proof (intro ballI conjI allI)
    fix s assume "s \<in> set [0..<n]"
    then show "s < n" by simp
    show wf: "wf_dict (?D s)" using wf_all by (simp add: wf_dict_def distinct_map_filter)
    have "vd_ok words (?D s)" unfolding vd_ok_def by (intro conjI wf) (use G_ok in auto)
    then show "dct_ok (?D s)" using assms(7) by blast
    fix k
    have "keep k" if "dict_get ?all k = Some v" for v
      using that wf_all keeps by (auto simp: dict_get_iff)
    then show "(if keep k then view w' s k else None) = map_option encv (dict_get (?D s) k)"
      using w'(3) by (cases "dict_get ?all k") (auto simp: holds_calls_def us_keys get)
  qed
  obtain ds w'' where ds: "server_dicts (\<lambda>i. m_pullall_special K i (Some ffn)) [0..<n] w' = Inr (ds, w'')"
    "list_all2 (\<lambda>s d. mset d = mset (?D s)) [0..<n] ds"
    using special_dicts_ok [OF w'(2) D] by blast
  have "\<forall>p \<in> set ?all. srv (fst p) < n" using srv by blast
  note split = split_dicts [OF ds(2) wf_all this]
  have "list_all2 (\<lambda>j d. mset d = mset (counts_at (bucket hf) words j)) [0..<dct_sz] (map G [0..<dct_sz])"
    using G by (auto simp: list_all2_conv_all_nth)
  moreover have "\<forall>p \<in> set (word_counts words). bucket hf (fst p) < dct_sz" by (simp add: dct_sz_def)
  ultimately have "mset (concat (map G [0..<dct_sz])) = mset (word_counts words)"
    unfolding counts_at_def by (intro split_dicts(2) [OF _ word_counts_wf(1)])
  moreover have "mset (concat (map snd (concat ds))) = mset (concat (map snd ?all))"
    by (rule mset_concat_snd [OF split(2)])
  ultimately have all: "mset (concat (map snd (concat ds))) = mset (word_counts words)" by (simp add: comp_def)
  let ?h = "fold (topk_insert topk) (concat (map snd (concat ds))) []"
  have "?fin (fst (rs ! i)) w' = Inr (rev ?h, fst (rs ! i), w'')"
    using split(1) by (simp add: paracel_read_special_handle_def sz read_servers_fold [OF ds(1)] fold_optimized_handler)
  moreover have "mset (map snd (concat (map snd (concat ds)))) = mset (map snd (word_counts words))" using all by simp
  then have "sort (map snd (concat (map snd (concat ds)))) = sort (map snd (word_counts words))"
    by (metis sorted_list_of_multiset_mset)
  ultimately show ?thesis
    using w'(1) topk_all [OF assms(10), of "concat (map snd (concat ds))"] all by auto
qed

end

interpretation wds: dict_store "client_kvm (env_mp E) (cluster_zmq E addr) V" n
    "\<lambda>w. ainv E V fn local_update2 addr n w \<and> flt_env E ffn wc_local_filter"
    sview "pk_pack (venc V)" "str_wire (env_mp E)" "wire_ok (venc V) (vdec V)" fn ffn wc_local_filter
    "dct_wire (env_mp E) V"
  for E addr V n fn ffn
  by unfold_locales simp


text \<open>Witness: two ranks, one server, one word; a dictionary of one entry is its word and its count.\<close>

definition one_codec :: "(string, int) dict vcodec" where
  "one_codec = \<lparr>venc = (\<lambda>d. concat (map (\<lambda>(k, v). k @ to_string (nat v)) d)),
     vdec = (\<lambda>s. Some (if s = [] then [] else [([hd s], int (digits_val (tl s)))]))\<rparr>"

definition dicts_env :: env where
  "dicts_env = plain_env\<lparr>env_dl_update := (\<lambda>_ _. Some (wc_updater2 one_codec)),
     env_dl_filter := (\<lambda>_ _. Some (\<lambda>k v. filter_with_key_proxy wc_local_filter k))\<rparr>"

definition one_text :: files where
  "one_text = (\<lambda>n. Some [CHR ''a'', newline])"

lemma one_counts: "counts_ok [''a''] d \<Longrightarrow> d \<in> {[], [(''a'', 1)]}"
  by (cases d; cases "tl d") (auto simp: counts_ok_def wf_dict_def)

lemma one_packable:
  assumes "d \<in> {[], [(''a'', 1)]}"
  shows "wire_ok (venc one_codec) (vdec one_codec) d" "length (pk_pack (venc one_codec) d) \<le> 10"
proof -
  have one: "to_string 1 = ''1''" by (simp add: to_string.simps char_of_def bit_0)
  have "clean seperator (pk_pack (\<lambda>s. s) '''') \<and> clean seperator (pk_pack (\<lambda>s. s) ''a1'')"
    by (simp add: pk_pack_def le_encode_numeral, simp add: char_of_def,
        simp add: clean_Cons, simp add: seperator_def)
  then show "wire_ok (venc one_codec) (vdec one_codec) d" "length (pk_pack (venc one_codec) d) \<le> 10"
    using assms one by (auto simp: wire_ok_def one_codec_def packable_def pk_pack_def digits_val_def digit_val_def)
qed

lemma vd_key_wire: "j < dct_sz \<Longrightarrow> str_wire plain_msgpack (vd_key j) \<and> length (vd_key j) = 5"
proof -
  have digit: "to_string j = [char_of (48 + j)]" if "j < 10" for j
    using that by (simp add: to_string.simps)
  have c: "clean seperator (pk_pack (\<lambda>s. s) (''key_'' @ [char_of (48 + j :: nat)]))" if "j < 10" for j
    using that by (simp add: pk_pack_def le_encode_numeral, simp add: char_of_def,
        simp add: clean_Cons, simp add: seperator_def)
  assume "j < dct_sz"
  then have j: "j < 10" by (simp add: dct_sz_def)
  show ?thesis using plain_wire [OF _ c [OF j]] digit [OF j] by (simp add: vd_key_def)
qed

lemma one_dicts:
  assumes "vd_ok [''a''] e"
  shows "dct_wire plain_msgpack one_codec e"
proof -
  have d: "v \<in> {[], [(''a'', 1)]} \<and> length k = 5" if "(k, v) \<in> set e" for k v
  proof -
    have "(\<exists>j < dct_sz. k = vd_key j) \<and> counts_ok [''a''] v" using assms that by (auto simp: vd_ok_def)
    then obtain j where "j < dct_sz" "k = vd_key j" "counts_ok [''a''] v" by blast
    then show ?thesis using one_counts vd_key_wire [of j] by blast
  qed
  have "fst ` set e \<subseteq> vd_key ` {0..<dct_sz}" using assms by (auto simp: vd_ok_def)
  then have "card (fst ` set e) \<le> card (vd_key ` {0..<dct_sz})" by (intro card_mono) simp_all
  also have "\<dots> \<le> 10" using card_image_le [of "{0..<dct_sz}" vd_key] by (simp add: dct_sz_def)
  finally have len: "length e \<le> 10"
    using assms distinct_card [of "map fst e"] by (simp add: vd_ok_def wf_dict_def)
  have "packable (mp_dct plain_msgpack) (um_dct plain_msgpack) (map (\<lambda>(k, v). (k, pk_pack (venc one_codec) v)) e')"
    if e': "mset e' = mset e" for e'
  proof -
    let ?e = "map (\<lambda>(k, v). (k, pk_pack (venc one_codec) v)) e'"
    have small: "length k \<le> 5 \<and> length v \<le> 10" if kv: "(k, v) \<in> set ?e" for k v
    proof -
      obtain u where "(k, u) \<in> set e" "v = pk_pack (venc one_codec) u"
        using kv mset_eq_setD [OF e'] by auto
      then show ?thesis using d [of k u] one_packable(2) [of u] by simp
    qed
    then have "\<forall>(k, v) \<in> set ?e. length k + length v \<le> 15" by fastforce
    then have "length (dct_bytes ?e) \<le> (16 + 15) * length ?e" by (rule length_dct_bytes)
    moreover have "length e' \<le> 10" using len mset_eq_length [OF e'] by simp
    ultimately have "length (dct_bytes ?e) < 2 ^ 64" by simp
    moreover have "length k < 2 ^ 64 \<and> length v < 2 ^ 64" if "(k, v) \<in> set ?e" for k v
      using small [OF that] by simp
    then have "\<forall>(k, v) \<in> set ?e. length k < 2 ^ 64 \<and> length v < 2 ^ 64" by blast
    ultimately show ?thesis by (rule plain_packable(3) [rotated])
  qed
  moreover have "packable (venc one_codec) (vdec one_codec) v" if "(k, v) \<in> set e" for k v
    using d [OF that] one_packable(1) [of v] by (auto simp: wire_ok_def)
  then have "\<forall>(k, v) \<in> set e. packable (venc one_codec) (vdec one_codec) v" by blast
  ultimately show ?thesis by (simp add: dct_wire_def)
qed

lemma one_blocks:
  "\<exists>P. files_partition one_text (int BLK_SZ) (new_partition [''x''] 2 ''linesplit'') = Inr P \<and>
    no_blank one_text P"
proof -
  have "files_partition one_text (int BLK_SZ) (new_partition [''x''] 2 ''linesplit'') =
    Inr (new_partition [''x''] 2 ''linesplit''\<lparr>slst := [0, 1], elst := [1, 2], displs := [0, 2]\<rparr>)"
    by code_simp
  moreover have "numbered 0 [CHR ''a'', newline] = [(0, ''a'')]" by code_simp
  ultimately show ?thesis by (simp add: no_blank_def new_partition_def file_text_def one_text_def)
qed

lemma one_words:
  "concat (map (wc_parser wc_rx) (concat (map (\<lambda>nm. read_lines (file_text one_text nm)) [''x'']))) = [''a'']"
  by code_simp


end
