(* ===== verification/TinyUrl.thy ===== *)
theory TinyUrl
  imports Worker Dump
begin

text \<open>
  \<open>alg/tiny_url/tiny_url.hpp\<close>: short URLs. The key of a URL is its hash modulo \<open>62 ^ 6\<close>, its short
  form the key in base 62 with six digits; the servers keep the URL under the decimal key.

  \<open>std::hash\<close> is the parameter \<open>sh\<close>. The sums with \<open>pow\<close> are in doubles; all terms and sums are
  integers below \<open>62 ^ 6\<close>, which is less than \<open>2 ^ 53\<close>, so they are exact and written on naturals.
\<close>

section \<open>Short forms\<close>

definition url_bnd :: nat where
  "url_bnd = 62 ^ 6"

definition dictory :: "char list" where
  "dictory = map (\<lambda>i. char_of (i + 48)) [0..<10] @ map (\<lambda>i. char_of (i - 10 + 97)) [10..<36] @
     map (\<lambda>i. char_of (i - 36 + 65)) [36..<62 :: nat]"

function url_digits :: "nat \<Rightarrow> string" where
  "url_digits skey = (if 0 < skey then dictory ! (skey mod 62) # url_digits (skey div 62) else [])"
  by pat_completeness auto

termination url_digits by (relation "measure id") auto

declare url_digits.simps [simp del]

definition compute_short :: "nat \<Rightarrow> string" where
  "compute_short skey =
     (let shortURL = url_digits skey in rev (shortURL @ replicate (6 - length shortURL) (CHR ''0'')))"

definition char_val :: "char \<Rightarrow> nat" where
  "char_val c = (let n = of_char c; t = 0;
     t = (if n \<le> 57 \<and> 48 \<le> n then n - 48 else t);
     t = (if n \<le> 122 \<and> 97 \<le> n then n - 97 + 10 else t)
     in if n \<le> 90 \<and> 65 \<le> n then n - 65 + 36 else t)"

text \<open>Indexing a constant string at its size gives the null character, behind it is undefined.\<close>

definition cstr_at :: "string \<Rightarrow> nat \<Rightarrow> char res" where
  "cstr_at s i = (if i = length s then Inr (char_of (0 :: nat)) else nth_res s i)"

definition compute_key :: "string \<Rightarrow> nat res" where
  "compute_key shortURL = rfold (\<lambda>i skey. rbind (cstr_at shortURL i) (\<lambda>c.
     Inr (skey + char_val c * 62 ^ (6 - i - 1)))) [0..<6] 0"

definition url_prefix :: string where
  "url_prefix = ''http://paracel.io/''"

definition check_validate :: "string \<Rightarrow> bool" where
  "check_validate shortURL \<longleftrightarrow> startswith shortURL url_prefix \<and> length shortURL = 24"

section \<open>Inserting and retrieving\<close>

definition url_key :: "(string \<Rightarrow> u64) \<Rightarrow> string \<Rightarrow> nat" where
  "url_key sh longURL = unat (sh longURL) mod url_bnd"

definition url_insert ::
  "(string, 'w) kvm_ops \<Rightarrow> (string \<Rightarrow> u64) \<Rightarrow> (string \<Rightarrow> u64) \<Rightarrow> string \<Rightarrow> (string, string, 'w) ps_op"
where
  "url_insert K hf sh longURL p w =
     (let skey = url_key sh longURL in
     rbind (paracel_write K hf (to_string skey) longURL p w) (\<lambda>(_, p, w).
     Inr (compute_short skey, p, w)))"

definition url_retrieve ::
  "(string, 'w) kvm_ops \<Rightarrow> (string \<Rightarrow> u64) \<Rightarrow> nat \<Rightarrow> string \<Rightarrow> (string, string, 'w) ps_op"
where
  "url_retrieve K hf fuel shortURL p w =
     rbind (compute_key shortURL) (\<lambda>skey. paracel_read K hf fuel (to_string skey) p w)"

text \<open>The loops of the batches, with the text written to the stream.\<close>

definition insert_line where
  "insert_line K hf sh line = (\<lambda>(os, p, w). rbind (url_insert K hf sh line p w) (\<lambda>(short, p, w).
     Inr (os @ line @ '' -> http://paracel.io/'' @ short @ [newline], p, w)))"

definition retrieve_line where
  "retrieve_line K hf fuel line = (\<lambda>(os, p, w).
     if \<not> check_validate line then Inr (os @ line @ '' -> not validate.'' @ [newline], p, w)
     else rbind (url_retrieve K hf fuel (drop 18 line) p w) (\<lambda>(url, p, w).
       Inr (os @ line @ '' -> '' @ url @ [newline], p, w)))"

definition stream_name :: "string \<Rightarrow> string \<Rightarrow> 'v paralg \<Rightarrow> string" where
  "stream_name out s p = out @ s @ to_string (worker_rank p)"

definition solve_insert ::
  "(string, 'w) kvm_ops \<Rightarrow> (string \<Rightarrow> u64) \<Rightarrow> (string \<Rightarrow> u64) \<Rightarrow> string list \<Rightarrow> string \<Rightarrow>
     files \<Rightarrow> string paralg \<Rightarrow> 'w \<Rightarrow> (files \<times> string paralg \<times> 'w) res"
where
  "solve_insert K hf sh input out fs p w =
     rbind (paracel_load fs input (\<lambda>_. Inl BadFunctionCall) p) (\<lambda>(lines, p).
     rbind (rfold (insert_line K hf sh) lines ([], p, w)) (\<lambda>(os, p, w).
     Inr (os_write True (stream_name out ''insert_result'' p) os fs, p, w)))"

definition solve_retrieve ::
  "(string, 'w) kvm_ops \<Rightarrow> (string \<Rightarrow> u64) \<Rightarrow> nat \<Rightarrow> string list \<Rightarrow> string \<Rightarrow>
     files \<Rightarrow> string paralg \<Rightarrow> 'w \<Rightarrow> (files \<times> string paralg \<times> 'w) res"
where
  "solve_retrieve K hf fuel input out fs p w =
     rbind (paracel_load fs input (\<lambda>_. Inl BadFunctionCall) p) (\<lambda>(lines, p).
     rbind (rfold (retrieve_line K hf fuel) lines ([], p, w)) (\<lambda>(os, p, w).
     Inr (os_write True (stream_name out ''retrive_result'' p) os fs, p, w)))"

text \<open>Insertions of several ranks, in the order in which they happen: a rank and its next URL.\<close>

definition url_inserts ::
  "(string, 'w) kvm_ops \<Rightarrow> (string \<Rightarrow> u64) \<Rightarrow> (string \<Rightarrow> u64) \<Rightarrow> (nat \<times> string) list \<Rightarrow>
     string paralg list \<times> 'w \<Rightarrow> (string paralg list \<times> 'w) res"
where
  "url_inserts K hf sh = rfold (\<lambda>(i, u) (ps, w). rbind (nth_res ps i) (\<lambda>p.
     rbind (url_insert K hf sh u p w) (\<lambda>(_, p, w). Inr (ps[i := p], w))))"

section \<open>Lemmas: base 62\<close>

text \<open>The value of digits, the least first.\<close>

definition base62 :: "nat list \<Rightarrow> nat" where
  "base62 ds = foldr (\<lambda>d v. d + 62 * v) ds 0"

lemma base62_simps [simp]: "base62 [] = 0" "base62 (d # ds) = d + 62 * base62 ds"
  by (simp_all add: base62_def)

lemma base62_digits: "n < 62 ^ k \<Longrightarrow> \<exists>ds. length ds = k \<and> (\<forall>d \<in> set ds. d < 62) \<and> base62 ds = n"
proof (induction k arbitrary: n)
  case (Suc k)
  have "n div 62 < 62 ^ k" using Suc.prems by (simp add: less_mult_imp_div_less mult.commute)
  then obtain ds where "length ds = k" "\<forall>d \<in> set ds. d < 62" "base62 ds = n div 62"
    using Suc.IH by blast
  then show ?case by (intro exI [of _ "n mod 62 # ds"]) simp
qed simp

lemma base62_bound: "\<forall>d \<in> set ds. d < 62 \<Longrightarrow> base62 ds < 62 ^ length ds"
proof (induction ds)
  case (Cons d ds)
  then have "d < 62" "base62 ds < 62 ^ length ds" by simp_all
  then have "d + 62 * base62 ds < 62 + 62 * base62 ds" "62 * (base62 ds + 1) \<le> 62 * 62 ^ length ds" by simp_all
  then show ?case by simp
qed simp

lemma dictory_nth:
  "d < 62 \<Longrightarrow> dictory ! d = char_of (if d < 10 then d + 48 else if d < 36 then d - 10 + 97 else d - 36 + 65)"
  by (auto simp: dictory_def nth_append simp del: upt_conv_Cons upt_rec_numeral)

lemma dictory_facts:
  "length dictory = 62" "dictory ! 0 = CHR ''0''"
  "d < 62 \<Longrightarrow> char_val (dictory ! d) = d" "c \<in> set dictory \<Longrightarrow> char_val c < 62 \<and> dictory ! char_val c = c"
proof -
  show len: "length dictory = 62" by (simp add: dictory_def)
  show "dictory ! 0 = CHR ''0''" by (simp add: dictory_nth char_of_def bit_0)
  show val: "char_val (dictory ! d) = d" if "d < 62" for d
    using that by (auto simp: dictory_nth char_val_def Let_def)
  show "char_val c < 62 \<and> dictory ! char_val c = c" if "c \<in> set dictory"
    using that val len by (metis in_set_conv_nth)
qed

lemma url_digits_pad:
  "\<forall>d \<in> set ds. d < 62 \<Longrightarrow>
   url_digits (base62 ds) @ replicate (length ds - length (url_digits (base62 ds))) (CHR ''0'') =
   map ((!) dictory) ds \<and> length (url_digits (base62 ds)) \<le> length ds"
proof (induction ds)
  case Nil
  then show ?case by (simp add: url_digits.simps)
next
  case (Cons d ds)
  then have d: "d < 62" by simp
  have IH: "url_digits (base62 ds) @ replicate (length ds - length (url_digits (base62 ds))) (CHR ''0'') =
      map ((!) dictory) ds" "length (url_digits (base62 ds)) \<le> length ds" using Cons by auto
  have z: "url_digits 0 = []" by (simp add: url_digits.simps)
  show ?case
  proof (cases "d + 62 * base62 ds = 0")
    case True
    then have "d = 0" "base62 ds = 0" by simp_all
    then show ?thesis using IH z dictory_facts(2) by simp
  next
    case False
    have "url_digits (d + 62 * base62 ds) = dictory ! d # url_digits (base62 ds)"
      using False d by (subst url_digits.simps) simp
    then show ?thesis using IH by simp
  qed
qed

lemma compute_short_digits:
  assumes "\<forall>d \<in> set ds. d < 62" "length ds = 6"
  shows "compute_short (base62 ds) = rev (map ((!) dictory) ds)"
  using url_digits_pad [OF assms(1)] assms(2) by (simp only: compute_short_def Let_def)

lemma list6: "length xs = 6 \<Longrightarrow> \<exists>a b c d e f. xs = [a, b, c, d, e, f]"
  by (auto simp: numeral_eq_Suc length_Suc_conv)

lemma compute_key_digits:
  assumes "\<forall>d \<in> set ds. d < 62" "length ds = 6"
  shows "compute_key (rev (map ((!) dictory) ds)) = Inr (base62 ds)"
proof -
  obtain a b c d e f where ds: "ds = [a, b, c, d, e, f]" using list6 [OF assms(2)] by blast
  have up: "[0..<6] = [0, 1, 2, 3, 4, 5 :: nat]" by (simp add: upt_rec)
  show ?thesis
    using assms(1) by (simp add: ds compute_key_def up cstr_at_def dictory_facts(3))
qed

lemma compute_key_short: "skey < url_bnd \<Longrightarrow> compute_key (compute_short skey) = Inr skey"
  using base62_digits [of skey 6] compute_short_digits compute_key_digits by (force simp: url_bnd_def)

lemma compute_short_chars:
  assumes "skey < url_bnd"
  shows "length (compute_short skey) = 6" "set (compute_short skey) \<subseteq> set dictory"
proof -
  obtain ds where ds: "length ds = 6" "\<forall>d \<in> set ds. d < 62" "base62 ds = skey"
    using base62_digits [of skey 6] assms by (auto simp: url_bnd_def)
  have s: "compute_short skey = rev (map ((!) dictory) ds)" using compute_short_digits [OF ds(2,1)] ds(3) by simp
  show "length (compute_short skey) = 6" using ds(1) by (simp add: s)
  have "dictory ! d \<in> set dictory" if "d \<in> set ds" for d
    using that ds(2) dictory_facts(1) by (intro nth_mem) auto
  then show "set (compute_short skey) \<subseteq> set dictory" by (auto simp: s)
qed

lemma short_validates: "skey < url_bnd \<Longrightarrow> check_validate (url_prefix @ compute_short skey)"
  using compute_short_chars(1) [of skey] by (simp add: check_validate_def startswith_prefix url_prefix_def)

text \<open>
  C38: short URLs and keys are in one-to-one correspondence. The short form of a key has six
  characters of the alphabet, passes the check when it follows the prefix, and decodes to the
  key; and every string of six characters of the alphabet decodes to a key of which it is the short form.
\<close>

theorem short_url_roundtrip:
  assumes "skey < url_bnd" "length s = 6" "set s \<subseteq> set dictory"
  shows "length (compute_short skey) = 6 \<and> set (compute_short skey) \<subseteq> set dictory \<and>
    check_validate (url_prefix @ compute_short skey) \<and> compute_key (compute_short skey) = Inr skey \<and>
    (\<exists>k < url_bnd. compute_key s = Inr k \<and> compute_short k = s)"
proof -
  let ?ds = "map char_val (rev s)"
  have ds: "length ?ds = 6" "\<forall>d \<in> set ?ds. d < 62" using assms(2,3) dictory_facts(4) by auto
  have "map ((!) dictory) ?ds = rev s" unfolding map_map comp_def
    by (intro map_idI) (use assms(3) dictory_facts(4) in auto)
  then have "rev (map ((!) dictory) ?ds) = s" by simp
  then have "compute_key s = Inr (base62 ?ds) \<and> compute_short (base62 ?ds) = s"
    using compute_key_digits [OF ds(2,1)] compute_short_digits [OF ds(2,1)] by metis
  moreover have "base62 ?ds < url_bnd" using base62_bound [OF ds(2)] ds(1) by (simp add: url_bnd_def)
  ultimately show ?thesis
    using compute_short_chars [OF assms(1)] short_validates [OF assms(1)] compute_key_short [OF assms(1)] by blast
qed

theorem short_url_roundtrip_witness:
  "compute_key (compute_short 3844) = Inr 3844 \<and> (\<exists>k < url_bnd. compute_key ''00zZ9a'' = Inr k \<and> compute_short k = ''00zZ9a'')"
proof -
  have "(3844 :: nat) < url_bnd" by (simp add: url_bnd_def)
  moreover have "dictory ! 0 = CHR ''0''" "dictory ! 35 = CHR ''z''" "dictory ! 61 = CHR ''Z''" "dictory ! 9 = CHR ''9''"
    "dictory ! 10 = CHR ''a''"
    by (simp_all add: dictory_nth char_of_def bit_0)
  then have "set ''00zZ9a'' \<subseteq> set dictory"
    using nth_mem [of 0 dictory] nth_mem [of 35 dictory] nth_mem [of 61 dictory] nth_mem [of 9 dictory]
      nth_mem [of 10 dictory] by (simp add: dictory_facts(1))
  ultimately show ?thesis using short_url_roundtrip [of 3844 "''00zZ9a''"] by simp
qed

section \<open>The service\<close>

text \<open>The URL a short form stands for: the last one inserted with its key.\<close>

definition last_url :: "(string \<Rightarrow> u64) \<Rightarrow> string list \<Rightarrow> nat \<Rightarrow> string option" where
  "last_url sh urls k = (case filter (\<lambda>u. url_key sh u = k) urls of [] \<Rightarrow> None | us \<Rightarrow> Some (last us))"

lemma last_url_simps [simp]:
  "last_url sh [] k = None"
  "last_url sh (us @ [u]) k = (if url_key sh u = k then Some u else last_url sh us k)"
  by (simp add: last_url_def)
    (cases "filter (\<lambda>u. url_key sh u = k) us"; simp add: last_url_def)

lemma last_url_in: "last_url sh urls k = Some u \<Longrightarrow> u \<in> set urls \<and> url_key sh u = k"
  by (induction urls rule: rev_induct) (auto split: if_splits)

lemma last_url_some: "u \<in> set urls \<Longrightarrow> last_url sh urls (url_key sh u) \<noteq> None"
  by (induction urls rule: rev_induct) auto

lemma url_key_bound: "url_key sh u < url_bnd"
  by (simp add: url_key_def url_bnd_def)

definition url_answer :: "(string \<Rightarrow> u64) \<Rightarrow> string list \<Rightarrow> string \<Rightarrow> string" where
  "url_answer sh urls line =
     (if check_validate line
      then (case compute_key (drop 18 line) of
          Inl _ \<Rightarrow> []
        | Inr k \<Rightarrow> (case last_url sh urls k of None \<Rightarrow> [] | Some u \<Rightarrow> line @ '' -> '' @ u @ [newline]))
      else line @ '' -> not validate.'' @ [newline])"

context kv_service
begin

lemma write_plain:
  assumes "inv w" "routes hf n p" "\<not> ssp_switch p" "key_ok k" "val_ok v"
  shows "\<exists>w'. paracel_write K hf k v p w = Inr (True, p, w') \<and> inv w' \<and>
    global_view view (server_of hf p) w' = (global_view view (server_of hf p) w)(k \<mapsto> encv v)"
proof -
  obtain p' w' where w': "paracel_write K hf k v p w = Inr (True, p', w')" "inv w'"
    "global_view view (server_of hf p) w' = (global_view view (server_of hf p) w)(k \<mapsto> encv v)"
    using write_refines [OF assms(1,2,4,5)] by blast
  moreover have "p' = p"
    using w'(1) assms(2,3) by (auto simp: paracel_write_def ps_route_ok [OF assms(2)] res_simps)
  ultimately show ?thesis by blast
qed

end

text \<open>The table of URLs, as the ranks see it.\<close>

definition url_table ::
  "('w \<Rightarrow> nat \<Rightarrow> string \<Rightarrow> string option) \<Rightarrow> (string \<Rightarrow> string) \<Rightarrow> (string \<Rightarrow> u64) \<Rightarrow> (string \<Rightarrow> nat) \<Rightarrow> 'w \<Rightarrow>
     string list \<Rightarrow> bool"
where
  "url_table view encv sh srv w urls \<longleftrightarrow>
     (\<forall>k u. last_url sh urls k = Some u \<longrightarrow> global_view view srv w (to_string k) = Some (encv u))"

locale url_store = kv_service K n inv view encv key_ok val_ok keys_ok vals_ok
  for K :: "(string, 'w) kvm_ops" and n inv view encv key_ok val_ok keys_ok vals_ok
begin

lemma inserts_ok:
  assumes "inv w" "\<forall>p \<in> set ps. routes hf n p \<and> server_of hf p = srv \<and> \<not> ssp_switch p"
    and "\<forall>(i, u) \<in> set xs. i < length ps \<and> val_ok u \<and> key_ok (to_string (url_key sh u))"
  shows "\<exists>w'. url_inserts K hf sh xs (ps, w) = Inr (ps, w') \<and> inv w' \<and> url_table view encv sh srv w' (map snd xs)"
  using assms(3)
proof (induction xs rule: rev_induct)
  case Nil
  then show ?case using assms(1) by (simp add: url_inserts_def url_table_def)
next
  case (snoc x xs)
  obtain i u where x: "x = (i, u)" by (cases x)
  obtain w1 where w1: "url_inserts K hf sh xs (ps, w) = Inr (ps, w1)" "inv w1"
    "url_table view encv sh srv w1 (map snd xs)"
    using snoc by auto
  have i: "i < length ps" "val_ok u" "key_ok (to_string (url_key sh u))" using snoc.prems x by auto
  have p: "routes hf n (ps ! i)" "server_of hf (ps ! i) = srv" "\<not> ssp_switch (ps ! i)"
    using assms(2) i(1) by auto
  obtain w2 where w2: "paracel_write K hf (to_string (url_key sh u)) u (ps ! i) w1 = Inr (True, ps ! i, w2)" "inv w2"
    "global_view view srv w2 = (global_view view srv w1)(to_string (url_key sh u) \<mapsto> encv u)"
    using write_plain [OF w1(2) p(1,3) i(3,2)] p(2) by blast
  have "url_inserts K hf sh (xs @ [x]) (ps, w) = Inr (ps, w2)"
    using w1(1) w2(1) i(1) by (simp add: url_inserts_def rfold_append x nth_res_def url_insert_def Let_def)
  moreover have "url_table view encv sh srv w2 (map snd (xs @ [x]))"
    using w1(3) by (auto simp: url_table_def x w2(3) to_string_inject)
  ultimately show ?case using w2(2) by blast
qed

lemma retrieve_ok:
  assumes "inv w" "routes hf n p" "server_of hf p = srv" "\<not> ssp_switch p" "url_table view encv sh srv w urls"
    and "\<forall>u \<in> set urls. val_ok u \<and> key_ok (to_string (url_key sh u))"
    and "\<forall>line \<in> set lines. check_validate line \<longrightarrow> (\<exists>u \<in> set urls. line = url_prefix @ compute_short (url_key sh u))"
  shows "\<exists>w'. rfold (retrieve_line K hf fuel) lines (os, p, w) =
      Inr (os @ concat (map (url_answer sh urls) lines), p, w') \<and> inv w'"
  using assms(1,5,7)
proof (induction lines arbitrary: os w)
  case (Cons line lines)
  show ?case
  proof (cases "check_validate line")
    case False
    then show ?thesis
      using Cons.IH [of w "os @ line @ '' -> not validate.'' @ [newline]"] Cons.prems
      by (simp add: retrieve_line_def url_answer_def)
  next
    case True
    then obtain v where v: "v \<in> set urls" "line = url_prefix @ compute_short (url_key sh v)"
      using Cons.prems(3) by auto
    then have key: "compute_key (drop 18 line) = Inr (url_key sh v)"
      by (simp add: url_prefix_def compute_key_short url_key_bound)
    obtain u where u: "last_url sh urls (url_key sh v) = Some u" using last_url_some [OF v(1)] by blast
    have uv: "u \<in> set urls" "url_key sh u = url_key sh v" using last_url_in [OF u] by simp_all
    have at: "global_view view (server_of hf p) w (to_string (url_key sh v)) = Some (encv u)"
      using Cons.prems(2) u assms(3) by (simp add: url_table_def)
    have ok: "val_ok u" "key_ok (to_string (url_key sh v))" using assms(6) uv by auto
    obtain w1 where w1: "paracel_read K hf fuel (to_string (url_key sh v)) p w = Inr (u, p, w1)" "inv w1"
      "global_view view srv w1 = global_view view srv w"
      using read_refines [OF Cons.prems(1) assms(2) ok(2,1) at assms(4)] assms(3) by auto
    have step: "retrieve_line K hf fuel line (os, p, w) = Inr (os @ url_answer sh urls line, p, w1)"
      using True key u w1(1) by (simp add: retrieve_line_def url_retrieve_def url_answer_def)
    have "url_table view encv sh srv w1 urls" using Cons.prems(2) by (simp add: url_table_def w1(3))
    with Cons.IH [OF w1(2), of "os @ url_answer sh urls line"] Cons.prems(3) step show ?thesis by auto
  qed
qed simp

end

interpretation urls: url_store "client_kvm (env_mp E) (cluster_zmq E addr) V" n
    "\<lambda>w. wire_env E \<and> sinv addr n w" sview "pk_pack (venc V)" "str_wire (env_mp E)"
    "wire_ok (venc V) (vdec V)" "lst_wire (env_mp E)" "vals_wire (env_mp E) V" for E addr V n
  by unfold_locales



end
