(* ===== verification/Expand.thy ===== *)
theory Expand
  imports Loader "HOL-Library.Monad_Syntax"
begin

text \<open>
  \<open>expand\<close> of \<open>utils/ext_utility.hpp\<close>: a file name, a directory or a pattern becomes the list of
  the files to load. What \<open>stat\<close> and \<open>glob\<close> answer is a parameter: the kind of the file a name
  leads to, and the names a pattern matches. \<open>expand_dir_rec\<close> need not return (\<open>None\<close>) on every
  such environment; on a directory tree it does.
\<close>

section \<open>The functions\<close>

datatype file_kind = Reg | Directory | Special

record fsys =
  fs_stat :: "string \<Rightarrow> file_kind option"
  fs_glob :: "string \<Rightarrow> string list"

definition isfile :: "fsys \<Rightarrow> string \<Rightarrow> bool" where
  "isfile S f = (case fs_stat S f of None \<Rightarrow> False | Some k \<Rightarrow> k = Reg)"

definition isdir :: "fsys \<Rightarrow> string \<Rightarrow> bool" where
  "isdir S d = (case fs_stat S d of None \<Rightarrow> False | Some k \<Rightarrow> k = Directory)"

definition paracel_glob :: "fsys \<Rightarrow> string \<Rightarrow> string list" where
  "paracel_glob S pat = fold (\<lambda>name lst. lst @ [name]) (fs_glob S pat) []"

definition dir_pattern :: "string \<Rightarrow> string" where
  "dir_pattern dname = (if \<not> endswith dname ''/'' then dname @ ''/'' else dname) @ ''*''"

text \<open>The loop over the names of one directory; the recursive call runs it on another.\<close>

partial_function (option) expand_loop :: "fsys \<Rightarrow> string list \<Rightarrow> string list option" where
  "expand_loop S lst = (case lst of
       [] \<Rightarrow> Some []
     | name # lst \<Rightarrow>
         if isfile S name then do { fl \<leftarrow> expand_loop S lst; Some (name # fl) }
         else do { tmp_lst \<leftarrow> expand_loop S (paracel_glob S (dir_pattern name));
                   fl \<leftarrow> expand_loop S lst; Some (tmp_lst @ fl) })"

definition expand_dir_rec :: "fsys \<Rightarrow> string \<Rightarrow> string list option" where
  "expand_dir_rec S dname = expand_loop S (paracel_glob S (dir_pattern dname))"

definition expand :: "fsys \<Rightarrow> string \<Rightarrow> string list option" where
  "expand S fname =
     (if isfile S fname then Some [fname]
      else if isdir S fname then expand_dir_rec S fname
      else Some (paracel_glob S fname))"

fun expand_names :: "fsys \<Rightarrow> string list \<Rightarrow> string list option" where
  "expand_names S [] = Some []"
| "expand_names S (name # fname_lst) =
     do { tmp_lst \<leftarrow> expand S name; fl \<leftarrow> expand_names S fname_lst; Some (tmp_lst @ fl) }"

text \<open>Loading starts with it: on every rank, and when one rank reads all.\<close>

definition load_path :: "fsys \<Rightarrow> files \<Rightarrow> string \<Rightarrow> 'v paralg \<Rightarrow> (string list \<times> 'v paralg) res option" where
  "load_path S fs fn p =
     do { fname_lst \<leftarrow> expand S fn; Some (paracel_load fs fname_lst (\<lambda>_. Inl BadFunctionCall) p) }"

definition loadall_path :: "fsys \<Rightarrow> files \<Rightarrow> string \<Rightarrow> string list res option" where
  "loadall_path S fs fn = do { fname_lst \<leftarrow> expand S fn; Some (paracel_loadall fs fname_lst) }"

section \<open>Directory trees\<close>

text \<open>The entries of a directory are in the order in which \<open>glob\<close> gives them; hidden files it leaves out.\<close>

datatype ftree = File | Node "(string \<times> ftree) list" | Device

abbreviation below :: "string \<Rightarrow> string \<Rightarrow> string" where
  "below name c \<equiv> butlast (dir_pattern name) @ c"

fun mounted :: "fsys \<Rightarrow> string \<Rightarrow> ftree \<Rightarrow> bool" where
  "mounted S name File \<longleftrightarrow> fs_stat S name = Some Reg"
| "mounted S name (Node cs) \<longleftrightarrow> fs_stat S name = Some Directory \<and>
     fs_glob S (dir_pattern name) = map (\<lambda>c. below name (fst c)) cs \<and>
     (\<forall>c \<in> set cs. mounted S (below name (fst c)) (snd c))"
| "mounted S name Device \<longleftrightarrow> fs_stat S name = Some Special \<and> fs_glob S (dir_pattern name) = []"

fun tree_files :: "string \<Rightarrow> ftree \<Rightarrow> string list" where
  "tree_files name File = [name]"
| "tree_files name (Node cs) = concat (map (\<lambda>c. tree_files (below name (fst c)) (snd c)) cs)"
| "tree_files name Device = []"

lemma paracel_glob_all: "paracel_glob S pat = fs_glob S pat"
proof -
  have "fold (\<lambda>name lst. lst @ [name]) ns lst = lst @ ns" for ns lst :: "string list"
    by (induction ns arbitrary: lst) auto
  then show ?thesis by (simp add: paracel_glob_def)
qed

lemma expand_loop_simps [simp]:
  "expand_loop S [] = Some []"
  "isfile S name \<Longrightarrow> expand_loop S (name # lst) = map_option ((#) name) (expand_loop S lst)"
  "\<not> isfile S name \<Longrightarrow> expand_loop S (name # lst) =
     do { tmp_lst \<leftarrow> expand_loop S (fs_glob S (dir_pattern name)); fl \<leftarrow> expand_loop S lst; Some (tmp_lst @ fl) }"
  by (subst expand_loop.simps; simp add: paracel_glob_all map_conv_bind_option comp_def)+

lemma expand_loop_append:
  "expand_loop S xs = Some a \<Longrightarrow> expand_loop S ys = Some b \<Longrightarrow> expand_loop S (xs @ ys) = Some (a @ b)"
proof (induction xs arbitrary: a)
  case (Cons x xs)
  then show ?case by (cases "isfile S x") (auto simp: bind_eq_Some_conv)
qed simp

lemma expand_loop_tree: "mounted S name t \<Longrightarrow> expand_loop S [name] = Some (tree_files name t)"
proof (induction name t rule: tree_files.induct)
  case (2 name cs)
  have "\<forall>c \<in> set cs. expand_loop S [below name (fst c)] = Some (tree_files (below name (fst c)) (snd c))"
    using 2 by simp
  then have "expand_loop S (map (\<lambda>c. below name (fst c)) cs) =
      Some (concat (map (\<lambda>c. tree_files (below name (fst c)) (snd c)) cs))"
  proof (induction cs)
    case (Cons c cs)
    then show ?case using expand_loop_append [of S "[below name (fst c)]"] by fastforce
  qed simp
  then show ?case using "2.prems" by (simp add: isfile_def)
qed (simp_all add: isfile_def)

lemma expand_tree:
  assumes "mounted S name t" "t \<noteq> Device"
  shows "expand S name = Some (tree_files name t)"
proof (cases t)
  case (Node cs)
  then have "expand_loop S [name] = expand_loop S (fs_glob S (dir_pattern name)) \<bind> (\<lambda>l. Some (l @ []))"
    using assms(1) by (simp add: isfile_def)
  then show ?thesis
    using Node assms(1) expand_loop_tree [OF assms(1)]
    by (simp add: expand_def expand_dir_rec_def paracel_glob_all isfile_def isdir_def)
qed (use assms in \<open>auto simp: expand_def isfile_def\<close>)


text \<open>Witness: a directory with a file, a directory with a file in it, and a device.\<close>

definition demo_tree :: ftree where
  "demo_tree = Node [(''a'', File), (''s'', Node [(''b'', File)]), (''z'', Device)]"

definition demo_fsys :: fsys where
  "demo_fsys = \<lparr>fs_stat = map_of [(''d'', Directory), (''d/a'', Reg), (''d/s'', Directory), (''d/s/b'', Reg), (''d/z'', Special)],
     fs_glob = (\<lambda>pat. if pat = ''d/*'' then [''d/a'', ''d/s'', ''d/z''] else if pat = ''d/s/*'' then [''d/s/b''] else [])\<rparr>"

definition demo_files :: files where
  "demo_files = (\<lambda>n. Some [CHR ''x'', newline, CHR ''y'', newline])"


end
