(* ===== verification/Params.thy ===== *)
theory Params
  imports Worker
begin

text \<open>
  A parameter shared by name: it is written, an updater is registered with the servers, and then
  the workers read it and add to it without naming the updater again. \<open>param_store\<close> is the
  contract, interpreted on the clients and servers after registration; the updater may be partial
  as long as it is defined on the values that are stored.
\<close>

section \<open>Requests and the threads of a server\<close>

lemma at_client_stat_nd:
  assumes "wire_env E" "sinv addr n (cs, w)" "j < n"
    and "op \<in> set op_names" "\<forall>a \<in> set args. clean seperator a \<and> a \<noteq> []"
    and "port_of nm \<noteq> 2" "port_of nm < 4"
    and "thrd_branch E op (pack_str (env_mp E) op # args) (n_thr (w ! j) (port_of nm)) (n_tbl (w ! j)) =
      Inr ([rep_bool E b], th, tbl)"
  shows "\<exists>w'. at_client (req_stat (env_mp E) (cluster_zmq E addr) nm (port_of nm)
        (pack_str (env_mp E) op # args) st) j (cs, w) = Inr (b, w') \<and>
    sinv addr n w' \<and> sview w' = (sview (cs, w))(j := kvs_get tbl) \<and>
    snd w' = w[j := (w ! j)\<lparr>n_thr := (n_thr (w ! j))(port_of nm := th), n_tbl := tbl\<rparr>]"
proof (rule at_client_req_nd [OF assms(1-7) refl assms(8),
    where rd = "\<lambda>data. rbind (recv_val (um_bool (env_mp E)) data st) (\<lambda>(r, stat). and_stat r stat)"])
  show "req_stat (env_mp E) (cluster_zmq E addr) nm (port_of nm) (pack_str (env_mp E) op # args) st c w
      = rbind (send_req (cluster_zmq E addr) nm (port_of nm) (pack_str (env_mp E) op # args) c w)
          (\<lambda>(data, c, w). rbind (rbind (recv_val (um_bool (env_mp E)) data st) (\<lambda>(r, stat). and_stat r stat))
            (\<lambda>r. Inr (r, c, w)))" for c w
    by (simp add: req_stat_def rbind_assoc case_prod_unfold)
  show "rbind (recv_val (um_bool (env_mp E)) (rep_bool E b) st) (\<lambda>(r, stat). and_stat r stat) = Inr b"
    using assms(1) by (simp add: recv_bool and_stat_def)
qed

text \<open>The updaters of the servers, as far as the requests concern them.\<close>

abbreviation updaters :: "node list \<Rightarrow> update_result option list" where
  "updaters w \<equiv> map (\<lambda>nd. update_f (n_thr nd 3)) w"

lemma updaters_same:
  "j < length w \<Longrightarrow> update_f (h 3) = update_f (n_thr (w ! j) 3) \<Longrightarrow>
   updaters (w[j := (w ! j)\<lparr>n_thr := h, n_tbl := t\<rparr>]) = updaters w"
  by (rule nth_equalityI) (auto simp: nth_list_update)

lemma updaters_tbl [simp]: "updaters (w[j := (w ! j)\<lparr>n_tbl := t\<rparr>]) = updaters w"
  by (cases "j < length w"; intro nth_equalityI) (auto simp: nth_list_update)

text \<open>The clocks of the servers: only the SSP thread changes them.\<close>

abbreviation clocks :: "node list \<Rightarrow> ssp list" where
  "clocks w \<equiv> map n_ssp w"

lemma clocks_same [simp]:
  "clocks (w[j := (w ! j)\<lparr>n_thr := h, n_tbl := t\<rparr>]) = clocks w" "clocks (w[j := (w ! j)\<lparr>n_tbl := t\<rparr>]) = clocks w"
  "clocks (w[j := (w ! j)\<lparr>n_thr := h\<rparr>]) = clocks w"
  by (cases "j < length w"; intro nth_equalityI; simp add: nth_list_update)+

lemma push_updaters:
  assumes "wire_env E" "sinv addr n w" "j < n" "str_wire (env_mp E) k" "wire_ok (venc V) (vdec V) v"
  shows "\<exists>w'. m_push (client_kvm (env_mp E) (cluster_zmq E addr) V) j k v w = Inr (True, w') \<and>
    sinv addr n w' \<and> sview w' = (sview w)(j := (sview w j)(k \<mapsto> pk_pack (venc V) v)) \<and>
    updaters (snd w') = updaters (snd w) \<and> clocks (snd w') = clocks (snd w)"
proof -
  obtain cs nd where w: "w = (cs, nd)" by fastforce
  let ?tbl = "kvs_set k (pk_pack (venc V) v) (n_tbl (nd ! j))"
  have j: "j < length nd" using assms(2,3) by (auto simp: w sinv_def)
  have br: "thrd_branch E ''push'' [pack_str (env_mp E) ''push'', pack_str (env_mp E) k, pk_pack (venc V) v]
      (n_thr (nd ! j) (port_of P_push)) (n_tbl (nd ! j)) =
    Inr ([rep_bool E True], n_thr (nd ! j) (port_of P_push), ?tbl)"
    using wire_packed [OF assms(4)] by (simp add: kvm_defs)
  have ops: "''push'' \<in> set op_names"
    "\<forall>a \<in> set [pack_str (env_mp E) k, pk_pack (venc V) v]. clean seperator a \<and> a \<noteq> []"
    "port_of P_push \<noteq> 2" "port_of P_push < 4"
    using wire_packed [OF assms(4)] wire_packed [OF assms(5)] by (simp_all add: op_names_def replying_ops_def)
  obtain w' where "at_client (req_stat (env_mp E) (cluster_zmq E addr) P_push (port_of P_push)
        [pack_str (env_mp E) ''push'', pack_str (env_mp E) k, pk_pack (venc V) v] None) j (cs, nd) = Inr (True, w')"
    "sinv addr n w'" "sview w' = (sview (cs, nd))(j := kvs_get ?tbl)"
    "snd w' = nd[j := (nd ! j)\<lparr>n_thr := (n_thr (nd ! j))(port_of P_push := n_thr (nd ! j) (port_of P_push)), n_tbl := ?tbl\<rparr>]"
    using at_client_stat_nd [OF assms(1) assms(2) [unfolded w] assms(3) ops br, of None] by blast
  moreover have "kvs_get ?tbl = (sview (cs, nd) j)(k \<mapsto> pk_pack (venc V) v)"
    by (simp add: sview_tbl [OF assms(2) [unfolded w] assms(3)] kv.lookup_insert fun_eq_iff)
  ultimately show ?thesis by (auto simp: w client_kvm_def kvclt_push_def)
qed

lemma pull_updaters:
  assumes "wire_env E" "sinv addr n w" "j < n" "str_wire (env_mp E) k"
    and "wire_ok (venc V) (vdec V) v" "sview w j k = Some (pk_pack (venc V) v)"
  shows "\<exists>w'. m_pull (client_kvm (env_mp E) (cluster_zmq E addr) V) j k w = Inr (v, w') \<and>
    sinv addr n w' \<and> sview w' = sview w \<and> updaters (snd w') = updaters (snd w) \<and>
    clocks (snd w') = clocks (snd w)"
proof -
  obtain cs nd where w: "w = (cs, nd)" by fastforce
  note inv = assms(2) [unfolded w]
  have j: "j < length nd" using inv assms(3) by (auto simp: sinv_def)
  have "\<exists>w'. at_client (kvclt_pull (env_mp E) (cluster_zmq E addr) V k) j (cs, nd) = Inr (v, w') \<and>
      sinv addr n w' \<and> sview w' = (sview (cs, nd))(j := kvs_get (n_tbl (nd ! j))) \<and>
      snd w' = nd[j := (nd ! j)\<lparr>n_thr := (n_thr (nd ! j))(0 := n_thr (nd ! j) 0), n_tbl := n_tbl (nd ! j)\<rparr>]"
    by (rule at_client_req_nd [OF assms(1) inv assms(3), of "''pull''" "[pack_str (env_mp E) k]" P_pull 0
          "pk_pack (venc V) v" "n_thr (nd ! j) 0" "n_tbl (nd ! j)" _
          "\<lambda>data. rbind (recv_val (vdec V) data None) (\<lambda>(r, val).
             if \<not> r then Inl AssertFailed else of_opt UndefinedRead val)"])
      (use assms wire_packed [OF assms(4)] wire_packed [OF assms(5)] in
        \<open>simp_all add: w kvm_defs kvclt_pull_def rbind_assoc case_prod_unfold recv_val_packed
          kvs_get_into_get sview_tbl [OF inv assms(3)] rbind_if_Inl\<close>)
  then show ?thesis using sview_same [OF inv assms(3)] updaters_same [OF j] by (auto simp: w client_kvm_def)
qed

lemma register_updaters:
  assumes "wire_env E" "sinv addr n w" "j < n" "upd_env_res E V fn f"
  shows "\<exists>w'. m_register_bupdate (client_kvm (env_mp E) (cluster_zmq E addr) V) j (fst fn) (snd fn) w = Inr (True, w') \<and>
    sinv addr n w' \<and> sview w' = sview w \<and> updaters (snd w') = (updaters (snd w))[j := Some (proxied V f)] \<and>
    clocks (snd w') = clocks (snd w)"
proof -
  obtain cs nd where w: "w = (cs, nd)" by fastforce
  note inv = assms(2) [unfolded w]
  let ?args = "[pack_str (env_mp E) (fst fn), pack_str (env_mp E) (snd fn)]"
  let ?th = "(n_thr (nd ! j) 3)\<lparr>update_f := Some (proxied V f)\<rparr>"
  have ok: "str_wire (env_mp E) (fst fn)" "str_wire (env_mp E) (snd fn)"
    "env_dl_update E (fst fn) (snd fn) = Some (proxied V f)"
    using assms(4) by (simp_all add: upd_env_def)
  have br: "thrd_branch E ''register_bupdate'' (pack_str (env_mp E) ''register_bupdate'' # ?args)
      (n_thr (nd ! j) (port_of P_bupdate)) (n_tbl (nd ! j)) = Inr ([rep_bool E True], ?th, n_tbl (nd ! j))"
    using ok wire_packed [OF ok(1)] wire_packed [OF ok(2)] by (simp add: kvm_defs dlopen_update_def)
  have ops: "''register_bupdate'' \<in> set op_names" "\<forall>a \<in> set ?args. clean seperator a \<and> a \<noteq> []"
    "port_of P_bupdate \<noteq> 2" "port_of P_bupdate < 4"
    using wire_packed [OF ok(1)] wire_packed [OF ok(2)] by (simp_all add: op_names_def replying_ops_def)
  obtain w' where "at_client (req_stat (env_mp E) (cluster_zmq E addr) P_bupdate (port_of P_bupdate)
        (pack_str (env_mp E) ''register_bupdate'' # ?args) None) j (cs, nd) = Inr (True, w')"
    "sinv addr n w'" "sview w' = (sview (cs, nd))(j := kvs_get (n_tbl (nd ! j)))"
    "snd w' = nd[j := (nd ! j)\<lparr>n_thr := (n_thr (nd ! j))(port_of P_bupdate := ?th), n_tbl := n_tbl (nd ! j)\<rparr>]"
    using at_client_stat_nd [OF assms(1) inv assms(3) ops br, of None] by blast
  then show ?thesis
    using sview_same [OF inv assms(3)] inv assms(3)
    by (auto simp: w client_kvm_def kvclt_register_bupdate_def map_update list_update_same_conv sinv_def)
qed

section \<open>The contract\<close>

locale param_store = kv_adds K n inv view encv key_ok val_ok None comb
  for K :: "('v, 'w) kvm_ops" and n inv view encv key_ok val_ok comb +
  assumes pull: "inv w \<Longrightarrow> j < n \<Longrightarrow> key_ok k \<Longrightarrow> val_ok v \<Longrightarrow> view w j k = Some (encv v) \<Longrightarrow>
      \<exists>w'. m_pull K j k w = Inr (v, w') \<and> inv w' \<and> view w' = view w"
begin

text \<open>A worker without SSP reads the parameter and adds to it.\<close>

lemma read_param:
  assumes "inv w" "routes hf n p" "\<not> ssp_switch p" "key_ok k" "val_ok v"
    and "global_view view (server_of hf p) w k = Some (encv v)"
  shows "\<exists>w'. paracel_read K hf fuel k p w = Inr (v, p, w') \<and> inv w' \<and>
    global_view view (server_of hf p) w' = global_view view (server_of hf p) w"
  using pull [OF assms(1) routes_server [OF assms(2), of k] assms(4,5)] assms(3,6)
  by (auto simp: paracel_read_def ps_route_ok [OF assms(2)] global_view_def fun_eq_iff)

lemma add_param:
  assumes "inv w" "routes hf n p" "\<not> ssp_switch p" "key_ok k" "val_ok v" "val_ok d" "val_ok (comb v d)"
    and "global_view view (server_of hf p) w k = Some (encv v)"
  shows "\<exists>w'. paracel_bupdate K hf k d None p w = Inr (True, p, w') \<and> inv w' \<and>
    global_view view (server_of hf p) w' = (global_view view (server_of hf p) w)(k \<mapsto> encv (comb v d))"
  using bupdate_global [OF assms(1,2,4,6,3), of "Some v"] assms(5,7,8) by simp

end

section \<open>The registered servers keep it\<close>

definition rinv ::
  "env \<Rightarrow> 'v vcodec \<Rightarrow> ('v \<Rightarrow> 'v \<Rightarrow> 'v res) \<Rightarrow> (string \<Rightarrow> (nat \<times> nat) option) \<Rightarrow> nat \<Rightarrow>
     kvclt list \<times> node list \<Rightarrow> bool"
where
  "rinv E V f addr n w \<longleftrightarrow> wire_env E \<and> (\<forall>u \<in> set (updaters (snd w)). u = Some (proxied V f)) \<and> sinv addr n w"

lemma rinv_updaters:
  "rinv E V f addr n w \<Longrightarrow> sinv addr n w' \<Longrightarrow> updaters (snd w') = updaters (snd w) \<Longrightarrow> rinv E V f addr n w'"
  unfolding rinv_def by metis

lemma rinv_add:
  assumes "rinv E V f addr n w" "j < n" "str_wire (env_mp E) k" "wire_ok (venc V) (vdec V) d"
    and "sview w j k = None \<and> r = d \<or>
      (\<exists>v. sview w j k = Some (pk_pack (venc V) v) \<and> wire_ok (venc V) (vdec V) v \<and> f v d = Inr r)"
    and "wire_ok (venc V) (vdec V) r"
  shows "\<exists>w'. m_bupdate (client_kvm (env_mp E) (cluster_zmq E addr) V) j k d None w = Inr ((r, True), w') \<and>
    rinv E V f addr n w' \<and> sview w' = (sview w)(j := (sview w j)(k \<mapsto> pk_pack (venc V) r)) \<and>
    clocks (snd w') = clocks (snd w)"
proof -
  obtain cs nd where w: "w = (cs, nd)" by fastforce
  have ok: "wire_env E" "sinv addr n (cs, nd)" "upd_ready_res E V None f nd" "j < length nd"
    "\<forall>x \<in> set nd. update_f (n_thr x 3) = Some (proxied V f)"
    using assms(1,2) by (auto simp: rinv_def w upd_ready_def sinv_def)
  obtain w' where w': "m_bupdate (client_kvm (env_mp E) (cluster_zmq E addr) V) j k d None (cs, nd) = Inr ((r, True), w')"
    "sinv addr n w'" "sview w' = (sview (cs, nd))(j := (sview (cs, nd) j)(k \<mapsto> pk_pack (venc V) r))"
    "snd w' = nd[j := (nd ! j)\<lparr>n_thr := (n_thr (nd ! j))(3 := n_thr (nd ! j) 3), n_tbl := n_tbl (snd w' ! j)\<rparr>]"
  proof -
    let ?tbl = "kvs_set k (pk_pack (venc V) r) (n_tbl (nd ! j))"
    have th: "update_f (n_thr (nd ! j) 3) = Some (proxied V f)" using ok(4,5) by simp
    have upd: "kv_update k (pk_pack (venc V) d) (Some (proxied V f)) (n_tbl (nd ! j)) = Inr (pk_pack (venc V) r, ?tbl)"
      using assms(5) wire_packed [OF assms(4)]
      by (auto simp: w kv_update_def sview_tbl [OF ok(2) assms(2)] call2_def update_proxy_packed wire_ok_def)
    have br: "thrd_branch E ''bupdate'' [pack_str (env_mp E) ''bupdate'', pack_str (env_mp E) k, pk_pack (venc V) d]
        (n_thr (nd ! j) 3) (n_tbl (nd ! j)) = Inr ([pk_pack (venc V) r], n_thr (nd ! j) 3, ?tbl)"
      using th upd wire_packed [OF assms(3)] by (simp add: kvm_defs load_updater_def)
    have "\<exists>w'. at_client (kvclt_bupdate (env_mp E) (cluster_zmq E addr) V k d None) j (cs, nd) =
        Inr ((r, True), w') \<and> sinv addr n w' \<and> sview w' = (sview (cs, nd))(j := kvs_get ?tbl) \<and>
        snd w' = nd[j := (nd ! j)\<lparr>n_thr := (n_thr (nd ! j))(3 := n_thr (nd ! j) 3), n_tbl := ?tbl\<rparr>]"
      by (rule at_client_req_nd [OF ok(1,2) assms(2), of "''bupdate''"
            "[pack_str (env_mp E) k, pk_pack (venc V) d]"
            P_bupdate 3 "pk_pack (venc V) r" "n_thr (nd ! j) 3" ?tbl _
            "\<lambda>data. rbind (recv_val (vdec V) data None) (\<lambda>(r, val).
               rbind (of_opt UndefinedRead val) (\<lambda>val. Inr (val, r)))"])
        (use br wire_packed [OF assms(3)] wire_packed [OF assms(4)] wire_packed [OF assms(6)] in
          \<open>simp_all add: op_names_def replying_ops_def kvclt_bupdate_def fn_args_def rbind_assoc case_prod_unfold recv_val_packed\<close>)
    moreover have "kvs_get ?tbl = (sview (cs, nd) j)(k \<mapsto> pk_pack (venc V) r)"
      by (simp add: sview_tbl [OF ok(2) assms(2)] kv.lookup_insert fun_eq_iff)
    ultimately show ?thesis using that ok(4) by (auto simp: client_kvm_def)
  qed
  have "updaters (snd w') = updaters nd" using updaters_same [OF ok(4)] w'(4) by (metis fun_upd_same)
  moreover have "clocks (snd w') = clocks nd" using w'(4) clocks_same(1) by metis
  ultimately show ?thesis using w' rinv_updaters [OF assms(1)] by (auto simp: w)
qed

interpretation svr: param_store "client_kvm (env_mp E) (cluster_zmq E addr) V" n
    "\<lambda>w. rinv E V f addr n w \<and> (\<forall>a b. ok a \<longrightarrow> ok b \<longrightarrow> f a b = Inr (comb a b))"
    sview "pk_pack (venc V)" "str_wire (env_mp E)" "\<lambda>v. wire_ok (venc V) (vdec V) v \<and> ok v" comb
  for E addr V n f ok comb
proof (unfold_locales, goal_cases)
  case (1 w j k d)
  then show ?case using rinv_add [of E V f addr n w j k d d] by blast
next
  case (2 w j k d v)
  then show ?case using rinv_add [of E V f addr n w j k d "comb v d"] by blast
next
  case (3 w j k v)
  then have "wire_env E" "sinv addr n w" by (auto simp: rinv_def)
  then show ?case using pull_updaters [of E addr n w j k V v] rinv_updaters [of E V f addr n w] 3 by blast
qed

text \<open>After one worker has registered the updater the servers keep the contract, and it stays so.\<close>

lemma register_all_updaters:
  assumes "wire_env E" "upd_env_res E V fn f" "sinv addr n w" "\<forall>j \<in> set js. j < n"
  shows "\<exists>w'. register_all (\<lambda>i. m_register_bupdate (client_kvm (env_mp E) (cluster_zmq E addr) V) i (fst fn) (snd fn)) js True w =
      Inr (True, w') \<and> sinv addr n w' \<and> sview w' = sview w \<and> clocks (snd w') = clocks (snd w) \<and>
    (\<forall>j < n. updaters (snd w') ! j = (if j \<in> set js then Some (proxied V f) else updaters (snd w) ! j))"
  using assms(3,4)
proof (induction js arbitrary: w)
  case (Cons i js)
  obtain w1 where w1: "m_register_bupdate (client_kvm (env_mp E) (cluster_zmq E addr) V) i (fst fn) (snd fn) w = Inr (True, w1)"
    "sinv addr n w1" "sview w1 = sview w" "updaters (snd w1) = (updaters (snd w))[i := Some (proxied V f)]"
    "clocks (snd w1) = clocks (snd w)"
    using register_updaters [OF assms(1) Cons.prems(1) _ assms(2), of i] Cons.prems(2) by auto
  obtain w' where w': "register_all (\<lambda>i. m_register_bupdate (client_kvm (env_mp E) (cluster_zmq E addr) V) i (fst fn) (snd fn)) js True w1 =
      Inr (True, w')" "sinv addr n w'" "sview w' = sview w1" "clocks (snd w') = clocks (snd w1)"
    "\<forall>j < n. updaters (snd w') ! j = (if j \<in> set js then Some (proxied V f) else updaters (snd w1) ! j)"
    using Cons.IH [OF w1(2)] Cons.prems(2) by auto
  have "length (updaters (snd w)) = n" using Cons.prems(1) by (auto simp: sinv_def)
  then have "updaters (snd w1) ! j = (if j = i then Some (proxied V f) else updaters (snd w) ! j)" if "j < n" for j
    using that by (simp add: w1(4) nth_list_update del: length_map)
  then show ?case using w1(1,3,5) w' by auto
qed simp

lemma registered:
  assumes "wire_env E" "upd_env_res E V fn f" "sinv addr n w" "routes hf n p"
  shows "\<exists>w'. paracel_register_bupdate (client_kvm (env_mp E) (cluster_zmq E addr) V) (fst fn) (snd fn) p w = Inr (True, p, w') \<and>
    rinv E V f addr n w' \<and> sview w' = sview w \<and> clocks (snd w') = clocks (snd w)"
proof -
  obtain w' where w': "register_all (\<lambda>i. m_register_bupdate (client_kvm (env_mp E) (cluster_zmq E addr) V) i (fst fn) (snd fn)) [0..<n] True w =
      Inr (True, w')" "sinv addr n w'" "sview w' = sview w" "clocks (snd w') = clocks (snd w)"
    "\<forall>j < n. updaters (snd w') ! j = Some (proxied V f)"
    using register_all_updaters [OF assms(1-3), of "[0..<n]"] by auto
  have "length (updaters (snd w')) = n" using w'(2) by (auto simp: sinv_def)
  then have "\<forall>u \<in> set (updaters (snd w')). u = Some (proxied V f)" using w'(5) by (metis in_set_conv_nth)
  then show ?thesis
    using w'(1-4) assms(1,4) by (simp add: rinv_def paracel_register_bupdate_def routes_def)
qed

end
