(* ===== verification/Logistic.thy ===== *)
theory Logistic
  imports Params Loader
begin

text \<open>
  \<open>alg/logistic_regression/lg.cpp\<close> with the updater of \<open>update.cpp\<close>: gradient descent on a parameter
  \<open>theta\<close> that all ranks share, in rounds between barriers (\<open>dgd_learning\<close>, \<open>ipm_learning\<close>).

  A double is a value of any type with the arithmetic operations (\<open>div\<close> is its division): the
  definitions use no law of them. \<open>exp\<close> is the parameter \<open>ex\<close>, \<open>random_double_list\<close> the parameter \<open>rnd\<close> (of the rank and the length),
  and \<open>std::random_shuffle\<close> gives the visiting order as an argument. \<open>sync()\<close> is taken as the barrier
  it is meant to be, and one is taken to stand behind the first writes, where the code has none. The
  losses that are collected when \<open>debug\<close> is set are left out of the loops.
\<close>

section \<open>Updater, hypothesis and data\<close>

definition lg_local_update :: "'d :: plus list \<Rightarrow> 'd list \<Rightarrow> 'd list res" where
  "lg_local_update a b = rmapM (\<lambda>i. rbind (nth_res b i) (\<lambda>y. Inr (a ! i + y))) [0..<length a]"

definition lg_theta_update :: "'d :: plus list vcodec \<Rightarrow> update_result" where
  "lg_theta_update V = update_proxy (venc V) (vdec V) (vdec V) lg_local_update"

definition lg_fn :: "string \<times> string" where
  "lg_fn = (''/mfs/user/wuhong/paracel/build/lib/liblg_update.so'', ''lg_theta_update'')"

definition dot_product :: "'d :: {zero, plus, times} list \<Rightarrow> 'd list \<Rightarrow> 'd res" where
  "dot_product a b =
     (if length a \<le> length b then Inr (foldl (\<lambda>s (x, y). s + x * y) 0 (zip a b)) else Inl UndefinedRead)"

record 'd lg_cfg =
  lg_exp :: "'d \<Rightarrow> 'd"
  lg_alpha :: 'd
  lg_beta :: 'd

record 'd lg_data =
  samples :: "'d list list"
  labels :: "'d list"

definition lg_hypothesis ::
  "'d :: {zero, one, plus, times, divide, uminus} lg_cfg \<Rightarrow> 'd list \<Rightarrow> 'd list \<Rightarrow> 'd res"
where
  "lg_hypothesis C theta v = rbind (dot_product v theta) (\<lambda>dp. Inr (1 div (1 + lg_exp C (- dp))))"

text \<open>A line without an item: \<open>linev.size() - 1\<close> wraps around and the loop reads behind the end.\<close>

definition parse_sample :: "'d :: one dbl \<Rightarrow> string \<Rightarrow> ('d list \<times> 'd) res" where
  "parse_sample D line =
     (let linev = str_split line (CHR '','')
      in if linev = [] then Inl UndefinedRead
         else rbind (rmapM (\<lambda>s. of_opt InvalidArgument (dread D s)) (butlast linev)) (\<lambda>vs.
              rbind (of_opt InvalidArgument (dread D (last linev))) (\<lambda>label. Inr (1 # vs, label))))"

definition local_parser :: "'d :: one dbl \<Rightarrow> string list \<Rightarrow> 'd lg_data res" where
  "local_parser D linelst = rbind (rmapM (parse_sample D) linelst) (\<lambda>rs.
     Inr \<lparr>samples = map fst rs, labels = map snd rs\<rparr>)"

definition data_dim :: "'d lg_data \<Rightarrow> nat res" where
  "data_dim dt = rbind (nth_res (samples dt) 0) (\<lambda>x. Inr (length x))"

definition coff2 :: "'d :: {one, plus, times} lg_cfg \<Rightarrow> 'd" where
  "coff2 C = (1 + 1) * lg_beta C * lg_alpha C"

section \<open>One rank, one round\<close>

text \<open>\<open>dgd_learning\<close>: the gradient at the \<open>theta\<close> that was read, over all samples.\<close>

definition dgd_sample ::
  "'d :: {zero, one, plus, minus, times, divide, uminus} lg_cfg \<Rightarrow> 'd lg_data \<Rightarrow> 'd list \<Rightarrow> nat \<Rightarrow> 'd list \<Rightarrow> 'd list res"
where
  "dgd_sample C dt theta sample_id delta =
     rbind (nth_res (labels dt) sample_id) (\<lambda>label. rbind (nth_res (samples dt) sample_id) (\<lambda>x.
     rbind (lg_hypothesis C theta x) (\<lambda>h.
       let grad = label - h; coff1 = lg_alpha C * grad
       in rmapM (\<lambda>i. rbind (nth_res x i) (\<lambda>xi. rbind (nth_res theta i) (\<lambda>ti.
            let t = coff1 * xi - coff2 C * ti in Inr (delta ! i + t)))) [0..<length delta])))"

definition dgd_delta ::
  "'d :: {zero, one, plus, minus, times, divide, uminus} lg_cfg \<Rightarrow> 'd lg_data \<Rightarrow> 'd list \<Rightarrow> nat list \<Rightarrow> 'd list res"
where
  "dgd_delta C dt theta idx = rbind (data_dim dt) (\<lambda>dim. rfold (dgd_sample C dt theta) idx (replicate dim 0))"

text \<open>\<open>ipm_learning\<close>: descent from sample to sample; the hypothesis is computed anew for each coordinate.\<close>

definition descend_coord ::
  "'d :: {zero, one, plus, minus, times, divide, uminus} lg_cfg \<Rightarrow> 'd lg_data \<Rightarrow> nat \<Rightarrow> nat \<Rightarrow> 'd list \<Rightarrow> 'd list res"
where
  "descend_coord C dt sample_id i theta =
     rbind (nth_res (labels dt) sample_id) (\<lambda>label. rbind (nth_res (samples dt) sample_id) (\<lambda>x.
     rbind (lg_hypothesis C theta x) (\<lambda>h. rbind (nth_res x i) (\<lambda>xi. rbind (nth_res theta i) (\<lambda>ti.
       let coff1 = lg_alpha C * (label - h); t = coff1 * xi - coff2 C * ti
       in Inr (theta[i := ti + t]))))))"

definition descend_sample ::
  "'d :: {zero, one, plus, minus, times, divide, uminus} lg_cfg \<Rightarrow> 'd lg_data \<Rightarrow> nat \<Rightarrow> nat \<Rightarrow> 'd list \<Rightarrow> 'd list res"
where
  "descend_sample C dt dim sample_id = rfold (descend_coord C dt sample_id) [0..<dim]"

definition descend ::
  "'d :: {zero, one, plus, minus, times, divide, uminus} lg_cfg \<Rightarrow> 'd lg_data \<Rightarrow> 'd list \<Rightarrow> nat list \<Rightarrow> 'd list res"
where
  "descend C dt theta idx = rbind (data_dim dt) (\<lambda>dim. rfold (descend_sample C dt dim) idx theta)"

text \<open>An \<open>int\<close> as a double.\<close>

primrec dbl_of :: "nat \<Rightarrow> 'd :: {zero, one, plus}" where
  "dbl_of 0 = 0"
| "dbl_of (Suc n) = dbl_of n + 1"

definition ipm_delta ::
  "nat \<Rightarrow> 'd :: {zero, one, plus, minus, times, divide, uminus} lg_cfg \<Rightarrow> 'd lg_data \<Rightarrow> 'd list \<Rightarrow> nat list \<Rightarrow> 'd list res"
where
  "ipm_delta sz C dt theta_old idx =
     (let wgt = 1 div dbl_of sz
      in rbind (data_dim dt) (\<lambda>dim. rbind (descend C dt theta_old idx) (\<lambda>theta.
         rmapM (\<lambda>i. rbind (nth_res theta i) (\<lambda>t. rbind (nth_res theta_old i) (\<lambda>t_old.
           Inr (wgt * (t - t_old))))) [0..<dim])))"

section \<open>All ranks\<close>

type_synonym 'd lg_rank = "'d list paralg \<times> 'd lg_data"

text \<open>Before the loop: every rank writes its own random \<open>theta\<close> and registers the updater.\<close>

definition lg_init_rank ::
  "('d list, 'w) kvm_ops \<Rightarrow> (string \<Rightarrow> u64) \<Rightarrow> (nat \<Rightarrow> nat \<Rightarrow> 'd list) \<Rightarrow> nat \<Rightarrow>
     'd lg_rank list \<times> 'w \<Rightarrow> ('d lg_rank list \<times> 'w) res"
where
  "lg_init_rank K hf rnd i = (\<lambda>(rs, w).
     rbind (nth_res rs i) (\<lambda>(p, dt). rbind (data_dim dt) (\<lambda>dim.
     rbind (paracel_write K hf ''theta'' (rnd i dim) p w) (\<lambda>(_, p, w).
     rbind (paracel_register_bupdate K (fst lg_fn) (snd lg_fn) p w) (\<lambda>(_, p, w).
     Inr (rs[i := (p, dt)], w))))))"

text \<open>
  A round: every rank reads and works on what it read, then, behind the barrier, sends its delta;
  the deltas arrive in any order. \<open>work\<close> is what a rank does between.
\<close>

fun lg_map ::
  "('d list, 'w) kvm_ops \<Rightarrow> (string \<Rightarrow> u64) \<Rightarrow> nat \<Rightarrow> ('d lg_data \<Rightarrow> 'd list \<Rightarrow> nat list \<Rightarrow> 'd list res) \<Rightarrow>
     ('d lg_rank \<times> nat list) list \<Rightarrow> 'w \<Rightarrow> (('d list \<times> 'd lg_rank) list \<times> 'w) res"
where
  "lg_map K hf fuel work [] w = Inr ([], w)"
| "lg_map K hf fuel work (((p, dt), idx) # rs) w =
     rbind (paracel_read K hf fuel ''theta'' p w) (\<lambda>(theta, p, w).
     rbind (work dt theta idx) (\<lambda>delta.
     rbind (lg_map K hf fuel work rs w) (\<lambda>(ds, w). Inr ((delta, (p, dt)) # ds, w))))"

definition lg_send ::
  "('d list, 'w) kvm_ops \<Rightarrow> (string \<Rightarrow> u64) \<Rightarrow> nat \<Rightarrow>
     ('d list \<times> 'd lg_rank) list \<times> 'w \<Rightarrow> (('d list \<times> 'd lg_rank) list \<times> 'w) res"
where
  "lg_send K hf i = (\<lambda>(ds, w). rbind (nth_res ds i) (\<lambda>(delta, (p, dt)).
     rbind (paracel_bupdate K hf ''theta'' delta None p w) (\<lambda>(_, p, w).
     Inr (ds[i := (delta, (p, dt))], w))))"

definition lg_round ::
  "('d list, 'w) kvm_ops \<Rightarrow> (string \<Rightarrow> u64) \<Rightarrow> nat \<Rightarrow> ('d lg_data \<Rightarrow> 'd list \<Rightarrow> nat list \<Rightarrow> 'd list res) \<Rightarrow>
     nat list list \<times> nat list \<Rightarrow> 'd lg_rank list \<times> 'w \<Rightarrow> ('d lg_rank list \<times> 'w) res"
where
  "lg_round K hf fuel work = (\<lambda>(idxs, order) (rs, w).
     rbind (lg_map K hf fuel work (zip rs idxs) w) (\<lambda>(ds, w).
     rbind (rfold (lg_send K hf) order (ds, w)) (\<lambda>(ds, w). Inr (map snd ds, w))))"

text \<open>The last pull of every rank.\<close>

fun lg_last ::
  "('d list, 'w) kvm_ops \<Rightarrow> (string \<Rightarrow> u64) \<Rightarrow> nat \<Rightarrow> 'd lg_rank list \<Rightarrow> 'w \<Rightarrow> ('d list list \<times> 'w) res"
where
  "lg_last K hf fuel [] w = Inr ([], w)"
| "lg_last K hf fuel ((p, dt) # rs) w =
     rbind (paracel_read K hf fuel ''theta'' p w) (\<lambda>(theta, p, w).
     rbind (lg_last K hf fuel rs w) (\<lambda>(ts, w). Inr (theta # ts, w)))"

definition lg_learning ::
  "('d lg_data \<Rightarrow> 'd list \<Rightarrow> nat list \<Rightarrow> 'd list res) \<Rightarrow> ('d list, 'w) kvm_ops \<Rightarrow> (string \<Rightarrow> u64) \<Rightarrow> nat \<Rightarrow>
     (nat \<Rightarrow> nat \<Rightarrow> 'd list) \<Rightarrow> nat list \<Rightarrow> (nat list list \<times> nat list) list \<Rightarrow> 'd lg_rank list \<Rightarrow> 'w \<Rightarrow>
     ('d list list \<times> 'w) res"
where
  "lg_learning work K hf fuel rnd first rounds rs w =
     rbind (rfold (lg_init_rank K hf rnd) first (rs, w)) (\<lambda>(rs, w).
     rbind (rfold (lg_round K hf fuel work) rounds (rs, w)) (\<lambda>(rs, w). lg_last K hf fuel rs w))"

definition dgd_learning where
  "dgd_learning C = lg_learning (dgd_delta C)"

definition ipm_learning where
  "ipm_learning sz C = lg_learning (ipm_delta sz C)"

text \<open>\<open>solve\<close>: loading, parsing, the method of the configured name.\<close>

definition lg_load ::
  "'d :: one dbl \<Rightarrow> files \<Rightarrow> string list \<Rightarrow> 'd list paralg list \<Rightarrow> 'd lg_rank list res"
where
  "lg_load D fs names ps = rmapM (\<lambda>p.
     rbind (paracel_load fs names (\<lambda>_. Inl BadFunctionCall) p) (\<lambda>(lines, p).
     rbind (local_parser D lines) (\<lambda>dt. Inr (p, dt)))) ps"

text \<open>\<open>calc_loss\<close>: the squares of the hypotheses, summed over all ranks by \<open>allreduce\<close>, over the sizes.\<close>

definition rank_loss ::
  "'d :: {zero, one, plus, times, divide, uminus} lg_cfg \<Rightarrow> 'd list \<Rightarrow> 'd lg_data \<Rightarrow> 'd res"
where
  "rank_loss C theta dt = rfold (\<lambda>x loss. rbind (lg_hypothesis C theta x) (\<lambda>j. Inr (loss + j * j))) (samples dt) 0"

definition calc_loss ::
  "'d :: {zero, one, plus, times, divide, uminus} lg_cfg \<Rightarrow> ('d list \<times> 'd lg_data) list \<Rightarrow> 'd res"
where
  "calc_loss C rs =
     rbind (rmapM (\<lambda>(theta, dt). rank_loss C theta dt) rs) (\<lambda>ls.
     let loss = foldl (+) 0 ls; sz = sum_list (map (\<lambda>(theta, dt). length (samples dt)) rs)
     in Inr (loss div dbl_of sz))"

section \<open>Lemmas: vectors\<close>

definition vadd :: "'d :: plus list \<Rightarrow> 'd list \<Rightarrow> 'd list" where
  "vadd a b = map (\<lambda>i. a ! i + b ! i) [0..<length a]"

lemma vadd_simps [simp]: "length (vadd a b) = length a" "i < length a \<Longrightarrow> vadd a b ! i = a ! i + b ! i"
  by (simp_all add: vadd_def)

lemma lg_local_update_vadd: "length a = length b \<Longrightarrow> lg_local_update a b = Inr (vadd a b)"
  unfolding lg_local_update_def vadd_def by (rule rmapM_Inr_map) (simp add: nth_res_def)

lemma foldl_vadd_length [simp]: "length (foldl vadd t ds) = length t"
  by (induction ds arbitrary: t) simp_all

lemma foldl_vadd_nth:
  "i < length t \<Longrightarrow> foldl vadd t ds ! i = t ! i + (\<Sum>d\<leftarrow>ds. d ! i :: 'd :: comm_monoid_add)"
  by (induction ds arbitrary: t) (simp_all add: ac_simps)

lemma sum_list_perm: "mset xs = mset ys \<Longrightarrow> (\<Sum>x\<leftarrow>xs. f x) = (\<Sum>x\<leftarrow>ys. f x :: 'd :: comm_monoid_add)"
  by (metis mset_map sum_mset_sum_list)

lemma sum_list_nth: "(\<Sum>i\<leftarrow>[0..<length xs]. f (xs ! i)) = (\<Sum>x\<leftarrow>xs. f x :: 'd :: comm_monoid_add)"
  by (rule arg_cong [of _ _ sum_list], rule nth_equalityI) simp_all

section \<open>Lemmas: the delta of a rank\<close>

definition sigm :: "'d :: {zero, one, plus, times, divide, uminus} lg_cfg \<Rightarrow> 'd list \<Rightarrow> 'd list \<Rightarrow> 'd" where
  "sigm C theta x = 1 div (1 + lg_exp C (- foldl (\<lambda>s (x, y). s + x * y) 0 (zip x theta)))"

lemma lg_hypothesis_sigm: "length x \<le> length theta \<Longrightarrow> lg_hypothesis C theta x = Inr (sigm C theta x)"
  by (simp add: lg_hypothesis_def dot_product_def sigm_def)

text \<open>One coordinate of the gradient of a sample, with the regularisation.\<close>

definition grad_at ::
  "'d :: {zero, one, plus, minus, times, divide, uminus} lg_cfg \<Rightarrow> 'd list \<Rightarrow> nat \<Rightarrow> 'd list \<times> 'd \<Rightarrow> 'd"
where
  "grad_at C theta i = (\<lambda>(x, y). lg_alpha C * (y - sigm C theta x) * x ! i - coff2 C * theta ! i)"

definition data_ok :: "nat \<Rightarrow> 'd lg_data \<Rightarrow> bool" where
  "data_ok dim dt \<longleftrightarrow> samples dt \<noteq> [] \<and> length (labels dt) = length (samples dt) \<and> (\<forall>x \<in> set (samples dt). length x = dim)"

lemma data_ok_dim: "data_ok dim dt \<Longrightarrow> data_dim dt = Inr dim"
  by (cases "samples dt") (auto simp: data_ok_def data_dim_def)

abbreviation rank_data :: "'d lg_data \<Rightarrow> ('d list \<times> 'd) list" where
  "rank_data dt \<equiv> zip (samples dt) (labels dt)"

lemma dgd_sample_ok:
  fixes C :: "'d :: {comm_ring_1, divide} lg_cfg"
  assumes "data_ok dim dt" "s < length (samples dt)" "length theta = dim" "length delta = dim"
  shows "dgd_sample C dt theta s delta =
    Inr (vadd delta (map (\<lambda>i. grad_at C theta i (rank_data dt ! s)) [0..<dim]))"
proof -
  have x: "length (samples dt ! s) = dim" "s < length (labels dt)" using assms(1,2) by (auto simp: data_ok_def)
  have "rmapM (\<lambda>i. rbind (nth_res (samples dt ! s) i) (\<lambda>xi. rbind (nth_res theta i) (\<lambda>ti.
      let t = lg_alpha C * (labels dt ! s - sigm C theta (samples dt ! s)) * xi - coff2 C * ti in Inr (delta ! i + t))))
      [0..<length delta] =
    Inr (map (\<lambda>i. delta ! i + grad_at C theta i (rank_data dt ! s)) [0..<length delta])"
    by (rule rmapM_Inr_map) (use assms x in \<open>simp add: nth_res_def grad_at_def Let_def\<close>)
  then show ?thesis
    using assms x by (simp add: dgd_sample_def nth_res_def lg_hypothesis_sigm Let_def vadd_def)
qed

lemma dgd_delta_ok:
  fixes C :: "'d :: {comm_ring_1, divide} lg_cfg"
  assumes "data_ok dim dt" "length theta = dim" "mset idx = mset [0..<length (samples dt)]"
  shows "\<exists>d. dgd_delta C dt theta idx = Inr d \<and> length d = dim \<and>
    (\<forall>i < dim. d ! i = (\<Sum>s\<leftarrow>rank_data dt. grad_at C theta i s))"
proof -
  let ?g = "\<lambda>s. map (\<lambda>i. grad_at C theta i (rank_data dt ! s)) [0..<dim]"
  have run: "rfold (dgd_sample C dt theta) ss delta = Inr (foldl vadd delta (map ?g ss))"
    if "\<forall>s \<in> set ss. s < length (samples dt)" "length delta = dim" for ss delta
    using that dgd_sample_ok [OF assms(1) _ assms(2)] by (induction ss arbitrary: delta) auto
  have "set idx = {0..<length (samples dt)}" using mset_eq_setD [OF assms(3)] by simp
  then have d: "dgd_delta C dt theta idx = Inr (foldl vadd (replicate dim 0) (map ?g idx))"
    using run [of idx "replicate dim 0"] data_ok_dim [OF assms(1)] by (simp add: dgd_delta_def)
  have len: "length (rank_data dt) = length (samples dt)" using assms(1) by (simp add: data_ok_def)
  have "foldl vadd (replicate dim 0) (map ?g idx) ! i = (\<Sum>s\<leftarrow>rank_data dt. grad_at C theta i s)" if "i < dim" for i
  proof -
    have "foldl vadd (replicate dim 0) (map ?g idx) ! i = (\<Sum>s\<leftarrow>idx. grad_at C theta i (rank_data dt ! s))"
      using that by (simp add: foldl_vadd_nth comp_def)
    also have "\<dots> = (\<Sum>s\<leftarrow>[0..<length (rank_data dt)]. grad_at C theta i (rank_data dt ! s))"
      unfolding len by (rule sum_list_perm [OF assms(3)])
    finally show ?thesis by (simp only: sum_list_nth)
  qed
  then show ?thesis using d by auto
qed

section \<open>Lemmas: a round\<close>

definition lg_ready :: "(string \<Rightarrow> u64) \<Rightarrow> nat \<Rightarrow> (string \<Rightarrow> nat) \<Rightarrow> 'd lg_rank list \<Rightarrow> bool" where
  "lg_ready hf n srv rs \<longleftrightarrow> (\<forall>(p, dt) \<in> set rs. routes hf n p \<and> server_of hf p = srv \<and> \<not> ssp_switch p)"

text \<open>A store of a parameter vector.\<close>

locale vector_store = param_store K n inv view encv key_ok val_ok comb
  for K :: "('d list, 'w) kvm_ops" and n inv view encv key_ok val_ok comb
begin

lemma lg_map_ok:
  assumes "inv w" "lg_ready hf n srv rs" "key_ok ''theta''" "val_ok theta"
    and "global_view view srv w ''theta'' = Some (encv theta)" "length idxs = length rs" "length ds = length rs"
    and "\<forall>i < length rs. work (snd (rs ! i)) theta (idxs ! i) = Inr (ds ! i)"
  shows "\<exists>w'. lg_map K hf fuel work (zip rs idxs) w = Inr (zip ds rs, w') \<and> inv w' \<and>
    global_view view srv w' = global_view view srv w"
  using assms(1,2,5-8)
proof (induction rs arbitrary: idxs ds w)
  case (Cons r rs)
  obtain p dt where r: "r = (p, dt)" by (cases r)
  obtain idx idxs' where i: "idxs = idx # idxs'" using Cons.prems(4) by (cases idxs) auto
  obtain d ds' where d: "ds = d # ds'" using Cons.prems(5) by (cases ds) auto
  have p: "routes hf n p" "server_of hf p = srv" "\<not> ssp_switch p" "lg_ready hf n srv rs"
    using Cons.prems(2) by (auto simp: lg_ready_def r)
  have at: "global_view view (server_of hf p) w ''theta'' = Some (encv theta)" using Cons.prems(3) p(2) by simp
  obtain w1 where w1: "paracel_read K hf fuel ''theta'' p w = Inr (theta, p, w1)" "inv w1"
    "global_view view srv w1 = global_view view srv w"
    using read_param [OF Cons.prems(1) p(1,3) assms(3,4) at] p(2) by auto
  have wk: "work dt theta idx = Inr d" "\<forall>i < length rs. work (snd (rs ! i)) theta (idxs' ! i) = Inr (ds' ! i)"
    using Cons.prems(6) by (force simp: r i d)+
  have at1: "global_view view srv w1 ''theta'' = Some (encv theta)" using Cons.prems(3) w1(3) by simp
  obtain w' where "lg_map K hf fuel work (zip rs idxs') w1 = Inr (zip ds' rs, w')" "inv w'"
    "global_view view srv w' = global_view view srv w1"
    using Cons.IH [OF w1(2) p(4) at1 _ _ wk(2)] Cons.prems(4,5) by (auto simp: i d)
  then show ?case using w1 wk(1) by (simp add: r i d)
qed simp

lemma lg_send_ok:
  assumes "inv w" "lg_ready hf n srv rs" "key_ok ''theta''" "length ds = length rs"
    and "\<forall>i \<in> set order. i < length rs" "P theta" "\<forall>d \<in> set ds. P d"
    and "\<And>a. P a \<Longrightarrow> val_ok a" "\<And>a b. P a \<Longrightarrow> P b \<Longrightarrow> P (comb a b)"
    and "global_view view srv w ''theta'' = Some (encv theta)"
  shows "\<exists>w'. rfold (lg_send K hf) order (zip ds rs, w) = Inr (zip ds rs, w') \<and> inv w' \<and>
    global_view view srv w' ''theta'' = Some (encv (foldl comb theta (map ((!) ds) order))) \<and>
    P (foldl comb theta (map ((!) ds) order))"
  using assms(1,5,6,10)
proof (induction order arbitrary: w theta)
  case (Cons i order)
  have i: "i < length rs" using Cons.prems(2) by simp
  obtain p dt where r: "rs ! i = (p, dt)" by (cases "rs ! i")
  have p: "routes hf n p" "server_of hf p = srv" "\<not> ssp_switch p"
    using assms(2) nth_mem [OF i] by (auto simp: lg_ready_def r)
  have d: "P (ds ! i)" using assms(4,7) i by simp
  then have P: "P (comb theta (ds ! i))" using assms(9) Cons.prems(3) by blast
  have at: "global_view view (server_of hf p) w ''theta'' = Some (encv theta)" using Cons.prems(4) p(2) by simp
  obtain w1 where w1: "paracel_bupdate K hf ''theta'' (ds ! i) None p w = Inr (True, p, w1)" "inv w1"
    "global_view view srv w1 = (global_view view srv w)(''theta'' \<mapsto> encv (comb theta (ds ! i)))"
    using add_param [OF Cons.prems(1) p(1,3) assms(3) assms(8) [OF Cons.prems(3)] assms(8) [OF d] assms(8) [OF P] at] p(2)
    by auto
  have "lg_send K hf i (zip ds rs, w) = Inr (zip ds rs, w1)"
    using i assms(4) w1(1) r by (simp add: lg_send_def nth_res_def list_update_same_conv)
  moreover have "global_view view srv w1 ''theta'' = Some (encv (comb theta (ds ! i)))" using w1(3) by simp
  ultimately show ?case using Cons.IH [OF w1(2) _ P] Cons.prems(2) by auto
qed simp

lemma lg_round_ok:
  assumes "inv w" "lg_ready hf n srv rs" "key_ok ''theta''" "length idxs = length rs" "length ds = length rs"
    and "\<forall>i < length rs. work (snd (rs ! i)) theta (idxs ! i) = Inr (ds ! i)"
    and "\<forall>i \<in> set order. i < length rs" "P theta" "\<forall>d \<in> set ds. P d"
    and "\<And>a. P a \<Longrightarrow> val_ok a" "\<And>a b. P a \<Longrightarrow> P b \<Longrightarrow> P (comb a b)"
    and "global_view view srv w ''theta'' = Some (encv theta)"
  shows "\<exists>w'. lg_round K hf fuel work (idxs, order) (rs, w) = Inr (rs, w') \<and> inv w' \<and>
    global_view view srv w' ''theta'' = Some (encv (foldl comb theta (map ((!) ds) order)))"
proof -
  obtain w1 where w1: "lg_map K hf fuel work (zip rs idxs) w = Inr (zip ds rs, w1)" "inv w1"
    "global_view view srv w1 = global_view view srv w"
    using lg_map_ok [where work = work, OF assms(1-3) assms(10) [OF assms(8)] assms(12,4,5,6)] by blast
  then have at: "global_view view srv w1 ''theta'' = Some (encv theta)" using assms(12) by simp
  obtain w2 where "rfold (lg_send K hf) order (zip ds rs, w1) = Inr (zip ds rs, w2)" "inv w2"
    "global_view view srv w2 ''theta'' = Some (encv (foldl comb theta (map ((!) ds) order)))"
    using lg_send_ok [OF w1(2) assms(2,3,5,7,8,9,10,11) at] by blast
  then show ?thesis using w1(1) assms(5) by (simp add: lg_round_def)
qed

lemma lg_last_ok:
  assumes "inv w" "lg_ready hf n srv rs" "key_ok ''theta''" "val_ok theta"
    and "global_view view srv w ''theta'' = Some (encv theta)"
  shows "\<exists>w'. lg_last K hf fuel rs w = Inr (replicate (length rs) theta, w')"
  using assms(1,2,5)
proof (induction rs arbitrary: w)
  case (Cons r rs)
  obtain p dt where r: "r = (p, dt)" by (cases r)
  have p: "routes hf n p" "server_of hf p = srv" "\<not> ssp_switch p" "lg_ready hf n srv rs"
    using Cons.prems(2) by (auto simp: lg_ready_def r)
  have at: "global_view view (server_of hf p) w ''theta'' = Some (encv theta)" using Cons.prems(3) p(2) by simp
  obtain w1 where w1: "paracel_read K hf fuel ''theta'' p w = Inr (theta, p, w1)" "inv w1"
    "global_view view srv w1 = global_view view srv w"
    using read_param [OF Cons.prems(1) p(1,3) assms(3,4) at] p(2) by auto
  then show ?case using Cons.IH [OF w1(2) p(4)] Cons.prems(3) by (auto simp: r)
qed simp

end

interpretation svv: vector_store "client_kvm (env_mp E) (cluster_zmq E addr) V" n
    "\<lambda>w. rinv E V f addr n w \<and> (\<forall>a b. ok a \<longrightarrow> ok b \<longrightarrow> f a b = Inr (comb a b))"
    sview "pk_pack (venc V)" "str_wire (env_mp E)" "\<lambda>v. wire_ok (venc V) (vdec V) v \<and> ok v" comb
  for E addr V n f ok comb
  by unfold_locales

section \<open>Lemmas: the start\<close>

lemma lg_init_ok:
  assumes "wire_env E" "upd_env_res E V lg_fn lg_local_update" "lg_ready hf n srv rs"
    and "str_wire (env_mp E) ''theta''" "\<forall>(p, dt) \<in> set rs. data_dim dt = Inr dim"
    and "\<forall>i < length rs. wire_ok (venc V) (vdec V) (rnd i dim)" "\<forall>i \<in> set first. i < length rs" "first \<noteq> []"
    and "sinv addr n w"
  shows "\<exists>w'. rfold (lg_init_rank (client_kvm (env_mp E) (cluster_zmq E addr) V) hf rnd) first (rs, w) = Inr (rs, w') \<and>
    rinv E V lg_local_update addr n w' \<and>
    global_view sview srv w' ''theta'' = Some (pk_pack (venc V) (rnd (last first) dim))"
proof -
  have step: "\<exists>w'. lg_init_rank (client_kvm (env_mp E) (cluster_zmq E addr) V) hf rnd i (rs, w) = Inr (rs, w') \<and>
      rinv E V lg_local_update addr n w' \<and>
      global_view sview srv w' ''theta'' = Some (pk_pack (venc V) (rnd i dim))"
    if i: "i < length rs" and w: "sinv addr n w" for i w
  proof -
    obtain p dt where r: "rs ! i = (p, dt)" by (cases "rs ! i")
    have p: "routes hf n p" "server_of hf p = srv" "\<not> ssp_switch p" "data_dim dt = Inr dim"
      using assms(3,5) nth_mem [OF i] by (auto simp: lg_ready_def r)
    let ?j = "server_of hf p ''theta''"
    obtain w1 where w1: "m_push (client_kvm (env_mp E) (cluster_zmq E addr) V) ?j ''theta'' (rnd i dim) w = Inr (True, w1)"
      "sinv addr n w1" "sview w1 = (sview w)(?j := (sview w ?j)(''theta'' \<mapsto> pk_pack (venc V) (rnd i dim)))"
      using svc.push [of E addr n w ?j "''theta''" V "rnd i dim"] routes_server [OF p(1)] assms(1,4,6) i w by blast
    obtain w2 where w2: "paracel_register_bupdate (client_kvm (env_mp E) (cluster_zmq E addr) V) (fst lg_fn) (snd lg_fn) p w1 = Inr (True, p, w2)"
      "rinv E V lg_local_update addr n w2" "sview w2 = sview w1"
      using registered [OF assms(1,2) w1(2) p(1)] by blast
    have "paracel_write (client_kvm (env_mp E) (cluster_zmq E addr) V) hf ''theta'' (rnd i dim) p w = Inr (True, p, w1)"
      using w1(1) p(3) by (simp add: paracel_write_def ps_route_ok [OF p(1)] Let_def)
    then have "lg_init_rank (client_kvm (env_mp E) (cluster_zmq E addr) V) hf rnd i (rs, w) = Inr (rs, w2)"
      using i w2(1) p(4) by (simp add: lg_init_rank_def nth_res_def r list_update_same_conv)
    moreover have "global_view sview srv w2 ''theta'' = Some (pk_pack (venc V) (rnd i dim))"
      using w1(3) w2(3) p(2) by (auto simp: global_view_def)
    ultimately show ?thesis using w2(2) by blast
  qed
  show ?thesis
    using assms(8,7)
  proof (induction first rule: rev_nonempty_induct)
    case (single i)
    then show ?case using step [of i w] assms(9) by auto
  next
    case (snoc i first)
    obtain w1 where w1: "rfold (lg_init_rank (client_kvm (env_mp E) (cluster_zmq E addr) V) hf rnd) first (rs, w) = Inr (rs, w1)"
      "rinv E V lg_local_update addr n w1"
      using snoc by auto
    then have "sinv addr n w1" by (simp add: rinv_def)
    from step [OF _ this, of i] snoc.prems w1(1) show ?case by (auto simp: rfold_append)
  qed
qed

section \<open>Gradient descent\<close>

text \<open>The reference: one step of batch gradient descent on a list of samples with their labels.\<close>

definition batch_step :: "'d :: {comm_ring_1, divide} lg_cfg \<Rightarrow> ('d list \<times> 'd) list \<Rightarrow> 'd list \<Rightarrow> 'd list" where
  "batch_step C data theta = map (\<lambda>i. theta ! i +
     (\<Sum>(x, y)\<leftarrow>data. lg_alpha C * (y - sigm C theta x) * x ! i - 2 * lg_beta C * lg_alpha C * theta ! i)) [0..<length theta]"

lemma batch_step_length [simp]: "length ((batch_step C data ^^ k) theta) = length theta"
  by (induction k) (simp_all add: batch_step_def)

definition all_data :: "'d lg_rank list \<Rightarrow> ('d list \<times> 'd) list" where
  "all_data rs = concat (map (rank_data \<circ> snd) rs)"

lemma sum_ranks:
  fixes f :: "'x \<Rightarrow> 'd :: comm_monoid_add"
  assumes "mset order = mset [0..<length ls]"
  shows "(\<Sum>i\<leftarrow>order. \<Sum>s\<leftarrow>ls ! i. f s) = (\<Sum>s\<leftarrow>concat ls. f s)"
proof -
  have "(\<Sum>i\<leftarrow>order. \<Sum>s\<leftarrow>ls ! i. f s) = (\<Sum>i\<leftarrow>[0..<length ls]. \<Sum>s\<leftarrow>ls ! i. f s)"
    by (rule sum_list_perm [OF assms])
  also have "\<dots> = (\<Sum>l\<leftarrow>ls. \<Sum>s\<leftarrow>l. f s)" by (rule sum_list_nth)
  also have "\<dots> = (\<Sum>s\<leftarrow>concat ls. f s)" by (induction ls) simp_all
  finally show ?thesis .
qed

lemma deltas_are_batch:
  fixes C :: "'d :: {comm_ring_1, divide} lg_cfg"
  assumes "length ds = length rs" "\<forall>i < length rs. length (ds ! i) = length theta \<and>
      (\<forall>j < length theta. ds ! i ! j = (\<Sum>s\<leftarrow>rank_data (snd (rs ! i)). grad_at C theta j s))"
    and "mset order = mset [0..<length rs]"
  shows "foldl vadd theta (map ((!) ds) order) = batch_step C (all_data rs) theta"
proof (rule nth_equalityI)
  have "set order = {0..<length rs}" using mset_eq_setD [OF assms(3)] by simp
  then have ord: "i < length rs" if "i \<in> set order" for i using that by simp
  fix j assume "j < length (foldl vadd theta (map ((!) ds) order))"
  then have j: "j < length theta" by simp
  let ?ls = "map (rank_data \<circ> snd) rs"
  have "foldl vadd theta (map ((!) ds) order) ! j = theta ! j + (\<Sum>i\<leftarrow>order. ds ! i ! j)"
    using j by (simp add: foldl_vadd_nth comp_def)
  also have "map (\<lambda>i. ds ! i ! j) order = map (\<lambda>i. \<Sum>s\<leftarrow>?ls ! i. grad_at C theta j s) order"
    using ord assms(2) j by (auto simp: nth_map)
  also have "(\<Sum>i\<leftarrow>order. \<Sum>s\<leftarrow>?ls ! i. grad_at C theta j s) = (\<Sum>s\<leftarrow>concat ?ls. grad_at C theta j s)"
    by (rule sum_ranks) (simp add: assms(3))
  finally show "foldl vadd theta (map ((!) ds) order) ! j = batch_step C (all_data rs) theta ! j"
    using j by (simp add: batch_step_def all_data_def grad_at_def coff2_def case_prod_unfold)
qed (simp add: batch_step_def)

text \<open>What a round needs: an order in which a rank visits its samples, and one in which the deltas arrive.\<close>

definition round_ok :: "'d lg_rank list \<Rightarrow> nat list list \<times> nat list \<Rightarrow> bool" where
  "round_ok rs = (\<lambda>(idxs, order). length idxs = length rs \<and> mset order = mset [0..<length rs] \<and>
     (\<forall>i < length rs. mset (idxs ! i) = mset [0..<length (samples (snd (rs ! i)))]))"

lemma round_ok_order: "round_ok rs (idxs, order) \<Longrightarrow> set order = {0..<length rs}"
  using mset_eq_setD [of order "[0..<length rs]"] by (simp add: round_ok_def)

text \<open>A whole run, when the deltas of a round add up to a step \<open>stp\<close> of the parameter.\<close>

lemma lg_learning_ok:
  fixes rnd :: "nat \<Rightarrow> nat \<Rightarrow> 'd :: {comm_ring_1, divide} list"
  assumes "wire_env E" "upd_env_res E V lg_fn lg_local_update" "sinv addr n w" "lg_ready hf n srv rs"
    and "str_wire (env_mp E) ''theta''" "\<forall>v. length v = dim \<longrightarrow> wire_ok (venc V) (vdec V) v"
    and "\<forall>(p, dt) \<in> set rs. data_ok dim dt" "\<forall>i. length (rnd i dim) = dim"
    and "first \<noteq> []" "\<forall>i \<in> set first. i < length rs" "\<forall>r \<in> set rounds. round_ok rs r"
    and step: "\<And>theta idxs order. length theta = dim \<Longrightarrow> round_ok rs (idxs, order) \<Longrightarrow>
      \<exists>ds. length ds = length rs \<and> (\<forall>i < length rs. work (snd (rs ! i)) theta (idxs ! i) = Inr (ds ! i) \<and>
          length (ds ! i) = dim) \<and> foldl vadd theta (map ((!) ds) order) = stp (idxs, order) theta"
  shows "\<exists>w'. lg_learning work (client_kvm (env_mp E) (cluster_zmq E addr) V) hf fuel rnd first rounds rs w =
    Inr (replicate (length rs) (fold stp rounds (rnd (last first) dim)), w')"
proof -
  let ?K = "client_kvm (env_mp E) (cluster_zmq E addr) V"
  let ?ok = "\<lambda>v :: 'd list. length v = dim"
  let ?inv = "\<lambda>w. rinv E V lg_local_update addr n w \<and>
    (\<forall>a b. ?ok a \<longrightarrow> ?ok b \<longrightarrow> lg_local_update a b = Inr (vadd a b))"
  have upd: "\<forall>a b :: 'd list. ?ok a \<longrightarrow> ?ok b \<longrightarrow> lg_local_update a b = Inr (vadd a b)"
    by (simp add: lg_local_update_vadd)
  have dims: "\<forall>(p, dt) \<in> set rs. data_dim dt = Inr dim" using assms(7) data_ok_dim by fastforce
  obtain w1 where w1: "rfold (lg_init_rank ?K hf rnd) first (rs, w) = Inr (rs, w1)" "?inv w1"
    "global_view sview srv w1 ''theta'' = Some (pk_pack (venc V) (rnd (last first) dim))"
    using lg_init_ok [OF assms(1,2,4,5) dims _ assms(10,9,3), of rnd] assms(6,8) upd by blast
  have run: "\<exists>w'. rfold (lg_round ?K hf fuel work) rds (rs, w) = Inr (rs, w') \<and> ?inv w' \<and> ?ok (fold stp rds theta) \<and>
      global_view sview srv w' ''theta'' = Some (pk_pack (venc V) (fold stp rds theta))"
    if "?inv w" "global_view sview srv w ''theta'' = Some (pk_pack (venc V) theta)" "?ok theta" "\<forall>r \<in> set rds. round_ok rs r"
    for rds w theta
    using that
  proof (induction rds arbitrary: w theta)
    case (Cons r rds)
    obtain idxs order where r: "r = (idxs, order)" by (cases r)
    have ro: "round_ok rs (idxs, order)" "length idxs = length rs" using Cons.prems(4) by (auto simp: round_ok_def r)
    obtain ds where step_ds: "length ds = length rs" "\<forall>i < length rs. work (snd (rs ! i)) theta (idxs ! i) = Inr (ds ! i) \<and>
        length (ds ! i) = dim" "foldl vadd theta (map ((!) ds) order) = stp (idxs, order) theta"
      using step [OF Cons.prems(3) ro(1)] by blast
    then have ds: "length ds = length rs" "\<forall>i < length rs. work (snd (rs ! i)) theta (idxs ! i) = Inr (ds ! i)"
      "\<forall>d \<in> set ds. ?ok d" "foldl vadd theta (map ((!) ds) order) = stp (idxs, order) theta"
      by (auto simp: in_set_conv_nth)
    have ord: "\<forall>i \<in> set order. i < length rs" using round_ok_order [OF ro(1)] by simp
    obtain w2 where w2: "lg_round ?K hf fuel work r (rs, w) = Inr (rs, w2)" "?inv w2"
      "global_view sview srv w2 ''theta'' = Some (pk_pack (venc V) (stp (idxs, order) theta))"
      using svv.lg_round_ok [where work = work and P = ?ok and comb = vadd and f = lg_local_update and ok = ?ok
          and E = E and V = V and addr = addr and hf = hf and srv = srv and n = n and theta = theta and fuel = fuel,
          OF Cons.prems(1) assms(4,5) ro(2) ds(1,2) ord Cons.prems(3) ds(3) _ _ Cons.prems(2)] assms(6)
      unfolding ds(4) r by auto
    have "?ok (stp (idxs, order) theta)" unfolding ds(4) [symmetric] using Cons.prems(3) by simp
    from Cons.IH [OF w2(2,3) this] Cons.prems(4) show ?case using w2(1) by (auto simp: r)
  qed simp
  obtain w2 where w2: "rfold (lg_round ?K hf fuel work) rounds (rs, w1) = Inr (rs, w2)" "?inv w2"
    "?ok (fold stp rounds (rnd (last first) dim))"
    "global_view sview srv w2 ''theta'' = Some (pk_pack (venc V) (fold stp rounds (rnd (last first) dim)))"
    using run [OF w1(2,3) _ assms(11)] assms(8) by blast
  have "wire_ok (venc V) (vdec V) (fold stp rounds (rnd (last first) dim)) \<and> ?ok (fold stp rounds (rnd (last first) dim))"
    using assms(6) w2(3) by blast
  from svv.lg_last_ok [OF w2(2) assms(4,5) this w2(4)] show ?thesis
    using w1(1) w2(1) by (auto simp: lg_learning_def)
qed


text \<open>Witness: one rank and one server, bytes for doubles, one sample \<open>1\<close> with label 3.\<close>

definition byte_codec :: "8 word list vcodec" where
  "byte_codec = \<lparr>venc = (\<lambda>v. to_string (unat (hd v))), vdec = (\<lambda>s. Some [word_of_nat (digits_val s)])\<rparr>"

definition lg_env :: env where
  "lg_env = plain_env\<lparr>env_dl_update := (\<lambda>_ _. Some (lg_theta_update byte_codec))\<rparr>"

definition lg_demo_cfg :: "8 word lg_cfg" where
  "lg_demo_cfg = \<lparr>lg_exp = (\<lambda>_. 0), lg_alpha = 1, lg_beta = 0\<rparr>"

definition lg_demo :: "8 word lg_rank list" where
  "lg_demo = [(plain_worker, \<lparr>samples = [[1]], labels = [3]\<rparr>)]"

lemma byte_wire: "length v = 1 \<Longrightarrow> wire_ok (venc byte_codec) (vdec byte_codec) v"
proof -
  assume v: "length v = 1"
  then obtain x where x: "v = [x]" by (auto simp: length_Suc_conv)
  let ?s = "to_string (unat x)"
  have digit: "c \<noteq> CHR ''P''" if "c \<in> set ?s" for c
    using that to_string_digits [of "unat x"] by (auto simp: is_digit_def)
  have "unat x < 256" using unsigned_less [of x] by simp
  then have len: "length ?s \<le> 3" by (simp add: to_string.simps)
  have "length ?s = 0 \<or> length ?s = 1 \<or> length ?s = 2 \<or> length ?s = 3" using len by linarith
  then have "CHR ''P'' \<notin> set (pk_pack (venc byte_codec) v)"
    using digit by (auto simp: byte_codec_def pk_pack_def Let_def le_encode_numeral x, auto simp: char_of_def)
  then show ?thesis
    using clean_no_P len by (auto simp: wire_ok_def packable_def byte_codec_def digits_val_to_string x)
qed

lemma lg_demo_ok:
  "wire_env lg_env" "upd_env_res lg_env byte_codec lg_fn lg_local_update" "lg_ready (\<lambda>s. word_of_nat (length s)) 1 (\<lambda>_. 0) lg_demo"
  "str_wire (env_mp lg_env) ''theta''" "\<forall>(p, dt) \<in> set lg_demo. data_ok 1 dt"
proof -
  have mp: "env_mp lg_env = plain_msgpack" by (simp add: lg_env_def)
  have c: "clean seperator (pk_pack (\<lambda>s. s) ''theta'')" "clean seperator (pk_pack (\<lambda>s. s) (fst lg_fn))"
    "clean seperator (pk_pack (\<lambda>s. s) (snd lg_fn))"
    by (simp_all add: pk_pack_def le_encode_numeral lg_fn_def, simp_all add: char_of_def,
        simp_all add: clean_Cons, simp_all add: seperator_def)
  show "wire_env lg_env" using wire_env_plain by (simp add: wire_env_def lg_env_def del: plain_msgpack_simps)
  show "str_wire (env_mp lg_env) ''theta''" using plain_wire [OF _ c(1)] by (simp add: mp del: plain_msgpack_simps)
  have "str_wire plain_msgpack (fst lg_fn)" "str_wire plain_msgpack (snd lg_fn)"
    using plain_wire [OF _ c(2)] plain_wire [OF _ c(3)] by (simp_all add: lg_fn_def del: plain_msgpack_simps)
  then show "upd_env_res lg_env byte_codec lg_fn lg_local_update"
    by (simp add: upd_env_res_def mp, simp add: lg_env_def lg_theta_update_def)
  show "lg_ready (\<lambda>s. word_of_nat (length s)) 1 (\<lambda>_. 0) lg_demo"
    by (simp add: lg_ready_def lg_demo_def fun_eq_iff plain_server plain_routes [unfolded One_nat_def])
  show "\<forall>(p, dt) \<in> set lg_demo. data_ok 1 dt" by (simp add: lg_demo_def data_ok_def)
qed


section \<open>Parameter mixture\<close>

lemma descend_ok:
  fixes C :: "'d :: {comm_ring_1, divide} lg_cfg"
  assumes "data_ok dim dt" "length theta = dim" "\<forall>s \<in> set idx. s < length (samples dt)"
  shows "\<exists>th. descend C dt theta idx = Inr th \<and> length th = dim"
proof -
  have coord: "\<exists>th'. descend_coord C dt s i th = Inr th' \<and> length th' = dim"
    if "s < length (samples dt)" "i < dim" "length th = dim" for s i th
  proof -
    have "length (samples dt ! s) = dim" "s < length (labels dt)" using assms(1) that(1) by (auto simp: data_ok_def)
    then show ?thesis using that by (simp add: descend_coord_def nth_res_def lg_hypothesis_sigm Let_def)
  qed
  have smp: "\<exists>th'. rfold (descend_coord C dt s) is th = Inr th' \<and> length th' = dim"
    if s: "s < length (samples dt)" and r: "\<forall>i \<in> set is. i < dim" "length th = dim" for s "is" th
    using r
  proof (induction "is" arbitrary: th)
    case (Cons i "is")
    obtain t1 where "descend_coord C dt s i th = Inr t1" "length t1 = dim"
      using coord [OF s _ Cons.prems(2), of i] Cons.prems(1) by auto
    then show ?case using Cons by simp
  qed simp
  have "\<exists>th'. rfold (descend_sample C dt dim) ss th = Inr th' \<and> length th' = dim"
    if "\<forall>s \<in> set ss. s < length (samples dt)" "length th = dim" for ss th
    using that
  proof (induction ss arbitrary: th)
    case (Cons s ss)
    obtain t1 where "descend_sample C dt dim s th = Inr t1" "length t1 = dim"
      using smp [of s "[0..<dim]" th] Cons.prems by (auto simp: descend_sample_def)
    then show ?case using Cons by simp
  qed simp
  then show ?thesis using assms(2,3) data_ok_dim [OF assms(1)] by (simp add: descend_def)
qed

text \<open>The parameter a rank reaches alone, and the mean of those of all ranks.\<close>

definition descended ::
  "'d :: {zero, one, plus, minus, times, divide, uminus} lg_cfg \<Rightarrow> 'd lg_data \<Rightarrow> 'd list \<Rightarrow> nat list \<Rightarrow> 'd list"
where
  "descended C dt theta idx = (case descend C dt theta idx of Inl _ \<Rightarrow> [] | Inr th \<Rightarrow> th)"

definition mix_step ::
  "'d :: {comm_ring_1, divide} lg_cfg \<Rightarrow> 'd lg_rank list \<Rightarrow> nat list list \<times> nat list \<Rightarrow> 'd list \<Rightarrow> 'd list"
where
  "mix_step C rs = (\<lambda>(idxs, order) theta. map (\<lambda>j. 1 div of_nat (length rs) *
     (\<Sum>i\<leftarrow>[0..<length rs]. descended C (snd (rs ! i)) theta (idxs ! i) ! j)) [0..<length theta])"

lemma dbl_of_nat: "dbl_of n = (of_nat n :: 'd :: {comm_ring_1, divide})"
  by (induction n) (simp_all add: add.commute)

lemma ipm_delta_ok:
  fixes C :: "'d :: {comm_ring_1, divide} lg_cfg"
  assumes "data_ok dim dt" "length theta = dim" "\<forall>s \<in> set idx. s < length (samples dt)"
  shows "ipm_delta sz C dt theta idx = Inr (map (\<lambda>j. 1 div of_nat sz * (descended C dt theta idx ! j - theta ! j)) [0..<dim])"
proof -
  obtain th where th: "descend C dt theta idx = Inr th" "length th = dim" using descend_ok [OF assms] by blast
  have "rmapM (\<lambda>i. rbind (nth_res th i) (\<lambda>t. rbind (nth_res theta i) (\<lambda>t_old.
      Inr (1 div of_nat sz * (t - t_old))))) [0..<dim] = Inr (map (\<lambda>j. 1 div of_nat sz * (th ! j - theta ! j)) [0..<dim])"
    by (rule rmapM_Inr_map) (simp add: nth_res_def th(2) assms(2))
  then show ?thesis
    using th(1) data_ok_dim [OF assms(1)] by (simp add: ipm_delta_def descended_def dbl_of_nat)
qed

lemma deltas_are_mix:
  fixes C :: "'d :: {comm_ring_1, divide} lg_cfg"
  assumes "1 div of_nat (length rs) * of_nat (length rs) = (1 :: 'd)" "round_ok rs (idxs, order)"
    and "\<forall>i < length rs. ds ! i = map (\<lambda>j. 1 div of_nat (length rs) *
      (descended C (snd (rs ! i)) theta (idxs ! i) ! j - theta ! j)) [0..<length theta]"
  shows "foldl vadd theta (map ((!) ds) order) = mix_step C rs (idxs, order) theta"
proof (rule nth_equalityI)
  let ?wgt = "1 div of_nat (length rs) :: 'd"
  have perm: "mset order = mset [0..<length rs]" using assms(2) by (simp add: round_ok_def)
  fix j assume "j < length (foldl vadd theta (map ((!) ds) order))"
  then have j: "j < length theta" by simp
  let ?d = "\<lambda>i. descended C (snd (rs ! i)) theta (idxs ! i) ! j"
  have "foldl vadd theta (map ((!) ds) order) ! j = theta ! j + (\<Sum>i\<leftarrow>order. ds ! i ! j)"
    using j by (simp add: foldl_vadd_nth comp_def)
  also have "map (\<lambda>i. ds ! i ! j) order = map (\<lambda>i. ?wgt * (?d i - theta ! j)) order"
    using round_ok_order [OF assms(2)] assms(3) j by simp
  also have "(\<Sum>i\<leftarrow>order. ?wgt * (?d i - theta ! j)) = (\<Sum>i\<leftarrow>[0..<length rs]. ?wgt * (?d i - theta ! j))"
    by (rule sum_list_perm [OF perm])
  also have "\<dots> = ?wgt * (\<Sum>i\<leftarrow>[0..<length rs]. ?d i) - ?wgt * of_nat (length rs) * theta ! j"
    by (simp add: sum_list_const_mult sum_list_subtractf right_diff_distrib sum_list_triv mult.assoc mult.left_commute)
  finally show "foldl vadd theta (map ((!) ds) order) ! j = mix_step C rs (idxs, order) theta ! j"
    using j assms(1) by (simp add: mix_step_def)
qed (simp add: mix_step_def)



end
