(* ===== verification/Agd.thy ===== *)
theory Agd
  imports Logistic
begin

text \<open>
  \<open>agd_learning\<close> of \<open>alg/logistic_regression/lg.cpp\<close>, asynchronous descent: inside a round a rank reads
  and updates \<open>theta\<close> whenever its counter passes a multiple of the batch size, and the requests of
  the ranks interleave. A rank is a state with a program counter, one step of it makes at most one
  request; a round runs the ranks along a schedule up to the barrier that ends it. As in \<open>Logistic\<close>
  a barrier is taken to stand behind the first writes.
\<close>

section \<open>A rank\<close>

datatype agd_pc = RoundTop | Traversing | Updating | AtBarrier

record 'd agd =
  g_par :: "'d list paralg"
  g_data :: "'d lg_data"
  g_idx :: "nat list"
  g_cnt :: nat
  g_theta :: "'d list"
  g_old :: "'d list"
  g_pc :: agd_pc

text \<open>\<open>read_batch\<close> and \<open>update_batch\<close>, and the test that is made before reading and before updating.\<close>

definition agd_batch :: "'d lg_data \<Rightarrow> nat" where
  "agd_batch dt = (let b = length (samples dt) div 100 in if b = 0 then 10 else b)"

definition batch_point :: "'d agd \<Rightarrow> bool" where
  "batch_point r \<longleftrightarrow> g_cnt r mod agd_batch (g_data r) = 0 \<or> int (g_cnt r) = int (length (g_idx r)) - 1"

definition agd_read ::
  "('d list, 'w) kvm_ops \<Rightarrow> (string \<Rightarrow> u64) \<Rightarrow> nat \<Rightarrow> 'd agd \<Rightarrow> 'w \<Rightarrow> ('d agd \<times> 'w) res"
where
  "agd_read K hf fuel r w =
     rbind (paracel_read K hf fuel ''theta'' (g_par r) w) (\<lambda>(theta, p, w).
     Inr (r\<lparr>g_par := p, g_theta := theta, g_old := theta\<rparr>, w))"

definition agd_visit ::
  "('d list, 'w) kvm_ops \<Rightarrow> (string \<Rightarrow> u64) \<Rightarrow> nat \<Rightarrow>
     'd :: {zero, one, plus, minus, times, divide, uminus} lg_cfg \<Rightarrow> 'd agd \<Rightarrow> 'w \<Rightarrow> ('d agd \<times> 'w) res"
where
  "agd_visit K hf fuel C r w =
     rbind (if batch_point r then agd_read K hf fuel r w else Inr (r, w)) (\<lambda>(r, w).
     rbind (data_dim (g_data r)) (\<lambda>dim. rbind (nth_res (g_idx r) (g_cnt r)) (\<lambda>sample_id.
     rbind (descend_sample C (g_data r) dim sample_id (g_theta r)) (\<lambda>theta.
     let r = r\<lparr>g_theta := theta\<rparr>
     in Inr (if batch_point r then r\<lparr>g_pc := Updating\<rparr> else r\<lparr>g_cnt := g_cnt r + 1\<rparr>, w)))))"

definition agd_delta :: "'d :: minus agd \<Rightarrow> 'd list res" where
  "agd_delta r = rbind (data_dim (g_data r)) (\<lambda>dim.
     rmapM (\<lambda>i. rbind (nth_res (g_theta r) i) (\<lambda>t. rbind (nth_res (g_old r) i) (\<lambda>t_old. Inr (t - t_old)))) [0..<dim])"

definition agd_own ::
  "('d list, 'w) kvm_ops \<Rightarrow> (string \<Rightarrow> u64) \<Rightarrow> nat \<Rightarrow>
     'd :: {zero, one, plus, minus, times, divide, uminus} lg_cfg \<Rightarrow> 'd agd \<Rightarrow> 'w \<Rightarrow> ('d agd \<times> 'w) res"
where
  "agd_own K hf fuel C r w = (case g_pc r of
       RoundTop \<Rightarrow> rbind (agd_read K hf fuel r w) (\<lambda>(r, w). Inr (r\<lparr>g_cnt := 0, g_pc := Traversing\<rparr>, w))
     | Traversing \<Rightarrow>
         if g_cnt r < length (g_idx r) then agd_visit K hf fuel C r w else Inr (r\<lparr>g_pc := AtBarrier\<rparr>, w)
     | Updating \<Rightarrow>
         rbind (agd_delta r) (\<lambda>delta.
         rbind (paracel_bupdate K hf ''theta'' delta None (g_par r) w) (\<lambda>(_, p, w).
         Inr (r\<lparr>g_par := p, g_cnt := g_cnt r + 1, g_pc := Traversing\<rparr>, w)))
     | AtBarrier \<Rightarrow> Inr (r, w))"

section \<open>All ranks\<close>

definition agd_step ::
  "('d list, 'w) kvm_ops \<Rightarrow> (string \<Rightarrow> u64) \<Rightarrow> nat \<Rightarrow>
     'd :: {zero, one, plus, minus, times, divide, uminus} lg_cfg \<Rightarrow> nat \<Rightarrow> 'd agd list \<times> 'w \<Rightarrow> ('d agd list \<times> 'w) res"
where
  "agd_step K hf fuel C i = (\<lambda>(gs, w).
     rbind (nth_res gs i) (\<lambda>g. rbind (agd_own K hf fuel C g w) (\<lambda>(g, w). Inr (gs[i := g], w))))"

definition agd_enter :: "'d lg_rank \<Rightarrow> nat list \<Rightarrow> 'd agd" where
  "agd_enter = (\<lambda>(p, dt) idx. \<lparr>g_par = p, g_data = dt, g_idx = idx, g_cnt = 0, g_theta = [], g_old = [], g_pc = RoundTop\<rparr>)"

text \<open>A round: the visiting orders of the ranks, and the order in which the ranks make their steps.\<close>

definition agd_round ::
  "('d list, 'w) kvm_ops \<Rightarrow> (string \<Rightarrow> u64) \<Rightarrow> nat \<Rightarrow>
     'd :: {zero, one, plus, minus, times, divide, uminus} lg_cfg \<Rightarrow> nat list list \<times> nat list \<Rightarrow>
     'd lg_rank list \<times> 'w \<Rightarrow> ('d lg_rank list \<times> 'w) res"
where
  "agd_round K hf fuel C = (\<lambda>(idxs, sched) (rs, w).
     rbind (rfold (agd_step K hf fuel C) sched (map2 agd_enter rs idxs, w)) (\<lambda>(gs, w).
     if \<forall>g \<in> set gs. g_pc g = AtBarrier then Inr (map (\<lambda>g. (g_par g, g_data g)) gs, w) else Inl NoProgress))"

definition agd_learning where
  "agd_learning C K hf fuel rnd first rounds rs w =
     rbind (rfold (lg_init_rank K hf rnd) first (rs, w)) (\<lambda>(rs, w).
     rbind (rfold (agd_round K hf fuel C) rounds (rs, w)) (\<lambda>(rs, w). lg_last K hf fuel rs w))"

text \<open>\<open>solve\<close>: loading, parsing, the method of the configured name.\<close>

definition lg_methods where
  "lg_methods sz C method =
     (if method = ''dgd'' then Some (dgd_learning C)
      else if method = ''ipm'' then Some (ipm_learning sz C)
      else if method = ''agd'' then Some (agd_learning C)
      else None)"

definition lg_solve where
  "lg_solve learning D fs names K hf fuel rnd first rounds ps w =
     rbind (lg_load D fs names ps) (\<lambda>rs. case learning of
         None \<Rightarrow> Inr ([], w)
       | Some f \<Rightarrow> f K hf fuel rnd first rounds rs w)"

section \<open>The reference: descent with delays\<close>

text \<open>The samples of a round at which a rank reads and updates, as positions in its visiting order.\<close>

definition visit_points :: "'d lg_data \<Rightarrow> nat \<Rightarrow> nat list" where
  "visit_points dt n = filter (\<lambda>c. c mod agd_batch dt = 0 \<or> c = n - 1) [0..<n]"

text \<open>What one sample adds to a parameter.\<close>

definition sgd_delta ::
  "'d :: {zero, one, plus, minus, times, divide, uminus} lg_cfg \<Rightarrow> 'd lg_data \<Rightarrow> nat \<Rightarrow> 'd list \<Rightarrow> 'd list"
where
  "sgd_delta C dt s theta = map (\<lambda>i. descended C dt theta [s] ! i - theta ! i) [0..<length theta]"

text \<open>
  An update: a rank, the position of a sample in its order, and the number of updates before the
  parameter at which the sample is taken. The history of the parameter grows by one with each.
\<close>

definition delayed_step ::
  "'d :: {zero, one, plus, minus, times, divide, uminus} lg_cfg \<Rightarrow> 'd lg_rank list \<Rightarrow> nat list list \<Rightarrow>
     'd list list \<Rightarrow> nat \<times> nat \<times> nat \<Rightarrow> 'd list list"
where
  "delayed_step C rs idxs h = (\<lambda>(i, c, m). h @ [vadd (last h) (sgd_delta C (snd (rs ! i)) (idxs ! i ! c) (h ! m))])"

definition delayed ::
  "'d :: {zero, one, plus, minus, times, divide, uminus} lg_cfg \<Rightarrow> 'd lg_rank list \<Rightarrow> nat list list \<Rightarrow>
     'd list \<Rightarrow> (nat \<times> nat \<times> nat) list \<Rightarrow> 'd list list"
where
  "delayed C rs idxs theta evs = foldl (delayed_step C rs idxs) [theta] evs"

definition sent_by :: "nat \<Rightarrow> (nat \<times> nat \<times> nat) list \<Rightarrow> nat list" where
  "sent_by i evs = map (fst \<circ> snd) (filter (\<lambda>e. fst e = i) evs)"

definition delays_ok :: "(nat \<times> nat \<times> nat) list \<Rightarrow> bool" where
  "delays_ok evs \<longleftrightarrow> (\<forall>k < length evs. snd (snd (evs ! k)) \<le> k)"

definition delayed_round :: "'d lg_rank list \<Rightarrow> nat list list \<Rightarrow> (nat \<times> nat \<times> nat) list \<Rightarrow> bool" where
  "delayed_round rs idxs evs \<longleftrightarrow> delays_ok evs \<and> (\<forall>e \<in> set evs. fst e < length rs) \<and>
     (\<forall>i < length rs. sent_by i evs = visit_points (snd (rs ! i)) (length (idxs ! i)))"

lemma delayed_simps [simp]:
  "delayed C rs idxs theta [] = [theta]"
  "delayed C rs idxs theta (evs @ [(i, c, m)]) = (let h = delayed C rs idxs theta evs
     in h @ [vadd (last h) (sgd_delta C (snd (rs ! i)) (idxs ! i ! c) (h ! m))])"
  by (simp_all add: delayed_def delayed_step_def Let_def)

lemma delayed_length [simp]: "length (delayed C rs idxs theta evs) = Suc (length evs)"
  by (induction evs rule: rev_induct) (auto simp: Let_def)

lemma delayed_dim: "th \<in> set (delayed C rs idxs theta evs) \<Longrightarrow> length th = length theta"
proof (induction evs arbitrary: th rule: rev_induct)
  case (snoc e evs)
  have "delayed C rs idxs theta evs \<noteq> []" by (metis delayed_length length_0_conv nat.distinct(1))
  then have "length (last (delayed C rs idxs theta evs)) = length theta" using snoc.IH last_in_set by blast
  then show ?case using snoc by (cases e) (auto simp: Let_def)
qed simp

lemma delayed_last_dim [simp]: "length (last (delayed C rs idxs theta evs)) = length theta"
  by (metis delayed_dim delayed_length last_in_set length_0_conv nat.distinct(1))

lemma delayed_nth_dim [simp]: "m \<le> length evs \<Longrightarrow> length (delayed C rs idxs theta evs ! m) = length theta"
  by (metis delayed_dim delayed_length less_Suc_eq_le nth_mem)

lemma delayed_prefix: "m \<le> length evs \<Longrightarrow> delayed C rs idxs theta (evs @ [e]) ! m = delayed C rs idxs theta evs ! m"
  by (cases e) (simp add: Let_def nth_append)

lemma sent_by_simps [simp]:
  "sent_by i [] = []" "sent_by i (evs @ [(j, c, m)]) = sent_by i evs @ (if j = i then [c] else [])"
  by (simp_all add: sent_by_def)

lemma delays_ok_simps [simp]: "delays_ok []" "delays_ok (evs @ [(i, c, m)]) \<longleftrightarrow> delays_ok evs \<and> m \<le> length evs"
  by (auto simp: delays_ok_def nth_append less_Suc_eq)

section \<open>Lemmas: one step\<close>

lemma descend_one:
  fixes C :: "'d :: {comm_ring_1, divide} lg_cfg"
  assumes "data_ok dim dt" "length theta = dim" "s < length (samples dt)"
  shows "descend_sample C dt dim s theta = Inr (descended C dt theta [s])" "length (descended C dt theta [s]) = dim"
proof -
  obtain th where "descend C dt theta [s] = Inr th" "length th = dim" using descend_ok [OF assms(1,2), of "[s]"] assms(3) by auto
  then show "descend_sample C dt dim s theta = Inr (descended C dt theta [s])" "length (descended C dt theta [s]) = dim"
    using data_ok_dim [OF assms(1)] by (auto simp: descend_def descended_def res_simps)
qed

lemma agd_delta_sgd:
  fixes C :: "'d :: {comm_ring_1, divide} lg_cfg"
  assumes "data_ok dim (g_data r)" "length (g_old r) = dim" "s < length (samples (g_data r))"
    and "g_theta r = descended C (g_data r) (g_old r) [s]"
  shows "agd_delta r = Inr (sgd_delta C (g_data r) s (g_old r))"
proof -
  have "rmapM (\<lambda>i. rbind (nth_res (g_theta r) i) (\<lambda>t. rbind (nth_res (g_old r) i) (\<lambda>t_old. Inr (t - t_old)))) [0..<dim] =
    Inr (map (\<lambda>i. g_theta r ! i - g_old r ! i) [0..<dim])"
    by (rule rmapM_Inr_map) (use assms(2,4) descend_one(2) [OF assms(1-3), of C] in \<open>simp add: nth_res_def\<close>)
  then show ?thesis using assms(2,4) data_ok_dim [OF assms(1)] by (simp add: agd_delta_def sgd_delta_def)
qed

text \<open>The state of a rank, relative to the updates so far and the history of the parameter.\<close>

definition agd_rank_inv ::
  "'d :: {zero, one, plus, minus, times, divide, uminus} lg_cfg \<Rightarrow> nat \<Rightarrow> 'd list list \<Rightarrow> nat list \<Rightarrow> 'd lg_rank \<Rightarrow>
     nat list \<Rightarrow> 'd agd \<Rightarrow> bool"
where
  "agd_rank_inv C dim h sent rk idx g \<longleftrightarrow> g_par g = fst rk \<and> g_data g = snd rk \<and> g_idx g = idx \<and>
     g_cnt g \<le> length idx \<and> sent = filter (\<lambda>c. c mod agd_batch (snd rk) = 0 \<or> c = length idx - 1) [0..<g_cnt g] \<and>
     (case g_pc g of
        RoundTop \<Rightarrow> g_cnt g = 0
      | Traversing \<Rightarrow> length (g_theta g) = dim
      | Updating \<Rightarrow> g_cnt g < length idx \<and> batch_point g \<and>
          (\<exists>m < length h. g_old g = h ! m \<and> g_theta g = descended C (snd rk) (h ! m) [idx ! g_cnt g])
      | AtBarrier \<Rightarrow> g_cnt g = length idx)"

lemma agd_rank_inv_later:
  assumes "agd_rank_inv C dim h sent rk idx g" "length h \<le> length h'" "\<forall>m < length h. h' ! m = h ! m"
  shows "agd_rank_inv C dim h' sent rk idx g"
proof -
  have "\<exists>m < length h'. g_old g = h' ! m \<and> g_theta g = descended C (snd rk) (h' ! m) [idx ! g_cnt g]"
    if "\<exists>m < length h. g_old g = h ! m \<and> g_theta g = descended C (snd rk) (h ! m) [idx ! g_cnt g]"
    using that assms(2,3) by (metis order_less_le_trans)
  then show ?thesis using assms(1) unfolding agd_rank_inv_def by (auto split: agd_pc.splits)
qed

text \<open>The steps a rank has left.\<close>

definition agd_left :: "'d agd \<Rightarrow> nat" where
  "agd_left g = (let todo = length (g_idx g) - g_cnt g in case g_pc g of
     RoundTop \<Rightarrow> 2 * length (g_idx g) + 2 | Traversing \<Rightarrow> 2 * todo + 1 | Updating \<Rightarrow> 2 * todo | AtBarrier \<Rightarrow> 0)"

text \<open>A store of a sum of vectors: the updates of one parameter are added up.\<close>

locale sum_store = vector_store K n inv view encv key_ok val_ok vadd
  for K :: "('d :: {comm_ring_1, divide} list, 'w) kvm_ops" and n inv view encv key_ok val_ok +
  fixes dim :: nat
  assumes theta_ok: "inv w \<Longrightarrow> key_ok ''theta''"
    and dim_ok: "inv w \<Longrightarrow> length v = dim \<Longrightarrow> val_ok v"
begin

lemma agd_read_ok:
  assumes "inv w" "routes hf n (g_par r)" "server_of hf (g_par r) = srv" "\<not> ssp_switch (g_par r)" "length theta = dim"
    and "global_view view srv w ''theta'' = Some (encv theta)"
  shows "\<exists>w'. agd_read K hf fuel r w = Inr (r\<lparr>g_theta := theta, g_old := theta\<rparr>, w') \<and> inv w' \<and>
    global_view view srv w' = global_view view srv w"
proof -
  obtain w' where "paracel_read K hf fuel ''theta'' (g_par r) w = Inr (theta, g_par r, w')" "inv w'"
    "global_view view srv w' = global_view view srv w"
    using read_param [OF assms(1,2,4) theta_ok [OF assms(1)] dim_ok [OF assms(1,5)]] assms(3,6) by blast
  then show ?thesis by (intro exI [of _ w']) (simp add: agd_read_def)
qed

text \<open>One step of a rank either leaves the history as it is or adds the update of a sample to it.\<close>

lemma agd_own_ok:
  fixes C :: "'d lg_cfg"
  assumes "inv w" "routes hf n (fst rk)" "server_of hf (fst rk) = srv" "\<not> ssp_switch (fst rk)"
    and "data_ok dim (snd rk)" "\<forall>s \<in> set idx. s < length (samples (snd rk))"
    and "h \<noteq> []" "\<forall>th \<in> set h. length th = dim" "agd_rank_inv C dim h sent rk idx g"
    and "global_view view srv w ''theta'' = Some (encv (last h))"
  shows "\<exists>g' w'. agd_own K hf fuel C g w = Inr (g', w') \<and> inv w' \<and> agd_left g' \<le> agd_left g - 1 \<and>
    (global_view view srv w' ''theta'' = Some (encv (last h)) \<and> agd_rank_inv C dim h sent rk idx g' \<or>
     (\<exists>m < length h. let th = vadd (last h) (sgd_delta C (snd rk) (idx ! g_cnt g) (h ! m)) in
       global_view view srv w' ''theta'' = Some (encv th) \<and> agd_rank_inv C dim (h @ [th]) (sent @ [g_cnt g]) rk idx g'))"
proof -
  note g = assms(9) [unfolded agd_rank_inv_def]
  have p: "routes hf n (g_par g)" "server_of hf (g_par g) = srv" "\<not> ssp_switch (g_par g)" using g assms(2-4) by auto
  have last: "length (last h) = dim" "last h = h ! (length h - 1)" "length h - 1 < length h"
    using assms(7,8) by (auto simp: last_conv_nth)
  obtain w1 where w1: "agd_read K hf fuel g w = Inr (g\<lparr>g_theta := last h, g_old := last h\<rparr>, w1)" "inv w1"
    "global_view view srv w1 ''theta'' = Some (encv (last h))"
    using agd_read_ok [OF assms(1) p last(1) assms(10)] assms(10) by metis
  show ?thesis
  proof (cases "g_pc g")
    case RoundTop
    then show ?thesis
      using g w1 last(1) by (intro exI [of _ "g\<lparr>g_theta := last h, g_old := last h, g_cnt := 0, g_pc := Traversing\<rparr>"] exI [of _ w1])
        (auto simp: agd_own_def agd_rank_inv_def agd_left_def)
  next
    case Traversing
    show ?thesis
    proof (cases "g_cnt g < length idx")
      case False
      then show ?thesis
        using Traversing g assms(1,10) by (intro exI [of _ "g\<lparr>g_pc := AtBarrier\<rparr>"] exI [of _ w])
          (auto simp: agd_own_def agd_rank_inv_def agd_left_def)
    next
      case True
      let ?s = "idx ! g_cnt g"
      have s: "?s < length (samples (snd rk))" using assms(6) True by simp
      have bp: "batch_point (g\<lparr>g_theta := a, g_old := b\<rparr>) = batch_point g" "batch_point (g\<lparr>g_theta := a\<rparr>) = batch_point g"
        for a b by (simp_all add: batch_point_def)
      show ?thesis
      proof (cases "batch_point g")
        case at: True
        let ?g = "g\<lparr>g_theta := descended C (snd rk) (last h) [?s], g_old := last h, g_pc := Updating\<rparr>"
        have "agd_own K hf fuel C g w = Inr (?g, w1)"
          using Traversing True at w1(1) g s descend_one(1) [OF assms(5) last(1) s] data_ok_dim [OF assms(5)]
          by (simp add: agd_own_def agd_visit_def nth_res_def bp Let_def batch_point_def)
        moreover have "agd_rank_inv C dim h sent rk idx ?g"
          using g at True last(2,3) by (auto simp: agd_rank_inv_def batch_point_def)
        ultimately show ?thesis
          using w1(2,3) g Traversing by (intro exI [of _ ?g] exI [of _ w1]) (auto simp: agd_left_def)
      next
        case off: False
        have len: "length (g_theta g) = dim" using g Traversing by simp
        let ?g = "g\<lparr>g_theta := descended C (snd rk) (g_theta g) [?s], g_cnt := g_cnt g + 1\<rparr>"
        have "agd_own K hf fuel C g w = Inr (?g, w)"
          using Traversing True off g s descend_one(1) [OF assms(5) len s] data_ok_dim [OF assms(5)]
          by (simp add: agd_own_def agd_visit_def nth_res_def bp Let_def)
        moreover have "agd_rank_inv C dim h sent rk idx ?g"
          using g off True Traversing descend_one(2) [OF assms(5) len s]
          by (auto simp: agd_rank_inv_def batch_point_def)
        ultimately show ?thesis
          using assms(1,10) g True Traversing by (intro exI [of _ ?g] exI [of _ w]) (auto simp: agd_left_def)
      qed
    qed
  next
    case Updating
    then obtain m where m: "m < length h" "g_old g = h ! m" "g_theta g = descended C (snd rk) (h ! m) [idx ! g_cnt g]"
      "g_cnt g < length idx" "batch_point g"
      using g by auto
    have s: "idx ! g_cnt g < length (samples (snd rk))" using assms(6) m(4) by simp
    have old: "length (g_old g) = dim" using m(1,2) assms(8) by simp
    let ?d = "sgd_delta C (snd rk) (idx ! g_cnt g) (h ! m)"
    let ?th = "vadd (last h) ?d"
    have delta: "agd_delta g = Inr ?d"
      using agd_delta_sgd [of dim g "idx ! g_cnt g" C] g assms(5) old s m(2,3) by simp
    have dl: "length ?d = dim" "length ?th = dim" using old m(2) last(1) by (simp_all add: sgd_delta_def)
    obtain w2 where w2: "paracel_bupdate K hf ''theta'' ?d None (g_par g) w = Inr (True, g_par g, w2)" "inv w2"
      "global_view view srv w2 = (global_view view srv w)(''theta'' \<mapsto> encv ?th)"
      using add_param [OF assms(1) p(1,3) theta_ok [OF assms(1)] dim_ok [OF assms(1) last(1)]
          dim_ok [OF assms(1) dl(1)] dim_ok [OF assms(1) dl(2)]] p(2) assms(10) by auto
    let ?g = "g\<lparr>g_cnt := g_cnt g + 1, g_pc := Traversing\<rparr>"
    have len: "length (g_theta g) = dim"
      using m(3) descend_one(2) [OF assms(5) _ s] old m(2) by metis
    have "agd_own K hf fuel C g w = Inr (?g, w2)" using Updating delta w2(1) by (simp add: agd_own_def)
    moreover have "agd_rank_inv C dim (h @ [?th]) (sent @ [g_cnt g]) rk idx ?g"
      using g m(4,5) len by (auto simp: agd_rank_inv_def batch_point_def)
    ultimately show ?thesis
      using w2(2,3) m(1,4) g Updating by (intro exI [of _ ?g] exI [of _ w2]) (auto simp: agd_left_def Let_def)
  next
    case AtBarrier
    then show ?thesis
      using assms(1,9,10) by (intro exI [of _ g] exI [of _ w]) (auto simp: agd_own_def agd_left_def)
  qed
qed

end

section \<open>Lemmas: a round\<close>

definition agd_ranks ::
  "'d :: {zero, one, plus, minus, times, divide, uminus} lg_cfg \<Rightarrow> nat \<Rightarrow> 'd lg_rank list \<Rightarrow> nat list list \<Rightarrow>
     'd list list \<Rightarrow> 'd agd list \<Rightarrow> (nat \<times> nat \<times> nat) list \<Rightarrow> bool"
where
  "agd_ranks C dim rs idxs h gs evs \<longleftrightarrow> length gs = length rs \<and> delays_ok evs \<and> (\<forall>e \<in> set evs. fst e < length rs) \<and>
     (\<forall>i < length rs. agd_rank_inv C dim h (sent_by i evs) (rs ! i) (idxs ! i) (gs ! i))"

lemma agd_ranks_same:
  assumes "agd_ranks C dim rs idxs h gs evs" "agd_rank_inv C dim h (sent_by i evs) (rs ! i) (idxs ! i) g"
  shows "agd_ranks C dim rs idxs h (gs[i := g]) evs"
  using assms by (cases "i < length gs") (auto simp: agd_ranks_def nth_list_update)

lemma agd_ranks_update:
  assumes "agd_ranks C dim rs idxs h gs evs" "i < length rs" "m \<le> length evs"
    and "agd_rank_inv C dim (h @ [th]) (sent_by i evs @ [c]) (rs ! i) (idxs ! i) g"
  shows "agd_ranks C dim rs idxs (h @ [th]) (gs[i := g]) (evs @ [(i, c, m)])"
proof -
  have "agd_rank_inv C dim (h @ [th]) (sent_by j evs) (rs ! j) (idxs ! j) (gs ! j)" if "j < length rs" for j
    by (rule agd_rank_inv_later [of C dim h]) (use assms(1) that in \<open>simp_all add: agd_ranks_def nth_append\<close>)
  then show ?thesis using assms by (auto simp: agd_ranks_def nth_list_update)
qed

text \<open>What a round needs: visiting orders, and a schedule that gives every rank enough steps.\<close>

definition agd_round_ok :: "'d lg_rank list \<Rightarrow> nat list list \<times> nat list \<Rightarrow> bool" where
  "agd_round_ok rs = (\<lambda>(idxs, sched). length idxs = length rs \<and> set sched \<subseteq> {0..<length rs} \<and>
     (\<forall>i < length rs. mset (idxs ! i) = mset [0..<length (samples (snd (rs ! i)))] \<and>
        2 * length (idxs ! i) + 2 \<le> count_list sched i))"

context sum_store
begin

lemma agd_step_ok:
  assumes "inv w" "lg_ready hf n srv rs" "\<forall>(p, dt) \<in> set rs. data_ok dim dt"
    and "\<forall>i < length rs. \<forall>s \<in> set (idxs ! i). s < length (samples (snd (rs ! i)))" "length theta = dim"
    and "agd_ranks C dim rs idxs (delayed C rs idxs theta evs) gs evs"
    and "global_view view srv w ''theta'' = Some (encv (last (delayed C rs idxs theta evs)))" "i < length rs"
  shows "\<exists>g w' evs'. agd_step K hf fuel C i (gs, w) = Inr (gs[i := g], w') \<and> inv w' \<and>
    agd_left g \<le> agd_left (gs ! i) - 1 \<and> agd_ranks C dim rs idxs (delayed C rs idxs theta evs') (gs[i := g]) evs' \<and>
    global_view view srv w' ''theta'' = Some (encv (last (delayed C rs idxs theta evs')))"
proof -
  let ?h = "delayed C rs idxs theta evs"
  have i: "rs ! i \<in> set rs" "i < length gs" using assms(6,8) by (auto simp: agd_ranks_def)
  have r: "routes hf n (fst (rs ! i))" "server_of hf (fst (rs ! i)) = srv" "\<not> ssp_switch (fst (rs ! i))"
    "data_ok dim (snd (rs ! i))" "\<forall>s \<in> set (idxs ! i). s < length (samples (snd (rs ! i)))"
    using assms(2,3,4,8) i(1) by (auto simp: lg_ready_def case_prod_unfold)
  have "?h \<noteq> []" using delayed_length [of C rs idxs theta evs] by fastforce
  then have h: "?h \<noteq> []" "\<forall>th \<in> set ?h. length th = dim" "agd_rank_inv C dim ?h (sent_by i evs) (rs ! i) (idxs ! i) (gs ! i)"
    using delayed_dim [of _ C rs idxs theta evs] assms(5,6,8)
    by (auto simp: agd_ranks_def)
  obtain g w' where g: "agd_own K hf fuel C (gs ! i) w = Inr (g, w')" "inv w'" "agd_left g \<le> agd_left (gs ! i) - 1"
    "global_view view srv w' ''theta'' = Some (encv (last ?h)) \<and> agd_rank_inv C dim ?h (sent_by i evs) (rs ! i) (idxs ! i) g \<or>
     (\<exists>m < length ?h. let th = vadd (last ?h) (sgd_delta C (snd (rs ! i)) (idxs ! i ! g_cnt (gs ! i)) (?h ! m)) in
       global_view view srv w' ''theta'' = Some (encv th) \<and>
       agd_rank_inv C dim (?h @ [th]) (sent_by i evs @ [g_cnt (gs ! i)]) (rs ! i) (idxs ! i) g)"
    using agd_own_ok [OF assms(1) r h assms(7)] by blast
  have st: "agd_step K hf fuel C i (gs, w) = Inr (gs[i := g], w')" using g(1) i(2) by (simp add: agd_step_def nth_res_def)
  show ?thesis
  proof (cases "global_view view srv w' ''theta'' = Some (encv (last ?h)) \<and>
      agd_rank_inv C dim ?h (sent_by i evs) (rs ! i) (idxs ! i) g")
    case True
    then show ?thesis using st g(2,3) agd_ranks_same [OF assms(6)] by blast
  next
    case False
    then obtain m where m: "m < length ?h"
      "let th = vadd (last ?h) (sgd_delta C (snd (rs ! i)) (idxs ! i ! g_cnt (gs ! i)) (?h ! m)) in
       global_view view srv w' ''theta'' = Some (encv th) \<and>
       agd_rank_inv C dim (?h @ [th]) (sent_by i evs @ [g_cnt (gs ! i)]) (rs ! i) (idxs ! i) g"
      using g(4) by blast
    let ?evs = "evs @ [(i, g_cnt (gs ! i), m)]"
    have "agd_ranks C dim rs idxs (delayed C rs idxs theta ?evs) (gs[i := g]) ?evs"
      using agd_ranks_update [OF assms(6,8)] m by (simp add: Let_def)
    then show ?thesis using st g(2,3) m(2) by (intro exI [of _ g] exI [of _ w'] exI [of _ ?evs]) (simp add: Let_def)
  qed
qed

lemma agd_sched_ok:
  assumes "lg_ready hf n srv rs" "\<forall>(p, dt) \<in> set rs. data_ok dim dt"
    and "\<forall>i < length rs. \<forall>s \<in> set (idxs ! i). s < length (samples (snd (rs ! i)))" "length theta = dim"
    and "inv w" "agd_ranks C dim rs idxs (delayed C rs idxs theta evs) gs evs"
    and "global_view view srv w ''theta'' = Some (encv (last (delayed C rs idxs theta evs)))"
    and "set sched \<subseteq> {0..<length rs}"
  shows "\<exists>gs' w' evs'. rfold (agd_step K hf fuel C) sched (gs, w) = Inr (gs', w') \<and> inv w' \<and>
    agd_ranks C dim rs idxs (delayed C rs idxs theta evs') gs' evs' \<and>
    global_view view srv w' ''theta'' = Some (encv (last (delayed C rs idxs theta evs'))) \<and>
    (\<forall>i < length rs. agd_left (gs' ! i) \<le> agd_left (gs ! i) - count_list sched i)"
  using assms(5-8)
proof (induction sched arbitrary: gs w evs)
  case Nil
  then show ?case by auto
next
  case (Cons i sched)
  have i: "i < length rs" "i < length gs" using Cons.prems(2,4) by (auto simp: agd_ranks_def)
  obtain g w1 evs1 where g: "agd_step K hf fuel C i (gs, w) = Inr (gs[i := g], w1)" "inv w1"
    "agd_left g \<le> agd_left (gs ! i) - 1" "agd_ranks C dim rs idxs (delayed C rs idxs theta evs1) (gs[i := g]) evs1"
    "global_view view srv w1 ''theta'' = Some (encv (last (delayed C rs idxs theta evs1)))"
    using agd_step_ok [OF Cons.prems(1) assms(1-4) Cons.prems(2,3) i(1)] by blast
  obtain gs' w' evs' where IH: "rfold (agd_step K hf fuel C) sched (gs[i := g], w1) = Inr (gs', w')" "inv w'"
    "agd_ranks C dim rs idxs (delayed C rs idxs theta evs') gs' evs'"
    "global_view view srv w' ''theta'' = Some (encv (last (delayed C rs idxs theta evs')))"
    "\<forall>j < length rs. agd_left (gs' ! j) \<le> agd_left (gs[i := g] ! j) - count_list sched j"
    using Cons.IH [OF g(2,4,5)] Cons.prems(4) by auto
  have "agd_left (gs' ! j) \<le> agd_left (gs ! j) - count_list (i # sched) j" if "j < length rs" for j
    using IH(5) g(3) that i(2) by (cases "j = i") (fastforce simp: nth_list_update)+
  then show ?case using g(1) IH(1-4) by auto
qed

lemma agd_round_run:
  assumes "inv w" "lg_ready hf n srv rs" "\<forall>(p, dt) \<in> set rs. data_ok dim dt" "agd_round_ok rs (idxs, sched)"
    and "length theta = dim" "global_view view srv w ''theta'' = Some (encv theta)"
  shows "\<exists>evs w'. agd_round K hf fuel C (idxs, sched) (rs, w) = Inr (rs, w') \<and> inv w' \<and> delayed_round rs idxs evs \<and>
    global_view view srv w' ''theta'' = Some (encv (last (delayed C rs idxs theta evs)))"
proof -
  let ?gs = "map2 agd_enter rs idxs"
  have len: "length idxs = length rs" "set sched \<subseteq> {0..<length rs}" using assms(4) by (auto simp: agd_round_ok_def)
  have gs: "?gs ! i = agd_enter (rs ! i) (idxs ! i)" "length ?gs = length rs" if "i < length rs" for i
    using that len by simp_all
  have idx: "\<forall>i < length rs. \<forall>s \<in> set (idxs ! i). s < length (samples (snd (rs ! i)))"
  proof (intro allI impI ballI)
    fix i s assume "i < length rs" "s \<in> set (idxs ! i)"
    then show "s < length (samples (snd (rs ! i)))"
      using assms(4) mset_eq_setD [of "idxs ! i" "[0..<length (samples (snd (rs ! i)))]"] by (auto simp: agd_round_ok_def)
  qed
  have start: "agd_ranks C dim rs idxs (delayed C rs idxs theta []) ?gs []"
    using len by (auto simp: agd_ranks_def agd_rank_inv_def agd_enter_def case_prod_unfold)
  have at: "global_view view srv w ''theta'' = Some (encv (last (delayed C rs idxs theta [])))" using assms(6) by simp
  obtain gs' w' evs where run: "rfold (agd_step K hf fuel C) sched (?gs, w) = Inr (gs', w')" "inv w'"
    "agd_ranks C dim rs idxs (delayed C rs idxs theta evs) gs' evs"
    "global_view view srv w' ''theta'' = Some (encv (last (delayed C rs idxs theta evs)))"
    "\<forall>i < length rs. agd_left (gs' ! i) \<le> agd_left (?gs ! i) - count_list sched i"
    using agd_sched_ok [OF assms(2,3) idx assms(5,1) start at len(2)] by blast
  have fin: "g_pc (gs' ! i) = AtBarrier" "agd_rank_inv C dim (delayed C rs idxs theta evs) (sent_by i evs) (rs ! i) (idxs ! i) (gs' ! i)"
    if i: "i < length rs" for i
  proof -
    show inv: "agd_rank_inv C dim (delayed C rs idxs theta evs) (sent_by i evs) (rs ! i) (idxs ! i) (gs' ! i)"
      using run(3) i by (simp add: agd_ranks_def)
    have "agd_left (?gs ! i) = 2 * length (idxs ! i) + 2"
      using gs [OF i] by (simp add: agd_left_def agd_enter_def case_prod_unfold)
    then have "agd_left (gs' ! i) = 0" using run(5) i assms(4) by (fastforce simp: agd_round_ok_def)
    then show "g_pc (gs' ! i) = AtBarrier"
      using inv by (auto simp: agd_left_def agd_rank_inv_def Let_def split: agd_pc.splits)
  qed
  have glen: "length gs' = length rs" using run(3) by (simp add: agd_ranks_def)
  then have "\<forall>g \<in> set gs'. g_pc g = AtBarrier" using fin(1) by (auto simp: in_set_conv_nth)
  moreover have "map (\<lambda>g. (g_par g, g_data g)) gs' = rs"
    by (rule nth_equalityI) (use glen fin(2) in \<open>auto simp: agd_rank_inv_def\<close>)
  moreover have "delayed_round rs idxs evs"
    using run(3) fin by (auto simp: delayed_round_def agd_ranks_def agd_rank_inv_def visit_points_def)
  ultimately show ?thesis using run(1,2,4) by (auto simp: agd_round_def)
qed

end

text \<open>The servers are such a store once the updater is registered with them.\<close>

definition sums_inv ::
  "env \<Rightarrow> 'd :: plus list vcodec \<Rightarrow> (string \<Rightarrow> (nat \<times> nat) option) \<Rightarrow> nat \<Rightarrow> nat \<Rightarrow> kvclt list \<times> node list \<Rightarrow> bool"
where
  "sums_inv E V addr n dim w \<longleftrightarrow> rinv E V lg_local_update addr n w \<and> str_wire (env_mp E) ''theta'' \<and>
     (\<forall>v. length v = dim \<longrightarrow> wire_ok (venc V) (vdec V) v)"

interpretation sums: sum_store "client_kvm (env_mp E) (cluster_zmq E addr) V" n "sums_inv E V addr n dim"
    sview "pk_pack (venc V)" "str_wire (env_mp E)" "\<lambda>v. wire_ok (venc V) (vdec V) v \<and> length v = dim" dim
  for E addr V n dim
proof (unfold_locales, goal_cases)
  case (1 w j k d)
  then show ?case using rinv_add [of E V lg_local_update addr n w j k d d] by (auto simp: sums_inv_def)
next
  case (2 w j k d v)
  then show ?case
    using rinv_add [of E V lg_local_update addr n w j k d "vadd v d"] lg_local_update_vadd [of v d] by (auto simp: sums_inv_def)
next
  case (3 w j k v)
  then have "rinv E V lg_local_update addr n w" "wire_env E" "sinv addr n w" by (auto simp: rinv_def sums_inv_def)
  then show ?case using pull_updaters [of E addr n w j k V v] rinv_updaters [of E V lg_local_update addr n w] 3
    by (auto simp: sums_inv_def)
qed (auto simp: sums_inv_def)

section \<open>Asynchronous descent\<close>

text \<open>A run of rounds, with the updates of each.\<close>

definition delayed_run ::
  "'d :: {zero, one, plus, minus, times, divide, uminus} lg_cfg \<Rightarrow> 'd lg_rank list \<Rightarrow> (nat list list \<times> nat list) list \<Rightarrow>
     (nat \<times> nat \<times> nat) list list \<Rightarrow> 'd list \<Rightarrow> 'd list"
where
  "delayed_run C rs rounds evss = fold (\<lambda>((idxs, _), evs) theta. last (delayed C rs idxs theta evs)) (zip rounds evss)"

lemma agd_rounds_ok:
  fixes C :: "'d :: {comm_ring_1, divide} lg_cfg"
  assumes "sums_inv E V addr n dim w" "lg_ready hf n srv rs" "\<forall>(p, dt) \<in> set rs. data_ok dim dt"
    and "\<forall>r \<in> set rounds. agd_round_ok rs r"
    and "length theta = dim" "global_view sview srv w ''theta'' = Some (pk_pack (venc V) theta)"
  shows "\<exists>evss w'. rfold (agd_round (client_kvm (env_mp E) (cluster_zmq E addr) V) hf fuel C) rounds (rs, w) = Inr (rs, w') \<and>
    sums_inv E V addr n dim w' \<and> length evss = length rounds \<and>
    (\<forall>k < length rounds. delayed_round rs (fst (rounds ! k)) (evss ! k)) \<and>
    length (delayed_run C rs rounds evss theta) = dim \<and>
    global_view sview srv w' ''theta'' = Some (pk_pack (venc V) (delayed_run C rs rounds evss theta))"
  using assms(1,4,5,6)
proof (induction rounds arbitrary: w theta)
  case Nil
  then show ?case by (auto simp: delayed_run_def)
next
  case (Cons r rounds)
  obtain idxs sched where r: "r = (idxs, sched)" by (cases r)
  have ro: "agd_round_ok rs (idxs, sched)" using Cons.prems(2) by (simp add: r)
  obtain evs w1 where w1: "agd_round (client_kvm (env_mp E) (cluster_zmq E addr) V) hf fuel C (idxs, sched) (rs, w) = Inr (rs, w1)"
    "sums_inv E V addr n dim w1" "delayed_round rs idxs evs"
    "global_view sview srv w1 ''theta'' = Some (pk_pack (venc V) (last (delayed C rs idxs theta evs)))"
    using sums.agd_round_run [OF Cons.prems(1) assms(2,3) ro Cons.prems(3,4)] by blast
  have len: "length (last (delayed C rs idxs theta evs)) = dim" using Cons.prems(3) by simp
  obtain evss w' where IH: "rfold (agd_round (client_kvm (env_mp E) (cluster_zmq E addr) V) hf fuel C) rounds (rs, w1) = Inr (rs, w')"
    "sums_inv E V addr n dim w'" "length evss = length rounds" "\<forall>k < length rounds. delayed_round rs (fst (rounds ! k)) (evss ! k)"
    "length (delayed_run C rs rounds evss (last (delayed C rs idxs theta evs))) = dim"
    "global_view sview srv w' ''theta'' = Some (pk_pack (venc V) (delayed_run C rs rounds evss (last (delayed C rs idxs theta evs))))"
    using Cons.IH [OF w1(2) _ len w1(4)] Cons.prems(2) by auto
  have "delayed_run C rs (r # rounds) (evs # evss) theta = delayed_run C rs rounds evss (last (delayed C rs idxs theta evs))"
    by (simp add: delayed_run_def r)
  moreover have "\<forall>k < length (r # rounds). delayed_round rs (fst ((r # rounds) ! k)) ((evs # evss) ! k)"
    using IH(4) w1(3) by (auto simp: r nth_Cons split: nat.splits)
  ultimately show ?case using w1(1) IH(1-3,5,6) by (intro exI [of _ "evs # evss"] exI [of _ w']) (simp add: r)
qed



end
